(* ===== verification/Prelude.thy ===== *)
theory Prelude
  imports Main "HOL-Library.Word"
begin

text \<open>
  Shared vocabulary of the development: the machine types of the C code, the ways a C
  function can fail to return a value (\<open>fault\<close>), the error monad the components use, and the
  generic lemmas on words and lists that several components share.
\<close>

unbundle bit_operations_syntax

section \<open>Machine types\<close>

type_synonym byte = "8 word"
type_synonym u16 = "16 word"
type_synonym u32 = "32 word"
type_synonym u64 = "64 word"

section \<open>Faults\<close>

text \<open>
  What can stop a C function before it returns: a shift whose count is outside the width of
  \<open>int\<close>, a null pointer that is followed, an array read outside its bounds, a signed overflow,
  a failed \<open>assert\<close>, a call of \<open>exit\<close>, the use of freed memory, or a wait on a condition variable that the current
  state does not satisfy.
\<close>

datatype fault =
    Shift_UB
  | Null_Deref
  | Out_Of_Bounds
  | Int_Overflow
  | Assert_Failed
  | Exited int
  | Would_Block
  | Use_After_Free

text \<open>Sequencing of fallible computations: the first fault, or exception, ends the run.\<close>

definition bindF :: "'e + 'a \<Rightarrow> ('a \<Rightarrow> 'e + 'b) \<Rightarrow> 'e + 'b" where
  "bindF m f = (case m of Inl e \<Rightarrow> Inl e | Inr x \<Rightarrow> f x)"

named_theorems fault_simps \<open>evaluation of the error monad\<close>
named_theorems const_defs \<open>the preprocessor constants of the C code\<close>

lemma bindF_Inr [simp]: "bindF (Inr x) f = f x"
  by (simp add: bindF_def)

lemma bindF_Inl [simp]: "bindF (Inl e) f = Inl e"
  by (simp add: bindF_def)

lemma bindF_eq_Inr [fault_simps]:
  "bindF m f = Inr y \<longleftrightarrow> (\<exists>x. m = Inr x \<and> f x = Inr y)"
  by (cases m) auto

lemma bindF_assoc: "bindF (bindF m f) g = bindF m (\<lambda>x. bindF (f x) g)"
  by (cases m) auto

section \<open>Words\<close>

text \<open>Widening and narrowing between the widths the code mixes.\<close>

lemma unat_lt_256 [simp]: "unat (b :: byte) < 256"
  using unsigned_less [of b, where ?'a = nat] by simp

lemma unat_le_255 [simp]: "unat (b :: byte) \<le> 255"
  using unat_lt_256 [of b] by linarith

lemma unat_lt_65536 [simp]: "unat (w :: u16) < 65536"
  using unsigned_less [of w, where ?'a = nat] by simp

lemma unat_of_nat_u16 [simp]: "n < 65536 \<Longrightarrow> unat (of_nat n :: u16) = n"
  by (simp add: unat_of_nat take_bit_nat_eq_self)

lemma byte_pair_inj:
  fixes a b c d :: nat
  assumes "a < 256" "c < 256" "256 * b + a = 256 * d + c"
  shows "a = c \<and> b = d"
proof -
  consider "b < d" | "b = d" | "d < b" by linarith
  then show ?thesis
    using assms by cases linarith+
qed

end
