(* ===== verification/Socket_IO.thy ===== *)
theory Socket_IO
  imports Prelude
begin

text \<open>
  Byte transport: \<open>read_msg\<close> and \<open>send_msg\<close> of \<^verbatim>\<open>lib/ctmp.c\<close> and \<open>is_alive\<close> of
  \<^verbatim>\<open>lib/socket.c\<close>. A connection is the list of what the kernel will report on it, up to the
  end of the stream (the end of the list): segments of bytes in whatever sizes they arrive, failed
  calls with their \<open>errno\<close>, and moments at which nothing has arrived yet. \<open>read\<close>, \<open>recv\<close> and
  \<open>send\<close> are modelled on these scripts as POSIX describes them: a call transfers at most the
  requested number of bytes and may transfer fewer.
\<close>

section \<open>What the kernel reports\<close>

text \<open>\<open>Errno k\<close> is the error number \<open>k + 1\<close>; error numbers are positive.\<close>

datatype errno = Errno nat

fun errno_code :: "errno \<Rightarrow> int" where
  "errno_code (Errno k) = int (Suc k)"

definition EINTR :: errno where
  "EINTR = Errno 3"

definition ENOMEM :: errno where
  "ENOMEM = Errno 11"

lemma errno_code_pos [simp]: "0 < errno_code e"
  by (cases e) simp

datatype rx_event =
    Chunk "byte list"
  | Pending
  | Err errno

datatype io_result =
    Ok_Bytes "byte list"
  | Failed errno

text \<open>
  \<open>read(fd, buf, n)\<close>: nothing is transferred for \<open>n = 0\<close>; a blocking read waits through the moments
  with nothing to read; the end of the script is the end of the stream.
\<close>

fun os_read :: "nat \<Rightarrow> rx_event list \<Rightarrow> io_result \<times> rx_event list" where
  "os_read 0 evs = (Ok_Bytes [], evs)"
| "os_read n [] = (Ok_Bytes [], [])"
| "os_read n (Pending # evs) = os_read n evs"
| "os_read n (Err e # evs) = (Failed e, evs)"
| "os_read n (Chunk bs # evs) =
     (if bs = [] then os_read n evs
      else if length bs \<le> n then (Ok_Bytes bs, evs)
      else (Ok_Bytes (take n bs), Chunk (drop n bs) # evs))"

text \<open>
  \<open>is_alive\<close>: \<open>recv\<close> of one byte with \<open>MSG_PEEK | MSG_DONTWAIT\<close> returns 0 exactly at the end of the
  stream; with nothing to read, or on an error, it returns -1, which counts as alive.
\<close>

fun is_alive :: "rx_event list \<Rightarrow> bool" where
  "is_alive [] = False"
| "is_alive (Pending # evs) = True"
| "is_alive (Err e # evs) = True"
| "is_alive (Chunk bs # evs) = (if bs = [] then is_alive evs else True)"

section \<open>Reading a message\<close>

text \<open>The amount of script left, which every transfer reduces.\<close>

fun ev_size :: "rx_event \<Rightarrow> nat" where
  "ev_size (Chunk bs) = Suc (length bs)"
| "ev_size _ = 1"

definition evs_size :: "rx_event list \<Rightarrow> nat" where
  "evs_size evs = sum_list (map ev_size evs)"

lemma evs_size_simps [simp]:
  "evs_size [] = 0"
  "evs_size (e # evs) = ev_size e + evs_size evs"
  by (simp_all add: evs_size_def)

lemma ev_size_pos [simp]: "0 < ev_size e"
  by (cases e) simp_all

lemma os_read_size_le: "os_read n evs = (r, evs') \<Longrightarrow> evs_size evs' \<le> evs_size evs"
  by (induction n evs rule: os_read.induct) (auto split: if_splits)

lemma os_read_progress:
  "os_read n evs = (r, evs') \<Longrightarrow> r \<noteq> Ok_Bytes [] \<Longrightarrow> evs_size evs' < evs_size evs"
  by (induction n evs rule: os_read.induct) (auto split: if_splits)

text \<open>
  The loop of \<open>read_msg\<close>: \<open>acc\<close> holds the \<open>total_bytes_read\<close> bytes stored so far. \<open>continue\<close> after
  an interrupted call goes to the loop test.
\<close>

function read_loop :: "nat \<Rightarrow> byte list \<Rightarrow> rx_event list \<Rightarrow> (errno + byte list) \<times> rx_event list" where
  "read_loop n acc evs =
     (case os_read (n - length acc) evs of
        (Failed e, evs') \<Rightarrow>
          if e = EINTR
          then (if length acc < n then read_loop n acc evs' else (Inr acc, evs'))
          else (Inl e, evs')
      | (Ok_Bytes bs, evs') \<Rightarrow>
          if bs = [] then (Inr acc, evs')
          else if length (acc @ bs) < n then read_loop n (acc @ bs) evs'
          else (Inr (acc @ bs), evs'))"
  by pat_completeness auto
termination
  by (relation "measure (\<lambda>(n, acc, evs). evs_size evs)") (auto dest!: sym [THEN os_read_progress])

declare read_loop.simps [simp del]

text \<open>What the server writes to its log and how it uses the heap while it reads.\<close>

datatype diag =
    Perror_Read errno
  | Bad_Magic byte byte
  | Bad_Padding
  | Bad_Checksum u16 u16
  | Bad_Options byte

record source =
  rx :: "rx_event list"
  diags :: "diag list"
  live :: nat
  budget :: nat

definition log_diag :: "diag \<Rightarrow> source \<Rightarrow> source" where
  "log_diag d s = s\<lparr>diags := diags s @ [d]\<rparr>"

text \<open>\<open>malloc\<close> fails once \<open>budget\<close> is used up, and the callers then \<open>exit(errno)\<close>.\<close>

definition malloc_or_exit :: "source \<Rightarrow> fault + source" where
  "malloc_or_exit s =
     (case budget s of
        0 \<Rightarrow> Inl (Exited (errno_code ENOMEM))
      | Suc b \<Rightarrow> Inr (s\<lparr>live := Suc (live s), budget := b\<rparr>))"

definition free_block :: "source \<Rightarrow> source" where
  "free_block s = s\<lparr>live := live s - 1\<rparr>"

definition read_msg :: "nat \<Rightarrow> source \<Rightarrow> int \<times> byte list \<times> source" where
  "read_msg n s =
     (case read_loop n [] (rx s) of
        (Inl e, evs') \<Rightarrow> (- errno_code e, [], log_diag (Perror_Read e) (s\<lparr>rx := evs'\<rparr>))
      | (Inr bs, evs') \<Rightarrow>
          if length bs = 0 then (- 1, bs, s\<lparr>rx := evs'\<rparr>)
          else if length bs = n then (0, bs, s\<lparr>rx := evs'\<rparr>)
          else (- 1, bs, s\<lparr>rx := evs'\<rparr>))"

section \<open>What a read delivers\<close>

text \<open>The bytes a script carries, in order, and scripts whose only errors are interrupted calls.\<close>

fun stream_bytes :: "rx_event list \<Rightarrow> byte list" where
  "stream_bytes [] = []"
| "stream_bytes (Chunk bs # evs) = bs @ stream_bytes evs"
| "stream_bytes (_ # evs) = stream_bytes evs"

definition clean :: "rx_event list \<Rightarrow> bool" where
  "clean evs \<longleftrightarrow> list_all (\<lambda>ev. case ev of Err e \<Rightarrow> e = EINTR | _ \<Rightarrow> True) evs"

lemma clean_simps [simp]:
  "clean []"
  "clean (Chunk bs # evs) = clean evs"
  "clean (Pending # evs) = clean evs"
  "clean (Err e # evs) = (e = EINTR \<and> clean evs)"
  by (simp_all add: clean_def)

lemma os_read_Ok:
  "os_read n evs = (Ok_Bytes bs, evs') \<Longrightarrow>
   stream_bytes evs = bs @ stream_bytes evs' \<and> length bs \<le> n \<and> (clean evs \<longrightarrow> clean evs')"
  by (induction n evs rule: os_read.induct) (auto split: if_splits)

lemma os_read_Ok_Nil:
  "os_read n evs = (Ok_Bytes [], evs') \<Longrightarrow> 0 < n \<Longrightarrow> stream_bytes evs = [] \<and> evs' = []"
  by (induction n evs rule: os_read.induct) (auto split: if_splits)

lemma os_read_Failed:
  "os_read n evs = (Failed e, evs') \<Longrightarrow>
   stream_bytes evs = stream_bytes evs' \<and> (clean evs \<longrightarrow> e = EINTR \<and> clean evs')"
  by (induction n evs rule: os_read.induct) (auto split: if_splits)

lemma stream_bytes_dead: "\<not> is_alive evs \<Longrightarrow> stream_bytes evs = []"
  by (induction evs rule: is_alive.induct) (auto split: if_splits)

text \<open>Nothing that arrives is lost or reordered: what is returned and what is left make the stream.\<close>

lemma read_loop_conserves:
  "read_loop n acc evs = (Inr bs, evs') \<Longrightarrow> length acc \<le> n \<Longrightarrow>
   \<exists>ys. bs = acc @ ys \<and> stream_bytes evs = ys @ stream_bytes evs' \<and> length bs \<le> n"
proof (induction n acc evs rule: read_loop.induct)
  case (1 n acc evs)
  obtain r evs1 where r: "os_read (n - length acc) evs = (r, evs1)" by fastforce
  show ?case
  proof (cases r)
    case (Failed e)
    with r have "stream_bytes evs = stream_bytes evs1" by (simp add: os_read_Failed)
    with "1.IH"(2) [OF r [symmetric] Failed] "1.prems" r Failed show ?thesis
      by (subst (asm) read_loop.simps) (auto split: if_splits)
  next
    case (Ok_Bytes bs1)
    with r have b: "stream_bytes evs = bs1 @ stream_bytes evs1" "length bs1 \<le> n - length acc"
      by (simp_all add: os_read_Ok)
    with "1.IH"(1) [OF r [symmetric] Ok_Bytes] "1.prems" r Ok_Bytes show ?thesis
      by (subst (asm) read_loop.simps) (auto split: if_splits)
  qed
qed

text \<open>On a clean stream the loop reads exactly as much as is there, up to the requested length.\<close>

lemma read_loop_clean:
  "clean evs \<Longrightarrow> length acc < n \<Longrightarrow>
   \<exists>evs'. read_loop n acc evs = (Inr (acc @ take (n - length acc) (stream_bytes evs)), evs') \<and>
     stream_bytes evs' = drop (n - length acc) (stream_bytes evs) \<and> clean evs'"
proof (induction n acc evs rule: read_loop.induct)
  case (1 n acc evs)
  obtain r evs1 where r: "os_read (n - length acc) evs = (r, evs1)" by fastforce
  show ?case
  proof (cases r)
    case (Failed e)
    with r "1.prems" have c: "e = EINTR" "clean evs1" "stream_bytes evs = stream_bytes evs1"
      by (auto dest: os_read_Failed)
    from "1.IH"(2) [OF r [symmetric] Failed c(1) "1.prems"(2) c(2) "1.prems"(2)] c r Failed "1.prems"
    show ?thesis by (simp add: read_loop.simps [of n acc evs])
  next
    case (Ok_Bytes bs1)
    with r "1.prems" have b: "stream_bytes evs = bs1 @ stream_bytes evs1"
        "length bs1 \<le> n - length acc" "clean evs1"
      by (auto dest: os_read_Ok)
    consider "bs1 = []" | "bs1 \<noteq> []" "length (acc @ bs1) < n" | "bs1 \<noteq> []" "length (acc @ bs1) = n"
      using b(2) "1.prems"(2) by (cases "bs1 = []") force+
    then show ?thesis
    proof cases
      case 1
      with r Ok_Bytes "1.prems"(2) have "stream_bytes evs = [] \<and> evs1 = []"
        by (auto dest: os_read_Ok_Nil)
      with 1 r Ok_Bytes show ?thesis by (simp add: read_loop.simps [of n acc evs])
    next
      case 2
      from "1.IH"(1) [OF r [symmetric] Ok_Bytes 2 b(3) 2(2)] 2 b r Ok_Bytes
      show ?thesis by (simp add: read_loop.simps [of n acc evs])
    next
      case 3
      then have "n - length acc = length bs1" by simp
      with 3 b r Ok_Bytes show ?thesis by (simp add: read_loop.simps [of n acc evs])
    qed
  qed
qed

lemma read_loop_progress:
  "read_loop n acc evs = (q, evs') \<Longrightarrow> evs_size evs' \<le> evs_size evs"
proof (induction n acc evs rule: read_loop.induct)
  case (1 n acc evs)
  obtain r evs1 where r: "os_read (n - length acc) evs = (r, evs1)" by fastforce
  note le = os_read_size_le [OF r]
  show ?case
  proof (cases r)
    case (Failed e)
    from "1.IH"(2) [OF r [symmetric] Failed] "1.prems" r Failed le show ?thesis
      by (auto simp: read_loop.simps [of n acc evs] split: if_splits)
  next
    case (Ok_Bytes bs1)
    from "1.IH"(1) [OF r [symmetric] Ok_Bytes] "1.prems" r Ok_Bytes le show ?thesis
      by (auto simp: read_loop.simps [of n acc evs] split: if_splits)
  qed
qed

lemma os_read_alive:
  "is_alive evs \<Longrightarrow> 0 < n \<Longrightarrow> os_read n evs = (r, evs') \<Longrightarrow> evs_size evs' < evs_size evs"
proof (induction n evs rule: os_read.induct)
  case (3 n evs)
  then show ?case using os_read_size_le [of "Suc n" evs r evs'] by simp
qed (auto split: if_splits)

lemma read_loop_alive:
  assumes "is_alive evs" "0 < n" "read_loop n [] evs = (q, evs')"
  shows "evs_size evs' < evs_size evs"
proof -
  obtain r evs1 where r: "os_read n evs = (r, evs1)" by fastforce
  have lt: "evs_size evs1 < evs_size evs" by (rule os_read_alive [OF assms(1,2) r])
  have "evs_size evs' \<le> evs_size evs1"
    using assms(3) r
    by (auto simp: read_loop.simps [of n "[]" evs]
        split: io_result.splits if_splits dest: read_loop_progress)
  with lt show ?thesis by simp
qed

subsection \<open>read_msg\<close>

lemma read_msg_0: "read_msg 0 s = (- 1, [], s)"
  by (simp add: read_msg_def read_loop.simps)

lemma read_msg_ok:
  assumes "read_msg n s = (res, bs, s')" "\<not> res < 0"
  shows "length bs = n \<and> 0 < n \<and> stream_bytes (rx s) = bs @ stream_bytes (rx s') \<and>
    s' = s\<lparr>rx := rx s'\<rparr>"
  using assms read_loop_conserves [of n "[]" "rx s"] errno_code_pos
  by (fastforce simp: read_msg_def log_diag_def split: prod.splits sum.splits if_splits)

lemma read_msg_err:
  assumes "read_msg n s = (res, bs, s')"
  shows "live s' = live s \<and> budget s' = budget s \<and> (\<exists>ds. diags s' = diags s @ ds)"
  using assms
  by (auto simp: read_msg_def log_diag_def split: prod.splits sum.splits if_splits)

lemma read_msg_clean:
  assumes "clean (rx s)" "0 < n" "n \<le> length (stream_bytes (rx s))"
  shows "\<exists>evs'. read_msg n s = (0, take n (stream_bytes (rx s)), s\<lparr>rx := evs'\<rparr>) \<and>
    stream_bytes evs' = drop n (stream_bytes (rx s)) \<and> clean evs'"
  using read_loop_clean [OF assms(1), of "[]" n] assms(2,3)
  by (auto simp: read_msg_def)

lemma read_msg_clean_short:
  assumes "clean (rx s)" "length (stream_bytes (rx s)) < n"
  shows "\<exists>evs' bs. read_msg n s = (- 1, bs, s\<lparr>rx := evs'\<rparr>) \<and> stream_bytes evs' = [] \<and> clean evs'"
  using read_loop_clean [OF assms(1), of "[]" n] assms(2)
  by (auto simp: read_msg_def)

lemma read_msg_progress:
  assumes "is_alive (rx s)" "0 < n" "read_msg n s = (res, bs, s')"
  shows "evs_size (rx s') < evs_size (rx s)"
proof -
  obtain q evs' where q: "read_loop n [] (rx s) = (q, evs')" by fastforce
  have "rx s' = evs'"
    using assms(3) q by (auto simp: read_msg_def log_diag_def split: sum.splits if_splits)
  with read_loop_alive [OF assms(1,2) q] show ?thesis by simp
qed

lemma read_msg_size_le:
  assumes "read_msg n s = (res, bs, s')"
  shows "evs_size (rx s') \<le> evs_size (rx s)"
  using assms read_loop_progress [of n "[]" "rx s"]
  by (auto simp: read_msg_def log_diag_def split: prod.splits sum.splits if_splits)

section \<open>Sending a message\<close>

text \<open>
  What the kernel does with the calls of \<open>send\<close>: accept up to \<open>k\<close> bytes, or fail; once the script
  is used up it accepts everything. \<open>MSG_NOSIGNAL\<close> makes a closed peer an ordinary error.
  \<open>wire\<close> collects the bytes the client has been sent.
\<close>

datatype tx_event =
    Accept nat
  | Tx_Err errno

record client =
  crx :: "rx_event list"
  tx :: "tx_event list"
  wire :: "byte list"

fun os_send :: "nat \<Rightarrow> tx_event list \<Rightarrow> (errno + nat) \<times> tx_event list" where
  "os_send n (Tx_Err e # evs) = (Inl e, evs)"
| "os_send n [] = (Inr n, [])"
| "os_send n (Accept k # evs) = (if n = 0 then (Inr 0, Accept k # evs) else (Inr (min k n), evs))"

lemma os_send_le: "os_send n evs = (Inr k, evs') \<Longrightarrow> k \<le> n"
  by (induction n evs rule: os_send.induct) (auto split: if_splits)

lemma os_send_progress:
  "os_send n evs = (r, evs') \<Longrightarrow> r = Inr n \<or> n = 0 \<and> r = Inr 0 \<or> length evs' < length evs"
  by (induction n evs rule: os_send.induct) (auto split: if_splits)

text \<open>The loop of \<open>send_msg\<close>; \<open>sent_n\<close> is \<open>total_bytes_sent\<close>.\<close>

function send_loop :: "byte list \<Rightarrow> nat \<Rightarrow> client \<Rightarrow> (errno + nat) \<times> client" where
  "send_loop buf sent_n c =
     (case os_send (length buf - sent_n) (tx c) of
        (Inl e, evs') \<Rightarrow>
          if e = EINTR
          then (if sent_n < length buf then send_loop buf sent_n (c\<lparr>tx := evs'\<rparr>)
                else (Inr sent_n, c\<lparr>tx := evs'\<rparr>))
          else (Inl e, c\<lparr>tx := evs'\<rparr>)
      | (Inr k, evs') \<Rightarrow>
          let c' = c\<lparr>tx := evs', wire := wire c @ take k (drop sent_n buf)\<rparr>
          in if k = 0 then (Inr sent_n, c')
             else if sent_n + k < length buf then send_loop buf (sent_n + k) c'
             else (Inr (sent_n + k), c'))"
  by pat_completeness auto
termination
proof (relation "measure (\<lambda>(buf, sent_n, c). length (tx c))", goal_cases)
  case (2 buf sent_n c r evs' e)
  then show ?case using os_send_progress [of "length buf - sent_n" "tx c" r evs'] by auto
next
  case (3 buf sent_n c r evs' k c')
  then show ?case using os_send_progress [of "length buf - sent_n" "tx c" r evs'] by auto
qed simp_all

declare send_loop.simps [simp del]

definition send_msg :: "byte list \<Rightarrow> client \<Rightarrow> int \<times> client" where
  "send_msg buf c =
     (case send_loop buf 0 c of
        (Inl e, c') \<Rightarrow> (- errno_code e, c')
      | (Inr sent_n, c') \<Rightarrow> (if sent_n = length buf then 0 else - 1, c'))"

text \<open>
  What has been put on the wire is always a prefix of the buffer, and the call succeeds exactly
  when it is the whole buffer.
\<close>

lemma send_loop_prefix:
  "send_loop buf t c = (q, c') \<Longrightarrow> t < length buf \<or> buf = [] \<and> t = 0 \<Longrightarrow>
   \<exists>u. t \<le> u \<and> u \<le> length buf \<and> wire c' = wire c @ take (u - t) (drop t buf) \<and>
     crx c' = crx c \<and> (\<forall>m. q = Inr m \<longrightarrow> m = u) \<and>
     (\<forall>e. q = Inl e \<longrightarrow> u < length buf \<or> buf = [])"
proof (induction buf t c rule: send_loop.induct)
  case (1 buf t c)
  obtain r evs' where r: "os_send (length buf - t) (tx c) = (r, evs')" by fastforce
  show ?case
  proof (cases r)
    case (Inl e)
    show ?thesis
    proof (cases "e = EINTR \<and> t < length buf")
      case True
      with "1.prems" r Inl have "send_loop buf t (c\<lparr>tx := evs'\<rparr>) = (q, c')"
        by (simp add: send_loop.simps [of buf t c])
      from "1.IH"(1) [OF r [symmetric] Inl _ _ this "1.prems"(2)] True show ?thesis by simp
    next
      case False
      with "1.prems" r Inl show ?thesis
        by (auto simp: send_loop.simps [of buf t c] split: if_splits intro!: exI [of _ t])
    qed
  next
    case (Inr k)
    define c1 where "c1 = c\<lparr>tx := evs', wire := wire c @ take k (drop t buf)\<rparr>"
    have k: "k \<le> length buf - t" using os_send_le r Inr by simp
    show ?thesis
    proof (cases "k \<noteq> 0 \<and> t + k < length buf")
      case True
      with "1.prems" r Inr have rec: "send_loop buf (t + k) c1 = (q, c')"
        by (simp add: send_loop.simps [of buf t c] c1_def)
      from "1.IH"(2) [OF r [symmetric] Inr c1_def _ _ rec] True
      obtain u where u: "t + k \<le> u" "u \<le> length buf"
        "wire c' = wire c1 @ take (u - (t + k)) (drop (t + k) buf)" "crx c' = crx c1"
        "\<forall>m. q = Inr m \<longrightarrow> m = u" "\<forall>e. q = Inl e \<longrightarrow> u < length buf \<or> buf = []"
        by auto
      have "take k (drop t buf) @ take (u - (t + k)) (drop (t + k) buf) = take (u - t) (drop t buf)"
        using u(1) by (simp add: take_add [symmetric] add.commute flip: drop_drop)
      with u show ?thesis by (intro exI [of _ u]) (simp add: c1_def)
    next
      case False
      with "1.prems" r Inr k show ?thesis
        by (auto simp: send_loop.simps [of buf t c] Let_def split: if_splits
            intro!: exI [of _ "t + k"])
    qed
  qed
qed

lemma send_msg_prefix:
  assumes "send_msg buf c = (res, c')"
  shows "\<exists>u \<le> length buf. wire c' = wire c @ take u buf \<and> crx c' = crx c \<and>
    (res = 0 \<longleftrightarrow> \<not> res < 0) \<and> (\<not> res < 0 \<longrightarrow> u = length buf) \<and>
    (res < 0 \<longrightarrow> u < length buf \<or> buf = [])"
proof -
  obtain q c1 where q: "send_loop buf 0 c = (q, c1)" by fastforce
  from send_loop_prefix [OF q] obtain u where
    u: "u \<le> length buf" "wire c1 = wire c @ take u buf" "crx c1 = crx c"
      "\<forall>m. q = Inr m \<longrightarrow> m = u" "\<forall>e. q = Inl e \<longrightarrow> u < length buf \<or> buf = []"
    by auto
  show ?thesis
  proof (cases q)
    case (Inl e)
    with q u assms errno_code_pos [of e] show ?thesis
      by (intro exI [of _ u]) (auto simp: send_msg_def)
  next
    case (Inr m)
    with q u assms show ?thesis
      by (intro exI [of _ u]) (auto simp: send_msg_def split: if_splits)
  qed
qed

lemma send_msg_idle: "tx c = [] \<Longrightarrow> send_msg buf c = (0, c\<lparr>wire := wire c @ buf\<rparr>)"
  by (cases buf) (simp_all add: send_msg_def send_loop.simps Let_def)

text \<open>Sockets that accept data, in pieces of any positive size, however often they interrupt.\<close>

definition tx_clean :: "tx_event list \<Rightarrow> bool" where
  "tx_clean evs \<longleftrightarrow>
     list_all (\<lambda>ev. case ev of Accept k \<Rightarrow> 0 < k | Tx_Err e \<Rightarrow> e = EINTR) evs"

lemma os_send_clean:
  "os_send n evs = (r, evs') \<Longrightarrow> tx_clean evs \<Longrightarrow>
   tx_clean evs' \<and> (r = Inl EINTR \<or> (\<exists>k. r = Inr k \<and> (0 < n \<longrightarrow> 0 < k)))"
  by (induction n evs rule: os_send.induct) (auto simp: tx_clean_def split: if_splits)

lemma send_loop_clean:
  "send_loop buf t c = (q, c') \<Longrightarrow> t \<le> length buf \<Longrightarrow> tx_clean (tx c) \<Longrightarrow>
   q = Inr (length buf) \<and> tx_clean (tx c')"
proof (induction buf t c rule: send_loop.induct)
  case (1 buf t c)
  obtain r evs' where r: "os_send (length buf - t) (tx c) = (r, evs')" by fastforce
  note cl = os_send_clean [OF r "1.prems"(3)]
  show ?case
  proof (cases r)
    case (Inl e)
    with cl have e: "e = EINTR" "tx_clean evs'" by auto
    show ?thesis
    proof (cases "t < length buf")
      case True
      with "1.prems" r Inl e have "send_loop buf t (c\<lparr>tx := evs'\<rparr>) = (q, c')"
        by (simp add: send_loop.simps [of buf t c])
      from "1.IH"(1) [OF r [symmetric] Inl e(1) True this] "1.prems" e show ?thesis by simp
    next
      case False
      with "1.prems" r Inl e show ?thesis by (auto simp: send_loop.simps [of buf t c])
    qed
  next
    case (Inr k)
    define c1 where "c1 = c\<lparr>tx := evs', wire := wire c @ take k (drop t buf)\<rparr>"
    have k: "k \<le> length buf - t" "0 < length buf - t \<longrightarrow> 0 < k"
      using os_send_le r Inr cl by auto
    show ?thesis
    proof (cases "k \<noteq> 0 \<and> t + k < length buf")
      case True
      with "1.prems" r Inr have "send_loop buf (t + k) c1 = (q, c')"
        by (simp add: send_loop.simps [of buf t c] c1_def)
      from "1.IH"(2) [OF r [symmetric] Inr c1_def _ _ this] True cl show ?thesis
        by (simp add: c1_def)
    next
      case False
      with "1.prems" r Inr k cl show ?thesis
        by (auto simp: send_loop.simps [of buf t c] Let_def split: if_splits)
    qed
  qed
qed

lemma send_msg_clean:
  assumes "tx_clean (tx c)"
  shows "\<exists>evs. send_msg buf c = (0, c\<lparr>tx := evs, wire := wire c @ buf\<rparr>) \<and> tx_clean evs"
proof -
  obtain q c' where q: "send_loop buf 0 c = (q, c')" by fastforce
  from send_loop_clean [OF q _ assms] have s: "send_msg buf c = (0, c')" "tx_clean (tx c')"
    by (simp_all add: send_msg_def q)
  from send_msg_prefix [OF s(1)] have "wire c' = wire c @ buf" "crx c' = crx c" by auto
  then have "c' = c\<lparr>tx := tx c', wire := wire c @ buf\<rparr>" by simp
  with s show ?thesis by metis
qed

section \<open>Properties\<close>

text \<open>
  Property C25. Whatever the sizes of the segments a peer's bytes arrive in, and however often the
  calls are interrupted, \<open>read_msg\<close> of \<open>n\<close> bytes returns 0 with exactly the next \<open>n\<close> bytes of the
  stream when there are that many, and leaves the rest of the stream unread.
\<close>

theorem read_msg_reassembles:
  assumes "clean (rx s)" and "0 < n" and "n \<le> length (stream_bytes (rx s))"
  shows "\<exists>s'. read_msg n s = (0, take n (stream_bytes (rx s)), s') \<and>
    stream_bytes (rx s') = drop n (stream_bytes (rx s)) \<and> diags s' = diags s"
  using read_msg_clean [OF assms] by auto

definition split_stream :: "rx_event list" where
  "split_stream = [Chunk [1], Err EINTR, Pending, Chunk [2, 3, 4]]"

theorem read_msg_reassembles_witness:
  "\<exists>s'. read_msg 3 \<lparr>rx = split_stream, diags = [], live = 0, budget = 9\<rparr> = (0, [1, 2, 3], s') \<and>
    stream_bytes (rx s') = [4] \<and> diags s' = []"
  using read_msg_reassembles [of "\<lparr>rx = split_stream, diags = [], live = 0, budget = 9\<rparr>" 3]
  by (simp add: split_stream_def)

end
