(* ===== verification/Ctmp.thy ===== *)
theory Ctmp
  imports Socket_IO
begin

text \<open>
  CTMP messages: the header layout and checks of \<^verbatim>\<open>lib/ctmp.c\<close>, the parser of the base protocol
  and the sender. Parsers thread a \<open>source\<close> (what will arrive on the connection, the log, the
  heap). \<open>ctmp_parser\<close> is the contract of the function pointer through which the source server
  calls one of the two parsers.
\<close>

section \<open>Header layout\<close>

definition MAGIC :: byte where
  [const_defs]: "MAGIC = 0xCC"

definition HEADER_LENGTH :: nat where
  [const_defs]: "HEADER_LENGTH = 8"

definition PADDING :: byte where
  [const_defs]: "PADDING = 0"

definition LENGTH_OFFSET :: nat where
  [const_defs]: "LENGTH_OFFSET = 2"

definition OPTIONS_OFFSET :: nat where
  [const_defs]: "OPTIONS_OFFSET = 1"

definition CHECKSUM_OFFSET :: nat where
  [const_defs]: "CHECKSUM_OFFSET = 4"

definition PADDING_START :: nat where
  [const_defs]: "PADDING_START = 4"

definition PADDING_END :: nat where
  [const_defs]: "PADDING_END = 7"

definition EXT_PADDING_START :: nat where
  [const_defs]: "EXT_PADDING_START = 2"

definition EXT_PADDING_END :: nat where
  [const_defs]: "EXT_PADDING_END = 3"

definition OPT_NORM :: byte where
  [const_defs]: "OPT_NORM = 0x00"

definition OPT_SEN :: byte where
  [const_defs]: "OPT_SEN = 0x40"

text \<open>
  \<open>data\<close> is \<open>NULL\<close> (\<open>None\<close>) until it is allocated, with one byte more than \<open>len\<close> for the NUL
  terminator.
\<close>

record ctmp_msg =
  header :: "byte list"
  len :: u16
  data :: "byte list option"

text \<open>The byte order of the machine the server runs on, which \<open>ntohs\<close> depends on.\<close>

datatype endian = Little | Big

definition swap16 :: "u16 \<Rightarrow> u16" where
  "swap16 w = push_bit 8 w OR drop_bit 8 w"

fun ntohs :: "endian \<Rightarrow> u16 \<Rightarrow> u16" where
  "ntohs Little w = swap16 w"
| "ntohs Big w = w"

section \<open>Header checks\<close>

definition valid_magic :: "ctmp_msg \<Rightarrow> bool" where
  "valid_magic m \<longleftrightarrow> header m ! 0 = MAGIC"

fun padding_loop :: "byte list \<Rightarrow> nat list \<Rightarrow> bool" where
  "padding_loop h [] = True"
| "padding_loop h (i # is) = (if h ! i AND PADDING \<noteq> 0 then False else padding_loop h is)"

definition valid_padding :: "ctmp_msg \<Rightarrow> bool \<Rightarrow> bool" where
  "valid_padding m extended =
     (if extended
      then padding_loop (header m) [EXT_PADDING_START..<Suc EXT_PADDING_END]
      else if header m ! OPTIONS_OFFSET AND PADDING \<noteq> 0 then False
      else padding_loop (header m) [PADDING_START..<Suc PADDING_END])"

text \<open>
  The two bytes are promoted to \<open>int\<close> before the shift; the sum is then stored in 16 bits and
  passed through \<open>ntohs\<close>.
\<close>

definition le_pair :: "byte \<Rightarrow> byte \<Rightarrow> u16" where
  "le_pair lo hi = ucast (push_bit 8 (ucast hi :: u32) + ucast lo)"

definition set_msg_length :: "endian \<Rightarrow> ctmp_msg \<Rightarrow> ctmp_msg" where
  "set_msg_length host m =
     (let m1 = m\<lparr>len := le_pair (header m ! LENGTH_OFFSET) (header m ! (LENGTH_OFFSET + 1))\<rparr>
      in m1\<lparr>len := ntohs host (len m1)\<rparr>)"

section \<open>Reading a message\<close>

definition read_ctmp_header :: "source \<Rightarrow> int \<times> byte list \<times> source" where
  "read_ctmp_header s = read_msg HEADER_LENGTH s"

definition read_ctmp_data :: "ctmp_msg \<Rightarrow> source \<Rightarrow> fault + int \<times> ctmp_msg \<times> source" where
  "read_ctmp_data m s =
     bindF (malloc_or_exit s) (\<lambda>s1.
       case read_msg (unat (len m)) s1 of
         (res, bs, s2) \<Rightarrow> Inr (res, m\<lparr>data := Some (bs @ [0])\<rparr>, s2))"

definition free_ctmp_msg :: "ctmp_msg \<Rightarrow> source \<Rightarrow> source" where
  "free_ctmp_msg m s =
     (let s1 = (case data m of Some _ \<Rightarrow> free_block s | None \<Rightarrow> s)
      in free_block s1)"

definition parse_ctmp_msg :: "endian \<Rightarrow> source \<Rightarrow> fault + ctmp_msg option \<times> source" where
  "parse_ctmp_msg host s =
     bindF (malloc_or_exit s) (\<lambda>s1.
       case read_ctmp_header s1 of (res, h, s2) \<Rightarrow>
         let m = \<lparr>header = h, len = 0, data = None\<rparr> in
         if res < 0 then Inr (None, free_ctmp_msg m s2)
         else if \<not> valid_magic m
         then Inr (None, free_ctmp_msg m (log_diag (Bad_Magic (h ! 0) MAGIC) s2))
         else
           let s3 = (if \<not> valid_padding m False then log_diag Bad_Padding s2 else s2);
               m1 = set_msg_length host m in
           bindF (read_ctmp_data m1 s3) (\<lambda>(res, m2, s4).
             if res < 0 then Inr (None, free_ctmp_msg m2 s4)
             else Inr (Some m2, s4)))"

section \<open>Sending a message\<close>

text \<open>
  \<open>send\<close> reads \<open>len\<close> bytes of the data buffer; a freed or never allocated buffer is a null pointer.
\<close>

definition send_ctmp_msg :: "ctmp_msg \<Rightarrow> client \<Rightarrow> fault + int \<times> client" where
  "send_ctmp_msg m c =
     (case send_msg (header m) c of
        (res, c1) \<Rightarrow>
          if res < 0 then Inr (res, c1)
          else (case data m of
                  None \<Rightarrow> Inl Null_Deref
                | Some buf \<Rightarrow>
                    if length buf < unat (len m) then Inl Out_Of_Bounds
                    else Inr (send_msg (take (unat (len m)) buf) c1)))"

section \<open>The two length bytes\<close>

lemma unat_ucast_byte32: "unat (ucast (b :: byte) :: u32) = unat b"
  by (simp add: unsigned_ucast_eq take_bit_nat_eq_self less_trans [OF unat_lt_256])

lemma unat_le_pair: "unat (le_pair lo hi) = 256 * unat hi + unat lo"
proof -
  have lt: "256 * unat hi + unat lo < 65536"
    using unat_le_255 [of hi] unat_lt_256 [of lo] by linarith
  have "unat (push_bit 8 (ucast hi :: u32) + ucast lo) = 256 * unat hi + unat lo"
    using lt by (simp add: push_bit_eq_mult unat_word_ariths unat_ucast_byte32 mult.commute)
  then show ?thesis
    using lt by (simp add: le_pair_def unsigned_ucast_eq take_bit_nat_eq_self)
qed

lemma le_pair_inj: "le_pair a b = le_pair c d \<longleftrightarrow> a = c \<and> b = d"
proof
  assume "le_pair a b = le_pair c d"
  then have "256 * unat b + unat a = 256 * unat d + unat c"
    by (metis unat_le_pair)
  then have "unat a = unat c \<and> unat b = unat d"
    by (intro byte_pair_inj) simp_all
  then show "a = c \<and> b = d" by (simp add: word_unat_eq_iff)
qed simp

lemma bit_le_pair: "k < 16 \<Longrightarrow> bit (le_pair lo hi) k \<longleftrightarrow> (if k < 8 then bit lo k else bit hi (k - 8))"
proof -
  have "push_bit 8 (ucast hi :: u32) AND ucast lo = 0"
    by (rule bit_word_eqI) (auto simp: bit_simps dest: bit_imp_le_length)
  then have "push_bit 8 (ucast hi :: u32) + ucast lo = push_bit 8 (ucast hi) OR ucast lo"
    by (rule disjunctive_add_eq_or)
  then show "k < 16 \<Longrightarrow> ?thesis"
    by (auto simp: le_pair_def bit_simps dest: bit_imp_le_length)
qed

lemma swap16_le_pair [simp]: "swap16 (le_pair lo hi) = le_pair hi lo"
proof (rule bit_word_eqI)
  fix k assume "k < LENGTH(16)"
  then show "bit (swap16 (le_pair lo hi)) k \<longleftrightarrow> bit (le_pair hi lo) k"
    by (cases "k < 8") (auto simp: swap16_def bit_simps bit_le_pair dest: bit_imp_le_length)
qed

text \<open>On a little-endian machine the stored length is the header's 16-bit network-order number.\<close>

definition net_length :: "byte list \<Rightarrow> nat" where
  "net_length h = 256 * unat (h ! 2) + unat (h ! 3)"

lemma len_set_msg_length:
  "unat (len (set_msg_length Little m)) = net_length (header m)"
  by (simp add: set_msg_length_def Let_def unat_le_pair net_length_def const_defs)

lemma set_msg_length_frame [simp]:
  "header (set_msg_length host m) = header m"
  "data (set_msg_length host m) = data m"
  by (simp_all add: set_msg_length_def Let_def)

lemma set_msg_length_cong:
  "header m = header m' \<Longrightarrow> len (set_msg_length host m) = len (set_msg_length host m')"
  by (simp add: set_msg_length_def Let_def)

section \<open>Padding\<close>

lemma padding_loop_True: "padding_loop h is"
  by (induction "is") (simp_all add: const_defs)

lemma valid_padding_True [simp]: "valid_padding m extended"
  by (simp add: valid_padding_def padding_loop_True const_defs)

section \<open>Well-formed messages\<close>

text \<open>What a parser returns: a full header, and a data buffer of the length the header states.\<close>

definition wf_msg :: "endian \<Rightarrow> ctmp_msg \<Rightarrow> bool" where
  "wf_msg host m \<longleftrightarrow>
     length (header m) = HEADER_LENGTH \<and> header m ! 0 = MAGIC \<and>
     len m = len (set_msg_length host m) \<and>
     (\<exists>bs. data m = Some (bs @ [0]) \<and> length bs = unat (len m))"

definition payload :: "ctmp_msg \<Rightarrow> byte list" where
  "payload m = (case data m of None \<Rightarrow> [] | Some buf \<Rightarrow> take (unat (len m)) buf)"

definition msg_bytes :: "ctmp_msg \<Rightarrow> byte list" where
  "msg_bytes m = header m @ payload m"

text \<open>The message with a given header and payload.\<close>

definition mk_msg :: "endian \<Rightarrow> byte list \<Rightarrow> byte list \<Rightarrow> ctmp_msg" where
  "mk_msg host h bs = set_msg_length host \<lparr>header = h, len = 0, data = Some (bs @ [0])\<rparr>"

lemma length_header_wf [simp]: "wf_msg host m \<Longrightarrow> length (header m) = 8"
  by (simp add: wf_msg_def const_defs)

lemma length_payload_wf [simp]: "wf_msg host m \<Longrightarrow> length (payload m) = unat (len m)"
  by (auto simp: wf_msg_def payload_def)

lemma wf_msg_data: "wf_msg host m \<Longrightarrow> data m = Some (payload m @ [0])"
  by (auto simp: wf_msg_def payload_def)

lemma wf_msg_mk_msg:
  "length h = 8 \<Longrightarrow> h ! 0 = MAGIC \<Longrightarrow> length bs = unat (len (mk_msg host h bs)) \<Longrightarrow>
   wf_msg host (mk_msg host h bs)"
  by (auto simp: wf_msg_def mk_msg_def const_defs intro!: set_msg_length_cong)

lemma mk_msg_wf: "wf_msg host m \<Longrightarrow> mk_msg host (header m) (payload m) = m"
proof (rule ctmp_msg.equality)
  assume wf: "wf_msg host m"
  show "len (mk_msg host (header m) (payload m)) = len m"
    using wf set_msg_length_cong [of "\<lparr>header = header m, len = 0, data = Some (payload m @ [0])\<rparr>" m]
    by (simp add: mk_msg_def wf_msg_def)
qed (simp_all add: mk_msg_def wf_msg_data)

lemma wf_msg_inj:
  "wf_msg host m \<Longrightarrow> wf_msg host m' \<Longrightarrow> msg_bytes m = msg_bytes m' \<Longrightarrow> m = m'"
  by (metis append_eq_append_conv length_header_wf mk_msg_wf msg_bytes_def)

section \<open>The contract of a parser\<close>

text \<open>
  The byte-level meaning of one call of a parser on a stream \<open>bs\<close>: the message it yields, if any,
  and what is left of the stream. A stream too short for the header, or for the stated length, is
  used up; a header with the wrong first byte, or a stated length of 0, costs eight bytes.
\<close>

definition frame_step ::
  "endian \<Rightarrow> (ctmp_msg \<Rightarrow> bool) \<Rightarrow> byte list \<Rightarrow> ctmp_msg option \<times> byte list" where
  "frame_step host accepts bs =
     (if length bs < HEADER_LENGTH then (None, [])
      else let h = take HEADER_LENGTH bs; r = drop HEADER_LENGTH bs in
        if h ! 0 \<noteq> MAGIC then (None, r)
        else let n = unat (len (set_msg_length host \<lparr>header = h, len = 0, data = None\<rparr>)) in
          if n = 0 then (None, r)
          else if length r < n then (None, [])
          else let m = mk_msg host h (take n r) in
            (if accepts m then Some m else None, drop n r))"

text \<open>The messages of a whole stream.\<close>

lemma frame_step_less: "bs \<noteq> [] \<Longrightarrow> length (snd (frame_step host accepts bs)) < length bs"
  by (simp add: frame_step_def Let_def HEADER_LENGTH_def)

function deframe :: "endian \<Rightarrow> (ctmp_msg \<Rightarrow> bool) \<Rightarrow> byte list \<Rightarrow> ctmp_msg list" where
  "deframe host accepts bs =
     (if bs = [] then []
      else (case fst (frame_step host accepts bs) of None \<Rightarrow> [] | Some m \<Rightarrow> [m]) @
           deframe host accepts (snd (frame_step host accepts bs)))"
  by pat_completeness auto
termination
  by (relation "measure (\<lambda>(host, accepts, bs). length bs)") (auto simp: frame_step_less)

declare deframe.simps [simp del]

lemma frame_step_wf: "fst (frame_step host accepts bs) = Some m \<Longrightarrow> wf_msg host m \<and> accepts m"
  by (auto simp: frame_step_def Let_def mk_msg_def [of host] HEADER_LENGTH_def set_msg_length_def
      wf_msg_def const_defs split: if_splits)

lemma deframe_wf: "m \<in> set (deframe host accepts bs) \<Longrightarrow> wf_msg host m \<and> accepts m"
proof (induction host accepts bs rule: deframe.induct)
  case (1 host accepts bs)
  show ?case
  proof (cases "bs = []")
    case False
    with "1.prems" consider "fst (frame_step host accepts bs) = Some m"
      | "m \<in> set (deframe host accepts (snd (frame_step host accepts bs)))"
      by (subst (asm) deframe.simps) (auto split: option.splits)
    then show ?thesis
      using "1.IH" [OF False] frame_step_wf by cases blast+
  qed (use "1.prems" in \<open>simp add: deframe.simps\<close>)
qed

text \<open>
  What the source server relies on when it calls a parser through its function pointer: with memory
  for two blocks it returns; it keeps two blocks for a message and none otherwise; it appends to the
  log, and nothing for a message it returns; it makes progress on a live connection; a message it
  returns is well-formed, acceptable and the next bytes of the stream; and on a clean stream it does
  one step of the byte-level meaning.
\<close>

definition msg_blocks :: "ctmp_msg option \<Rightarrow> nat" where
  "msg_blocks r = (case r of None \<Rightarrow> 0 | Some _ \<Rightarrow> 2)"

lemma msg_blocks_simps [simp]: "msg_blocks None = 0" "msg_blocks (Some m) = 2"
  by (simp_all add: msg_blocks_def)

locale ctmp_parser =
  fixes host :: endian
    and parse :: "source \<Rightarrow> fault + ctmp_msg option \<times> source"
    and accepts :: "ctmp_msg \<Rightarrow> bool"
  assumes parse_total: "2 \<le> budget s \<Longrightarrow> \<exists>r s'. parse s = Inr (r, s')"
    and parse_heap: "parse s = Inr (r, s') \<Longrightarrow>
      live s' = live s + msg_blocks r \<and> budget s \<le> budget s' + 2"
    and parse_log: "parse s = Inr (r, s') \<Longrightarrow>
      (\<exists>ds. diags s' = diags s @ ds) \<and> (r \<noteq> None \<longrightarrow> diags s' = diags s)"
    and parse_progress: "is_alive (rx s) \<Longrightarrow> parse s = Inr (r, s') \<Longrightarrow>
      evs_size (rx s') < evs_size (rx s)"
    and parse_sound: "parse s = Inr (Some m, s') \<Longrightarrow>
      wf_msg host m \<and> len m \<noteq> 0 \<and> accepts m \<and>
      stream_bytes (rx s) = msg_bytes m @ stream_bytes (rx s')"
    and parse_step: "2 \<le> budget s \<Longrightarrow> clean (rx s) \<Longrightarrow>
      \<exists>s'. parse s = Inr (fst (frame_step host accepts (stream_bytes (rx s))), s') \<and>
        stream_bytes (rx s') = snd (frame_step host accepts (stream_bytes (rx s))) \<and>
        clean (rx s')"

text \<open>A well-formed, acceptable message at the head of a stream is what a step yields.\<close>

lemma frame_step_msg:
  assumes "wf_msg host m" "len m \<noteq> 0" "accepts m"
  shows "frame_step host accepts (msg_bytes m @ rest) = (Some m, rest)"
proof -
  have "len (set_msg_length host \<lparr>header = header m, len = 0, data = None\<rparr>) = len m"
    using assms(1) by (metis ctmp_msg.select_convs(1) set_msg_length_cong wf_msg_def)
  moreover have "header m ! 0 = MAGIC" using assms(1) by (simp add: wf_msg_def)
  moreover have "unat (len m) \<noteq> 0" using assms(2) by (simp add: unat_eq_0)
  ultimately show ?thesis
    using assms by (simp add: frame_step_def msg_bytes_def HEADER_LENGTH_def mk_msg_wf)
qed

lemma msg_bytes_not_Nil: "wf_msg host m \<Longrightarrow> msg_bytes m \<noteq> []"
  by (auto simp: msg_bytes_def dest: length_header_wf)

text \<open>Round trip: the stream that carries a list of messages is split into these messages.\<close>

lemma deframe_msgs:
  assumes "\<forall>m \<in> set ms. wf_msg host m \<and> len m \<noteq> 0 \<and> accepts m"
  shows "deframe host accepts (concat (map msg_bytes ms)) = ms"
  using assms
proof (induction ms)
  case Nil
  then show ?case by (simp add: deframe.simps)
next
  case (Cons m ms)
  then have "frame_step host accepts (msg_bytes m @ concat (map msg_bytes ms)) =
      (Some m, concat (map msg_bytes ms))"
    by (intro frame_step_msg) simp_all
  moreover have "msg_bytes m \<noteq> []" using Cons.prems msg_bytes_not_Nil [of host m] by simp
  ultimately show ?case
    using Cons by (subst deframe.simps) simp
qed

section \<open>The heap and the log of a connection\<close>

definition alloc :: "source \<Rightarrow> source" where
  "alloc s = s\<lparr>live := Suc (live s), budget := budget s - 1\<rparr>"

lemma source_alloc [simp]:
  "rx (alloc s) = rx s" "live (alloc s) = Suc (live s)" "budget (alloc s) = budget s - 1"
  "diags (alloc s) = diags s"
  by (simp_all add: alloc_def)

lemma malloc_Inr: "malloc_or_exit s = Inr s' \<longleftrightarrow> 0 < budget s \<and> s' = alloc s"
  by (auto simp: malloc_or_exit_def alloc_def split: nat.splits)

lemma malloc_ok: "0 < budget s \<Longrightarrow> malloc_or_exit s = Inr (alloc s)"
  by (simp add: malloc_Inr)

lemma source_log_diag [simp]:
  "rx (log_diag d s) = rx s" "live (log_diag d s) = live s" "budget (log_diag d s) = budget s"
  "diags (log_diag d s) = diags s @ [d]"
  by (simp_all add: log_diag_def)

lemma source_free_block [simp]:
  "rx (free_block s) = rx s" "live (free_block s) = live s - 1" "budget (free_block s) = budget s"
  "diags (free_block s) = diags s"
  by (simp_all add: free_block_def)

lemma source_free_ctmp_msg [simp]:
  "rx (free_ctmp_msg m s) = rx s" "budget (free_ctmp_msg m s) = budget s"
  "diags (free_ctmp_msg m s) = diags s"
  "data m = None \<Longrightarrow> live (free_ctmp_msg m s) = live s - 1"
  "data m = Some b \<Longrightarrow> live (free_ctmp_msg m s) = live s - 2"
  by (auto simp: free_ctmp_msg_def split: option.splits)


lemma read_ctmp_data_Inr:
  "read_ctmp_data m s = Inr (res, m', s') \<longleftrightarrow>
   0 < budget s \<and> (\<exists>bs. m' = m\<lparr>data := Some (bs @ [0])\<rparr> \<and>
     read_msg (unat (len m)) (alloc s) = (res, bs, s'))"
  by (auto simp: read_ctmp_data_def fault_simps malloc_Inr split: prod.splits)


text \<open>What a read leaves alone.\<close>

lemma read_msg_frame:
  assumes "read_msg n s = (res, bs, s')"
  shows "live s' = live s \<and> budget s' = budget s \<and> (\<exists>ds. diags s' = diags s @ ds) \<and>
    evs_size (rx s') \<le> evs_size (rx s) \<and>
    (is_alive (rx s) \<longrightarrow> 0 < n \<longrightarrow> evs_size (rx s') < evs_size (rx s))"
  using read_msg_err [OF assms] read_msg_size_le [OF assms] read_msg_progress [OF _ _ assms]
  by blast

lemma parse_ctmp_msg_frame:
  "parse_ctmp_msg host s = Inr (r, s') \<Longrightarrow>
     live s' = live s + msg_blocks r \<and> budget s \<le> budget s' + 2 \<and> (\<exists>ds. diags s' = diags s @ ds) \<and>
     (is_alive (rx s) \<longrightarrow> evs_size (rx s') < evs_size (rx s))"
  by (auto simp: parse_ctmp_msg_def fault_simps malloc_Inr read_ctmp_header_def Let_def const_defs
      read_ctmp_data_Inr split: prod.splits if_splits dest!: read_msg_frame)

lemma parse_ctmp_msg_total: "2 \<le> budget s \<Longrightarrow> \<exists>r s'. parse_ctmp_msg host s = Inr (r, s')"
  by (auto simp: parse_ctmp_msg_def malloc_ok read_ctmp_header_def Let_def const_defs read_ctmp_data_def
   split: prod.splits dest!: read_msg_frame)

section \<open>The base parser\<close>

lemma len_mk_msg:
  "len (mk_msg host h bs) = len (set_msg_length host \<lparr>header = h, len = 0, data = None\<rparr>)"
  by (simp add: mk_msg_def set_msg_length_def Let_def)

lemma mk_msg_sel [simp]:
  "header (mk_msg host h bs) = h" "data (mk_msg host h bs) = Some (bs @ [0])"
  by (simp_all add: mk_msg_def)

lemma set_data_mk_msg:
  "set_msg_length host \<lparr>header = h, len = 0, data = None\<rparr>\<lparr>data := Some (bs @ [0])\<rparr> = mk_msg host h bs"
  by (simp add: mk_msg_def set_msg_length_def Let_def)

lemma reads_sound:
  assumes "read_msg 8 (alloc s) = (res, h, s2)" "\<not> res < 0" "h ! 0 = MAGIC"
    and "read_msg (unat (len (set_msg_length host \<lparr>header = h, len = 0, data = None\<rparr>))) (alloc s2) = (res', bs, s')" "\<not> res' < 0"
  shows "wf_msg host (mk_msg host h bs)" "len (mk_msg host h bs) \<noteq> 0"
    "stream_bytes (rx s) = msg_bytes (mk_msg host h bs) @ stream_bytes (rx s')"
    "diags s' = diags s"
proof -
  note h = read_msg_ok [OF assms(1,2)] and d = read_msg_ok [OF assms(4,5)]
  show "wf_msg host (mk_msg host h bs)" "len (mk_msg host h bs) \<noteq> 0"
    "stream_bytes (rx s) = msg_bytes (mk_msg host h bs) @ stream_bytes (rx s')"
    using h d assms(3) by (auto simp: msg_bytes_def payload_def len_mk_msg intro!: wf_msg_mk_msg)
  have "diags s2 = diags s"
    using h by (metis source_alloc(4) source.select_convs(2) source.surjective source.update_convs(1))
  moreover have "diags s' = diags s2"
    using d by (metis source_alloc(4) source.select_convs(2) source.surjective source.update_convs(1))
  ultimately show "diags s' = diags s" by simp
qed

lemma parse_ctmp_msg_sound:
  assumes "parse_ctmp_msg host s = Inr (Some m, s')"
  shows "wf_msg host m \<and> len m \<noteq> 0 \<and> stream_bytes (rx s) = msg_bytes m @ stream_bytes (rx s') \<and>
    diags s' = diags s"
proof -
  obtain h bs s2 res res' where
    r: "read_msg 8 (alloc s) = (res, h, s2)" "\<not> res < 0" "h ! 0 = MAGIC"
      "read_msg (unat (len (set_msg_length host \<lparr>header = h, len = 0, data = None\<rparr>))) (alloc s2) = (res', bs, s')" "\<not> res' < 0"
      and m: "m = mk_msg host h bs"
    using assms
    by (auto simp: parse_ctmp_msg_def fault_simps malloc_Inr read_ctmp_header_def Let_def
        HEADER_LENGTH_def read_ctmp_data_Inr valid_magic_def set_data_mk_msg
        split: prod.splits if_splits)
  from reads_sound [OF r] show ?thesis unfolding m by simp
qed

text \<open>On a clean stream the two reads deliver what is there.\<close>

lemma read_header_step:
  assumes "clean (rx s)"
  defines "bs \<equiv> stream_bytes (rx s)"
  shows "\<exists>res h s2. read_msg 8 (alloc s) = (res, h, s2) \<and> clean (rx s2) \<and> budget s2 = budget s - 1 \<and>
    stream_bytes (rx s2) = drop 8 bs \<and>
    (if length bs < 8 then res < 0 else \<not> res < 0 \<and> h = take 8 bs)"
proof (cases "length bs < 8")
  case True
  with read_msg_clean_short [of "alloc s" 8] assms show ?thesis by force
next
  case False
  with read_msg_clean [of "alloc s" 8] assms show ?thesis by force
qed

lemma read_data_step:
  assumes "clean (rx s)"
  defines "bs \<equiv> stream_bytes (rx s)"
  shows "\<exists>res d s2. read_msg n (alloc s) = (res, d, s2) \<and> clean (rx s2) \<and>
    stream_bytes (rx s2) = drop n bs \<and>
    (if n = 0 \<or> length bs < n then res < 0 else \<not> res < 0 \<and> d = take n bs)"
proof -
  consider "n = 0" | "length bs < n" | "0 < n" "n \<le> length bs" by linarith
  then show ?thesis
  proof cases
    case 1
    then show ?thesis using assms by (auto simp: read_msg_0)
  next
    case 2
    with read_msg_clean_short [of "alloc s" n] assms show ?thesis by force
  next
    case 3
    with read_msg_clean [of "alloc s" n] assms show ?thesis by force
  qed
qed

lemma parse_ctmp_msg_step:
  assumes "2 \<le> budget s" "clean (rx s)"
  defines "bs \<equiv> stream_bytes (rx s)"
  shows "\<exists>s'. parse_ctmp_msg host s = Inr (fst (frame_step host (\<lambda>_. True) bs), s') \<and>
    stream_bytes (rx s') = snd (frame_step host (\<lambda>_. True) bs) \<and> clean (rx s')"
proof -
  obtain res h s2 where
    r: "read_msg 8 (alloc s) = (res, h, s2)" "clean (rx s2)" "budget s2 = budget s - 1"
      "stream_bytes (rx s2) = drop 8 bs"
      "if length bs < 8 then res < 0 else \<not> res < 0 \<and> h = take 8 bs"
    using read_header_step [OF assms(2)] bs_def by blast
  let ?n = "unat (len (set_msg_length host \<lparr>header = h, len = 0, data = None\<rparr>))"
  obtain res' d s3 where
    d: "read_msg ?n (alloc s2) = (res', d, s3)" "clean (rx s3)"
      "stream_bytes (rx s3) = drop ?n (drop 8 bs)"
      "if ?n = 0 \<or> length (drop 8 bs) < ?n then res' < 0 else \<not> res' < 0 \<and> d = take ?n (drop 8 bs)"
    using read_data_step [OF r(2)] r(4) by metis
  have b: "0 < budget s" "0 < budget s2" using assms(1) r(3) by simp_all
  note unf = parse_ctmp_msg_def malloc_ok read_ctmp_header_def Let_def HEADER_LENGTH_def r(1)
    valid_magic_def read_ctmp_data_def d(1) set_data_mk_msg frame_step_def
  consider "length bs < 8" | "\<not> length bs < 8" "h ! 0 \<noteq> MAGIC" | "\<not> length bs < 8" "h ! 0 = MAGIC"
    by blast
  then show ?thesis
  proof cases
    case 3
    then have h: "\<not> res < 0" "take 8 bs = h" using r(5) by auto
    show ?thesis
      using 3 h r(2,4) d(2,3,4) b by (cases "?n = 0 \<or> length (drop 8 bs) < ?n") (auto simp: unf)
  qed (use r(2,4,5) b in \<open>auto simp: unf\<close>)
qed

interpretation base: ctmp_parser host "parse_ctmp_msg host" "\<lambda>_. True" for host
  by unfold_locales
    (auto simp: parse_ctmp_msg_total parse_ctmp_msg_step
      dest: parse_ctmp_msg_frame parse_ctmp_msg_sound)

section \<open>The sender\<close>

lemma send_ctmp_msg_wf:
  assumes "wf_msg host m"
  shows "\<exists>res c' u. send_ctmp_msg m c = Inr (res, c') \<and> crx c' = crx c \<and>
    u \<le> length (msg_bytes m) \<and> wire c' = wire c @ take u (msg_bytes m) \<and>
    (res = 0 \<longleftrightarrow> \<not> res < 0) \<and> (res = 0 \<longrightarrow> u = length (msg_bytes m)) \<and>
    (len m \<noteq> 0 \<longrightarrow> res < 0 \<longrightarrow> u < length (msg_bytes m))"
proof -
  obtain r1 c1 where s1: "send_msg (header m) c = (r1, c1)" by fastforce
  obtain r2 c2 where s2: "send_msg (payload m) c1 = (r2, c2)" by fastforce
  from send_msg_prefix [OF s1] obtain u1 where
    u1: "u1 \<le> length (header m)" "wire c1 = wire c @ take u1 (header m)" "crx c1 = crx c"
      "r1 = 0 \<longleftrightarrow> \<not> r1 < 0" "\<not> r1 < 0 \<longrightarrow> u1 = length (header m)"
      "r1 < 0 \<longrightarrow> u1 < length (header m) \<or> header m = []" by blast
  from send_msg_prefix [OF s2] obtain u2 where
    u2: "u2 \<le> length (payload m)" "wire c2 = wire c1 @ take u2 (payload m)" "crx c2 = crx c1"
      "r2 = 0 \<longleftrightarrow> \<not> r2 < 0" "\<not> r2 < 0 \<longrightarrow> u2 = length (payload m)"
      "r2 < 0 \<longrightarrow> u2 < length (payload m) \<or> payload m = []" by blast
  have h: "header m \<noteq> []" using length_header_wf [OF assms] by auto
  have p: "payload m \<noteq> []" if "len m \<noteq> 0"
    using length_payload_wf [OF assms] that by (auto simp: unat_eq_0)
  show ?thesis
  proof (cases "r1 < 0")
    case True
    then have "send_ctmp_msg m c = Inr (r1, c1)"
      by (simp add: send_ctmp_msg_def s1)
    with u1 h True show ?thesis
      by (intro exI [of _ r1] exI [of _ c1] exI [of _ u1]) (auto simp: msg_bytes_def)
  next
    case False
    then have "send_ctmp_msg m c = Inr (r2, c2)"
      using assms s2 by (simp add: send_ctmp_msg_def s1 wf_msg_data)
    with u1 u2 p False show ?thesis
      by (intro exI [of _ r2] exI [of _ c2] exI [of _ "length (header m) + u2"])
        (auto simp: msg_bytes_def)
  qed
qed

lemma send_ctmp_msg_clean:
  assumes "wf_msg host m" "tx_clean (tx c)"
  shows "\<exists>evs. send_ctmp_msg m c = Inr (0, c\<lparr>tx := evs, wire := wire c @ msg_bytes m\<rparr>) \<and> tx_clean evs"
proof -
  obtain e1 where e1: "send_msg (header m) c = (0, c\<lparr>tx := e1, wire := wire c @ header m\<rparr>)" "tx_clean e1"
    using send_msg_clean [OF assms(2)] by blast
  let ?c1 = "c\<lparr>tx := e1, wire := wire c @ header m\<rparr>"
  obtain e2 where "send_msg (payload m) ?c1 = (0, ?c1\<lparr>tx := e2, wire := wire ?c1 @ payload m\<rparr>)" "tx_clean e2"
    using send_msg_clean [of ?c1] e1(2) by auto
  with e1 assms(1) show ?thesis
    by (intro exI [of _ e2]) (simp add: send_ctmp_msg_def wf_msg_data msg_bytes_def)
qed

text \<open>A concrete message of two payload bytes, for the instances of the properties.\<close>

definition sample_msg :: ctmp_msg where
  "sample_msg = \<lparr>header = [0xCC, 0, 0, 2, 0, 0, 0, 0], len = 2, data = Some [7, 9, 0]\<rparr>"

lemma sample_msg_eq: "sample_msg = mk_msg Little [0xCC, 0, 0, 2, 0, 0, 0, 0] [7, 9]"
  by (simp add: sample_msg_def mk_msg_def set_msg_length_def le_pair_def swap16_def const_defs Let_def)

lemma wf_sample_msg: "wf_msg Little sample_msg"
  unfolding sample_msg_eq
  by (rule wf_msg_mk_msg) (simp_all add: const_defs sample_msg_eq [symmetric] sample_msg_def)

lemma msg_bytes_sample: "msg_bytes sample_msg = [0xCC, 0, 0, 2, 0, 0, 0, 0, 7, 9]"
  by (simp add: msg_bytes_def payload_def sample_msg_def)

section \<open>Properties\<close>

text \<open>
  The stored length is the 16-bit number in network order at offset 2 of the header if the
  machine is little-endian, and the byte-swapped number if it is big-endian, since the bytes are first
  put together in little-endian order and then passed through \<open>ntohs\<close>.
\<close>

lemma length_field_byte_order:
  "unat (len (set_msg_length Little m)) = 256 * unat (header m ! 2) + unat (header m ! 3) \<and>
   unat (len (set_msg_length Big m)) = 256 * unat (header m ! 3) + unat (header m ! 2)"
  by (simp_all add: set_msg_length_def Let_def unat_le_pair const_defs)

text \<open>
  Property C26. What \<open>send_ctmp_msg\<close> puts on the wire of a client is a prefix of the message, header first, whatever
  the sizes of the pieces \<open>send\<close> accepts and however often it is interrupted. It returns 0 or a negative number; 0 means
  that the whole message is on the wire. For a message with a payload the converse holds too: after an error the
  message is cut short. (Without a payload the second call of \<open>send\<close> can fail although the header, which is the whole
  message, is out.) A client that accepts data is sent the whole message.
\<close>

theorem send_ctmp_msg_whole_or_prefix:
  assumes "wf_msg host m"
  shows "\<exists>res c' u. send_ctmp_msg m c = Inr (res, c') \<and> u \<le> length (msg_bytes m) \<and>
    wire c' = wire c @ take u (msg_bytes m) \<and> (\<not> res < 0 \<longleftrightarrow> res = 0) \<and>
    (res = 0 \<longrightarrow> u = length (msg_bytes m)) \<and>
    (len m \<noteq> 0 \<longrightarrow> (res = 0 \<longleftrightarrow> u = length (msg_bytes m))) \<and>
    (tx_clean (tx c) \<longrightarrow> res = 0)"
  using send_ctmp_msg_wf [OF assms, of c] send_ctmp_msg_clean [OF assms, of c] by fastforce

theorem send_ctmp_msg_whole_or_prefix_witness:
  "\<exists>c'. send_ctmp_msg sample_msg \<lparr>crx = [], tx = [Accept 3, Tx_Err EINTR, Accept 1], wire = [1]\<rparr> =
      Inr (0, c') \<and> wire c' = [1, 0xCC, 0, 0, 2, 0, 0, 0, 0, 7, 9]"
  using send_ctmp_msg_whole_or_prefix [OF wf_sample_msg, of
      "\<lparr>crx = [], tx = [Accept 3, Tx_Err EINTR, Accept 1], wire = [1]\<rparr>"] msg_bytes_sample
  by (auto simp: tx_clean_def)

text \<open>The exception: a message without payload is out, and the call reports the error of the second \<open>send\<close>.\<close>

lemma empty_payload_reports_error:
  "send_ctmp_msg \<lparr>header = [0xCC, 0, 0, 0, 0, 0, 0, 0], len = 0, data = Some [0]\<rparr>
     \<lparr>crx = [], tx = [Accept 8, Tx_Err (Errno 31)], wire = []\<rparr> =
   Inr (- 32, \<lparr>crx = [], tx = [], wire = [0xCC, 0, 0, 0, 0, 0, 0, 0]\<rparr>)"
  by code_simp

end
