(* ===== verification/Checksum.thy ===== *)
theory Checksum
  imports Ctmp
begin

text \<open>
  \<open>calc_checksum\<close> of \<^verbatim>\<open>lib/ctmp.c\<close> and the specification it implements: the 16-bit one's
  complement of the one's complement sum of the network-order words of header and data, with the
  checksum field filled with the magic byte. The code adds words in the byte order of the machine
  and folds the carries at the end; the specification adds network-order words with end-around
  carry. The two agree up to the order of the two result bytes.
\<close>

section \<open>The code\<close>

text \<open>A 16-bit load of the machine at offset \<open>i\<close> of a buffer.\<close>

fun load16 :: "endian \<Rightarrow> byte \<Rightarrow> byte \<Rightarrow> u16" where
  "load16 Little a b = le_pair a b"
| "load16 Big a b = le_pair b a"

definition mem_u16 :: "endian \<Rightarrow> byte list \<Rightarrow> nat \<Rightarrow> fault + u16" where
  "mem_u16 host buf i =
     (if i + 1 < length buf then Inr (load16 host (buf ! i) (buf ! (i + 1))) else Inl Out_Of_Bounds)"

definition mem_u8 :: "byte list \<Rightarrow> nat \<Rightarrow> fault + byte" where
  "mem_u8 buf i = (if i < length buf then Inr (buf ! i) else Inl Out_Of_Bounds)"

text \<open>The loop over the header: \<open>addr\<close> advances with \<open>i\<close>. \<open>acc\<close> is \<open>sum\<close>, a \<open>long\<close>.\<close>

function sum_header :: "endian \<Rightarrow> byte list \<Rightarrow> nat \<Rightarrow> nat \<Rightarrow> fault + nat" where
  "sum_header host hdr i acc =
     (if i < HEADER_LENGTH
      then bindF (mem_u16 host hdr i) (\<lambda>w. sum_header host hdr (i + 2) (acc + unat w))
      else Inr acc)"
  by pat_completeness auto
termination
  by (relation "measure (\<lambda>(host, hdr, i, acc). HEADER_LENGTH - i)") auto

text \<open>The loop over the data: \<open>a\<close> is the position of \<open>addr\<close>, \<open>count\<close> the bytes left.\<close>

fun sum_data :: "endian \<Rightarrow> byte list \<Rightarrow> nat \<Rightarrow> nat \<Rightarrow> nat \<Rightarrow> fault + nat \<times> nat \<times> nat" where
  "sum_data host buf a count acc =
     (if 1 < count
      then bindF (mem_u16 host buf a) (\<lambda>w. sum_data host buf (a + 2) (count - 2) (acc + unat w))
      else Inr (a, count, acc))"

text \<open>\<open>while (sum >> 16) sum = (sum & 0xffff) + (sum >> 16)\<close>.\<close>

function fold16 :: "nat \<Rightarrow> nat" where
  "fold16 s = (if s div 65536 \<noteq> 0 then fold16 (s mod 65536 + s div 65536) else s)"
  by pat_completeness auto
termination
proof (relation "measure id", goal_cases)
  case (2 s)
  then have "0 < s div 65536" by simp
  then have "s mod 65536 + s div 65536 < s mod 65536 + 65536 * (s div 65536)" by linarith
  then show ?case by simp
qed simp

declare sum_header.simps [simp del] sum_data.simps [simp del] fold16.simps [simp del]

definition calc_checksum :: "endian \<Rightarrow> ctmp_msg \<Rightarrow> fault + u16" where
  "calc_checksum host m =
     (let hdr = (header m)[CHECKSUM_OFFSET := MAGIC, CHECKSUM_OFFSET + 1 := MAGIC] in
      bindF (sum_header host hdr 0 0) (\<lambda>sum1.
      case data m of
        None \<Rightarrow> if len m = 0 then Inr (NOT (of_nat (fold16 sum1))) else Inl Null_Deref
      | Some buf \<Rightarrow>
          bindF (sum_data host buf 0 (unat (len m)) sum1) (\<lambda>(a, count, sum2).
          bindF (if 0 < count then bindF (mem_u8 buf a) (\<lambda>b. Inr (sum2 + unat b)) else Inr sum2)
            (\<lambda>sum3. Inr (NOT (of_nat (fold16 sum3)))))))"

section \<open>The words that are summed\<close>

text \<open>The 16-bit words of a byte string on the machine; a last odd byte is added as it is.\<close>

fun host_words :: "endian \<Rightarrow> byte list \<Rightarrow> nat list" where
  "host_words host [] = []"
| "host_words host [b] = [unat b]"
| "host_words host (a # b # bs) = unat (load16 host a b) # host_words host bs"

lemma sum_data_words:
  assumes "a + count \<le> length buf"
  shows "\<exists>a' count' acc'. sum_data host buf a count acc = Inr (a', count', acc') \<and>
    count' \<le> 1 \<and> a' + count' = a + count \<and>
    acc' + (if 0 < count' then unat (buf ! a') else 0) =
      acc + sum_list (host_words host (take count (drop a buf)))"
  using assms
proof (induction host buf a count acc rule: sum_data.induct)
  case (1 host buf a count acc)
  show ?case
  proof (cases "1 < count")
    case True
    with "1.prems" have lt: "a + 1 < length buf" by simp
    have d: "drop a buf = buf ! a # buf ! (a + 1) # drop (a + 2) buf"
      using lt by (metis Cons_nth_drop_Suc Suc_eq_plus1 add_2_eq_Suc' add_lessD1)
    obtain k where k: "count = Suc (Suc k)" using True by (cases count) (auto simp: gr0_conv_Suc)
    from "1.IH" [OF True, of "load16 host (buf ! a) (buf ! (a + 1))"] "1.prems" k obtain a' c' s' where
      "sum_data host buf (a + 2) k (acc + unat (load16 host (buf ! a) (buf ! (a + 1)))) =
        Inr (a', c', s')"
      "c' \<le> 1" "a' + c' = a + count"
      "s' + (if 0 < c' then unat (buf ! a') else 0) =
        acc + unat (load16 host (buf ! a) (buf ! (a + 1))) +
          sum_list (host_words host (take k (drop (a + 2) buf)))"
      by auto
    then show ?thesis
      using True lt k d by (simp add: sum_data.simps [of host buf a] mem_u16_def add.assoc)
  next
    case False
    then consider "count = 0" | "count = 1" by linarith
    then show ?thesis
    proof cases
      case 2
      with "1.prems" have "take 1 (drop a buf) = [buf ! a]"
        by (simp add: take_Suc_conv_app_nth)
      with 2 show ?thesis by (simp add: sum_data.simps)
    qed (simp add: sum_data.simps)
  qed
qed

lemma sum_header_words:
  assumes "length hdr = 8"
  shows "sum_header host hdr 0 acc = Inr (acc + sum_list (host_words host hdr))"
proof -
  obtain a b c d e f g h where "hdr = [a, b, c, d, e, f, g, h]"
    using assms by (auto simp: length_Suc_conv eval_nat_numeral)
  then show ?thesis
    by (simp add: sum_header.simps HEADER_LENGTH_def mem_u16_def eval_nat_numeral)
qed

text \<open>The bytes the checksum is computed over.\<close>

definition filled_header :: "byte list \<Rightarrow> byte list" where
  "filled_header h = h[4 := MAGIC, 5 := MAGIC]"

lemma length_filled_header [simp]: "length (filled_header h) = length h"
  by (simp add: filled_header_def)

definition total_sum :: "endian \<Rightarrow> ctmp_msg \<Rightarrow> nat" where
  "total_sum host m =
     sum_list (host_words host (filled_header (header m))) + sum_list (host_words host (payload m))"

lemma calc_checksum_eq:
  assumes "wf_msg host' m"
  shows "calc_checksum host m = Inr (NOT (of_nat (fold16 (total_sum host m))))"
proof -
  let ?s = "sum_list (host_words host (filled_header (header m)))"
  have d: "data m = Some (payload m @ [0])" and l: "length (payload m) = unat (len m)"
    using assms by (simp_all add: wf_msg_data)
  obtain a c s where "sum_data host (payload m @ [0]) 0 (unat (len m)) ?s = Inr (a, c, s)"
      "c \<le> 1" "a + c = unat (len m)"
      "s + (if 0 < c then unat ((payload m @ [0]) ! a) else 0) = total_sum host m"
    using sum_data_words [of 0 "unat (len m)" "payload m @ [0]" host ?s] l
    by (auto simp: total_sum_def)
  moreover from this l have "a < length (payload m @ [0])" by simp
  ultimately show ?thesis
    using assms
    by (auto simp: calc_checksum_def d Let_def sum_header_words mem_u8_def CHECKSUM_OFFSET_def
        filled_header_def [symmetric])
qed

section \<open>One's complement sums\<close>

text \<open>
  Addition with end-around carry on 16 bits, and the checksum of RFC 1071 over the network-order
  words of a byte string (a last odd byte is padded with a zero byte on its right).
\<close>

definition oc_add :: "nat \<Rightarrow> nat \<Rightarrow> nat" where
  "oc_add x y = (if x + y < 65536 then x + y else x + y - 65535)"

fun net_words :: "byte list \<Rightarrow> nat list" where
  "net_words [] = []"
| "net_words [b] = [256 * unat b]"
| "net_words (a # b # bs) = (256 * unat a + unat b) # net_words bs"

definition rfc1071 :: "byte list \<Rightarrow> u16" where
  "rfc1071 bs = NOT (of_nat (foldl oc_add 0 (net_words bs)))"

text \<open>The representative of a sum in \<open>0..65535\<close>: 0 only for 0, otherwise modulo 65535 in \<open>1..65535\<close>.\<close>

definition oc_rep :: "nat \<Rightarrow> nat" where
  "oc_rep s = (if s = 0 then 0 else Suc ((s - 1) mod 65535))"

lemma oc_rep_0 [simp]: "oc_rep 0 = 0"
  by (simp add: oc_rep_def)

lemma oc_rep_lt: "oc_rep s < 65536"
proof -
  have "(s - 1) mod 65535 < 65535" by simp
  then show ?thesis by (simp add: oc_rep_def)
qed

lemma oc_rep_pos: "0 < oc_rep s \<longleftrightarrow> 0 < s"
  by (simp add: oc_rep_def)

lemma oc_rep_split:
  obtains k where "s = oc_rep s + 65535 * k"
proof (cases "s = 0")
  case True
  then show ?thesis using that [of 0] by simp
next
  case False
  then have "s = Suc ((s - 1) mod 65535 + 65535 * ((s - 1) div 65535))"
    by simp
  with False show ?thesis
    using that [of "(s - 1) div 65535"] by (simp add: oc_rep_def)
qed

lemma oc_rep_eqI:
  assumes "0 < x" "x < 65536" "s = x + 65535 * k"
  shows "oc_rep s = x"
proof -
  have "s - 1 = (x - 1) + 65535 * k" using assms by simp
  then have "(s - 1) mod 65535 = (x - 1) mod 65535" by simp
  moreover have "x - 1 < 65535" using assms by simp
  ultimately have "(s - 1) mod 65535 = x - 1" by simp
  with assms show ?thesis by (simp add: oc_rep_def)
qed

lemma oc_rep_add: "0 < t \<Longrightarrow> oc_rep (t + 65535 * q) = oc_rep t"
proof -
  assume t: "0 < t"
  obtain k where k: "t = oc_rep t + 65535 * k" by (rule oc_rep_split)
  show ?thesis
    by (rule oc_rep_eqI [where k = "k + q"])
      (use t k in \<open>simp_all add: oc_rep_pos oc_rep_lt\<close>)
qed

lemma fold16_oc_rep: "fold16 s = oc_rep s"
proof (induction s rule: fold16.induct)
  case (1 s)
  show ?case
  proof (cases "s div 65536 = 0")
    case True
    then have "s < 65536" by (simp add: div_eq_0_iff)
    with True show ?thesis
      by (cases "s = 0") (simp_all add: fold16.simps oc_rep_eqI [of s s 0])
  next
    case False
    have "s = s mod 65536 + s div 65536 + 65535 * (s div 65536)" by simp
    moreover have "0 < s mod 65536 + s div 65536" using False by simp
    ultimately have "oc_rep s = oc_rep (s mod 65536 + s div 65536)"
      using oc_rep_add by metis
    with False "1.IH" show ?thesis by (simp add: fold16.simps [of s])
  qed
qed

lemma oc_add_rep: "w < 65536 \<Longrightarrow> oc_add (oc_rep s) w = oc_rep (s + w)"
proof -
  assume w: "w < 65536"
  obtain k where k: "s = oc_rep s + 65535 * k" by (rule oc_rep_split)
  show ?thesis
  proof (cases "s + w = 0")
    case True
    then show ?thesis by (simp add: oc_add_def)
  next
    case False
    have lt: "oc_rep s < 65536" by (rule oc_rep_lt)
    have pos: "0 < oc_rep s + w" using False oc_rep_pos [of s] by linarith
    show ?thesis
    proof (cases "oc_rep s + w < 65536")
      case True
      have "oc_rep (s + w) = oc_rep s + w"
        by (rule oc_rep_eqI [OF pos True, of _ k]) (use k in linarith)
      with True show ?thesis by (simp add: oc_add_def)
    next
      case c: False
      have "oc_rep (s + w) = oc_rep s + w - 65535"
      proof (rule oc_rep_eqI [where k = "Suc k"])
        show "s + w = oc_rep s + w - 65535 + 65535 * Suc k" using k c by simp
      qed (use c lt w in linarith)+
      with c show ?thesis by (simp add: oc_add_def)
    qed
  qed
qed

lemma foldl_oc_add:
  "\<forall>w \<in> set ws. w < 65536 \<Longrightarrow> foldl oc_add (oc_rep s) ws = oc_rep (s + sum_list ws)"
  by (induction ws arbitrary: s) (simp_all add: oc_add_rep add.assoc)

lemma net_words_lt: "\<forall>w \<in> set (net_words bs). w < 65536"
proof (induction bs rule: net_words.induct)
  case (2 b)
  then show ?case using unat_le_255 [of b] by simp
next
  case (3 a b bs)
  have "256 * unat a + unat b < 65536" using unat_le_255 [of a] unat_lt_256 [of b] by linarith
  with 3 show ?case by simp
qed simp

lemma rfc1071_rep: "rfc1071 bs = NOT (of_nat (oc_rep (sum_list (net_words bs))))"
  using foldl_oc_add [OF net_words_lt, of 0 bs] by (simp add: rfc1071_def)

section \<open>Byte order\<close>

definition swap_nat :: "nat \<Rightarrow> nat" where
  "swap_nat r = 256 * (r mod 256) + r div 256"

text \<open>Swapping the bytes of every word multiplies the sum by 256 modulo 65535.\<close>

lemma sum_net_words:
  "\<exists>k. 256 * sum_list (host_words Little bs) = sum_list (net_words bs) + 65535 * k"
proof (induction bs rule: net_words.induct)
  case (2 b)
  show ?case by (rule exI [of _ 0]) simp
next
  case (3 a b bs)
  then obtain k where "256 * sum_list (host_words Little bs) = sum_list (net_words bs) + 65535 * k"
    by blast
  then show ?case by (intro exI [of _ "k + unat b"]) (simp add: unat_le_pair)
qed simp

lemma swap_nat_split: "256 * r = swap_nat r + 65535 * (r div 256)"
proof -
  have "256 * r = 256 * m + q + 65535 * q" if "r = 256 * q + m" for q m :: nat
    using that by linarith
  from this [of "r div 256" "r mod 256"] show ?thesis
    by (simp add: swap_nat_def)
qed

lemma swap_nat_lt: "r < 65536 \<Longrightarrow> swap_nat r < 65536"
proof -
  assume "r < 65536"
  then have "r div 256 < 256" "r mod 256 < 256" by (simp_all add: less_mult_imp_div_less)
  then show ?thesis unfolding swap_nat_def by linarith
qed

lemma oc_rep_swap:
  assumes "256 * l = n + 65535 * k" and "n = 0 \<Longrightarrow> l = 0"
  shows "oc_rep n = swap_nat (oc_rep l)"
proof (cases "n = 0")
  case True
  with assms show ?thesis by (simp add: swap_nat_def)
next
  case False
  obtain j where j: "l = oc_rep l + 65535 * j" by (rule oc_rep_split)
  have "0 < l" using assms(1) False by simp
  then have pos: "0 < swap_nat (oc_rep l)"
    unfolding swap_nat_def using oc_rep_pos [of l] by (cases "oc_rep l mod 256 = 0") auto
  have "n + 65535 * k = swap_nat (oc_rep l) + 65535 * (oc_rep l div 256 + 256 * j)"
  proof -
    have "256 * l = 256 * oc_rep l + 65535 * (256 * j)" using j by simp
    then show ?thesis using assms(1) swap_nat_split [of "oc_rep l"] by (simp add: distrib_left)
  qed
  then have "oc_rep n = oc_rep (swap_nat (oc_rep l))"
    using oc_rep_add [of n k] oc_rep_add [OF pos, of "oc_rep l div 256 + 256 * j"] False
    by (simp only: gr0_conv_Suc neq0_conv)
  also have "\<dots> = swap_nat (oc_rep l)"
    by (rule oc_rep_eqI [where k = 0]) (use pos swap_nat_lt [OF oc_rep_lt] in simp_all)
  finally show ?thesis .
qed

lemma sum_net_words_0:
  "sum_list (net_words bs) = 0 \<Longrightarrow> sum_list (host_words Little bs) = 0"
  by (induction bs rule: net_words.induct) (simp_all add: unat_le_pair)

lemma oc_rep_net_words:
  "oc_rep (sum_list (net_words bs)) = swap_nat (oc_rep (sum_list (host_words Little bs)))"
  using sum_net_words [of bs] sum_net_words_0 [of bs] oc_rep_swap by metis

text \<open>The same on words.\<close>

lemma u16_le_pair: "w = le_pair (ucast w) (ucast (drop_bit 8 w))"
  by (rule bit_word_eqI) (auto simp: bit_le_pair bit_simps)

lemma unat_swap16: "unat (swap16 w) = swap_nat (unat w)"
proof -
  have "swap_nat (256 * b + a) = 256 * a + b" if "a < 256" for a b :: nat
    using that by (simp add: swap_nat_def)
  then have "unat (swap16 (le_pair lo hi)) = swap_nat (unat (le_pair lo hi))" for lo hi
    by (simp add: unat_le_pair)
  then show ?thesis by (subst (1 2) u16_le_pair)
qed

lemma swap16_swap16 [simp]: "swap16 (swap16 w) = w"
  by (rule bit_word_eqI) (auto simp: swap16_def bit_simps dest: bit_imp_le_length)

lemma swap16_NOT: "swap16 (NOT w) = NOT (swap16 w)"
  by (rule bit_word_eqI) (auto simp: swap16_def bit_simps dest: bit_imp_le_length)

lemma swap16_of_nat: "r < 65536 \<Longrightarrow> swap16 (of_nat r) = of_nat (swap_nat r)"
  by (simp add: word_unat_eq_iff unat_swap16 swap_nat_lt)

section \<open>The code computes the RFC 1071 checksum\<close>

lemma host_words_append:
  "even (length xs) \<Longrightarrow> host_words host (xs @ ys) = host_words host xs @ host_words host ys"
  by (induction host xs rule: host_words.induct) simp_all

lemma calc_checksum_little:
  assumes "wf_msg host m"
  shows "calc_checksum Little m = Inr (swap16 (rfc1071 (filled_header (header m) @ payload m)))"
proof -
  have "total_sum Little m = sum_list (host_words Little (filled_header (header m) @ payload m))"
    using assms by (simp add: total_sum_def host_words_append)
  then have "rfc1071 (filled_header (header m) @ payload m) =
      NOT (of_nat (swap_nat (oc_rep (total_sum Little m))))"
    by (simp add: rfc1071_rep oc_rep_net_words)
  also have "\<dots> = swap16 (NOT (of_nat (oc_rep (total_sum Little m))))"
    by (simp add: swap16_NOT swap16_of_nat oc_rep_lt)
  finally show ?thesis
    using assms by (simp add: calc_checksum_eq fold16_oc_rep)
qed

section \<open>Bounds and error detection\<close>

lemma host_words_bound: "sum_list (host_words host bs) \<le> 65535 * ((length bs + 1) div 2)"
proof (induction host bs rule: host_words.induct)
  case (2 host b)
  have "unat b \<le> 65535" using unat_le_255 [of b] by linarith
  then show ?case by simp
next
  case (3 host a b bs)
  have "unat (load16 host a b) \<le> 65535"
    using unat_lt_65536 [of "load16 host a b"] by linarith
  with 3 show ?case by simp
qed simp

lemma total_sum_bound:
  assumes "wf_msg host' m"
  shows "total_sum host m \<le> 65535 * 32772"
proof -
  have "length (payload m) < 65536" using assms by simp
  then have "(length (payload m) + 1) div 2 \<le> 32768" by simp
  then have "65535 * ((length (payload m) + 1) div 2) \<le> 65535 * (32768 :: nat)" by simp
  with host_words_bound [of host "payload m"] have "sum_list (host_words host (payload m)) \<le> 65535 * 32768"
    by linarith
  moreover have "sum_list (host_words host (filled_header (header m))) \<le> 65535 * 4"
    using host_words_bound [of host "filled_header (header m)"] assms by simp
  ultimately show ?thesis by (simp add: total_sum_def)
qed

text \<open>Changing one byte changes the sum by a multiple of 1 or 256 of the difference.\<close>

lemma host_words_update:
  "i < length bs \<Longrightarrow> \<exists>w \<in> {1, 256}.
     int (sum_list (host_words Little (bs[i := b]))) =
     int (sum_list (host_words Little bs)) + w * (int (unat b) - int (unat (bs ! i)))"
proof (induction Little bs arbitrary: i rule: host_words.induct)
  case (3 x y bs)
  consider "i = 0" | "i = 1" | j where "i = Suc (Suc j)" "j < length bs"
    using "3.prems" by (cases i; cases "i - 1") auto
  then show ?case
  proof cases
    case 3
    with "3.hyps" [of j] show ?thesis by (auto simp: algebra_simps)
  qed (auto simp: unat_le_pair algebra_simps)
qed simp_all

lemma oc_rep_eq_imp_dvd:
  assumes "oc_rep s = oc_rep t"
  shows "65535 dvd (int s - int t)"
proof -
  obtain j where "s = oc_rep s + 65535 * j" by (rule oc_rep_split)
  moreover obtain k where "t = oc_rep t + 65535 * k" by (rule oc_rep_split)
  ultimately have "int s - int t = 65535 * (int j - int k)" using assms by simp
  then show ?thesis by simp
qed

lemma oc_rep_update_neq:
  assumes "i < length bs" "b \<noteq> bs ! i"
    and c: "s + sum_list (host_words Little (bs[i := b])) = t'"
           "s + sum_list (host_words Little bs) = t"
  shows "oc_rep t' \<noteq> oc_rep t"
proof
  assume "oc_rep t' = oc_rep t"
  then have dvd: "65535 dvd (int t' - int t)" by (rule oc_rep_eq_imp_dvd)
  let ?d = "int (unat b) - int (unat (bs ! i))"
  obtain w :: int where w: "w = 1 \<or> w = 256" "int t' - int t = w * ?d"
    using host_words_update [OF assms(1), of b] c by force
  have "?d \<noteq> 0" using assms(2) by (metis eq_iff_diff_eq_0 of_nat_eq_iff word_unat_eq_iff)
  moreover have "\<bar>?d\<bar> \<le> 255"
    using unat_le_255 [of b] unat_le_255 [of "bs ! i"] by linarith
  ultimately have "w * ?d \<noteq> 0" "\<bar>w * ?d\<bar> < 65535" using w(1) by auto
  then show False
    using dvd w(2) dvd_imp_le_int [of "w * ?d" 65535] by simp
qed

lemma checksum_eq_iff:
  "(of_nat (oc_rep s) :: u16) = of_nat (oc_rep t) \<longleftrightarrow> oc_rep s = oc_rep t"
  using oc_rep_lt [of s] oc_rep_lt [of t] by (metis unat_of_nat_u16)

lemma calc_checksum_update:
  assumes "wf_msg host m" "wf_msg host m'" "header m' = header m"
    and "i < length (payload m)" "b \<noteq> payload m ! i" "payload m' = (payload m)[i := b]"
  shows "calc_checksum Little m' \<noteq> calc_checksum Little m"
  using oc_rep_update_neq [OF assms(4,5), of _ "total_sum Little m'" "total_sum Little m"] assms
  by (simp add: calc_checksum_eq fold16_oc_rep checksum_eq_iff total_sum_def)

lemma sum_data_mono: "sum_data host buf a count acc = Inr (a', c', acc') \<Longrightarrow> acc \<le> acc'"
proof (induction host buf a count acc rule: sum_data.induct)
  case (1 host buf a count acc)
  show ?case
  proof (cases "1 < count")
    case True
    with "1.prems" obtain w where w: "mem_u16 host buf a = Inr w"
      "sum_data host buf (a + 2) (count - 2) (acc + unat w) = Inr (a', c', acc')"
      by (subst (asm) sum_data.simps) (auto simp: fault_simps)
    from "1.IH" [OF True w(2)] show ?thesis by simp
  next
    case False
    with "1.prems" show ?thesis by (subst (asm) sum_data.simps) simp
  qed
qed

section \<open>Properties\<close>

text \<open>
  Property C16. On a little-endian machine \<open>calc_checksum\<close> computes the Internet checksum of RFC 1071
  over the header, with 0xCCCC in its checksum field, and the data, in the byte order of the machine:
  the deferred carries and the final folding amount to ones' complement addition after every word.
\<close>

theorem calc_checksum_rfc1071:
  assumes "wf_msg host m"
  shows "calc_checksum Little m = Inr (swap16 (rfc1071 (filled_header (header m) @ payload m)))"
  using assms by (rule calc_checksum_little)

theorem calc_checksum_rfc1071_witness:
  "calc_checksum Little sample_msg = Inr 0x2760"
proof -
  have "rfc1071 (filled_header (header sample_msg) @ payload sample_msg) = 0x6027"
    by (simp add: rfc1071_def sample_msg_def filled_header_def payload_def oc_add_def const_defs)
  then show ?thesis
    using calc_checksum_rfc1071 [OF wf_sample_msg] by (simp add: swap16_def)
qed

text \<open>
  For every message a parser can return, the checksum reads no byte outside the header and
  the data, and its running sum stays below \<open>2 ^ 31 + 2 ^ 18\<close>, so that the 64-bit \<open>long\<close> it is kept in
  cannot overflow; the folding ends with a number of 16 bits.
\<close>

lemma checksum_within_bounds:
  assumes "wf_msg host m"
  shows "\<exists>s1 a c s2. sum_header host' (filled_header (header m)) 0 0 = Inr s1 \<and>
    sum_data host' (the (data m)) 0 (unat (len m)) s1 = Inr (a, c, s2) \<and>
    c \<le> 1 \<and> a + c = unat (len m) \<and> s1 \<le> s2 \<and>
    s2 + (if c = 1 then unat (the (data m) ! a) else 0) < 2 ^ 31 + 2 ^ 18 \<and> fold16 s2 < 2 ^ 16"
proof -
  let ?h = "sum_list (host_words host' (filled_header (header m)))"
  obtain a c s2 where d: "sum_data host' (payload m @ [0]) 0 (unat (len m)) ?h = Inr (a, c, s2)"
      "c \<le> 1" "a + c = unat (len m)"
      "s2 + (if 0 < c then unat ((payload m @ [0]) ! a) else 0) = total_sum host' m"
    using sum_data_words [of 0 "unat (len m)" "payload m @ [0]" host' ?h] assms
    by (auto simp: total_sum_def)
  have "?h \<le> s2" using sum_data_mono [OF d(1)] .
  moreover have "(if c = 1 then unat ((payload m @ [0]) ! a) else 0) =
      (if 0 < c then unat ((payload m @ [0]) ! a) else 0)"
    using d(2) by (cases c) auto
  moreover have "fold16 s2 < 2 ^ 16" using oc_rep_lt [of s2] by (simp add: fold16_oc_rep)
  ultimately show ?thesis
    using d total_sum_bound [OF assms, of host'] assms
    by (auto simp: wf_msg_data sum_header_words)
qed

lemma checksum_within_bounds_witness:
  "\<exists>s1 a c s2. sum_header Little (filled_header (header sample_msg)) 0 0 = Inr s1 \<and>
    sum_data Little [7, 9, 0] 0 2 s1 = Inr (a, c, s2) \<and> a + c = 2 \<and> fold16 s2 < 2 ^ 16"
  using checksum_within_bounds [OF wf_sample_msg, of Little]
  by (fastforce simp: sample_msg_def)

end
