(* ===== verification/Ctmp_Extended.thy ===== *)
theory Ctmp_Extended
  imports Checksum
begin

text \<open>
  The parser of the extended protocol, \<open>parse_ctmp_msg_extended\<close> of \<^verbatim>\<open>lib/ctmp.c\<close>: the options
  byte is checked after the data has been read, and the checksum of a sensitive message is compared
  with the header's. It meets the contract \<open>ctmp_parser\<close>, like the base parser.
\<close>

section \<open>The code\<close>

definition header_checksum :: "ctmp_msg \<Rightarrow> u16" where
  "header_checksum m = le_pair (header m ! CHECKSUM_OFFSET) (header m ! (CHECKSUM_OFFSET + 1))"

definition check_options :: "endian \<Rightarrow> ctmp_msg \<Rightarrow> source \<Rightarrow> fault + ctmp_msg option \<times> source" where
  "check_options host m s =
     (if header m ! OPTIONS_OFFSET = OPT_NORM then Inr (Some m, s)
      else if header m ! OPTIONS_OFFSET = OPT_SEN
      then bindF (calc_checksum host m) (\<lambda>expected_checksum.
             if header_checksum m \<noteq> expected_checksum
             then Inr (None, free_ctmp_msg m
                    (log_diag (Bad_Checksum (header_checksum m) expected_checksum) s))
             else Inr (Some m, s))
      else Inr (None, free_ctmp_msg m (log_diag (Bad_Options (header m ! OPTIONS_OFFSET)) s)))"

definition parse_ctmp_msg_extended :: "endian \<Rightarrow> source \<Rightarrow> fault + ctmp_msg option \<times> source" where
  "parse_ctmp_msg_extended host s =
     bindF (malloc_or_exit s) (\<lambda>s1.
       case read_ctmp_header s1 of (res, h, s2) \<Rightarrow>
         let m = \<lparr>header = h, len = 0, data = None\<rparr> in
         if res < 0 then Inr (None, free_ctmp_msg m s2)
         else if \<not> valid_magic m
         then Inr (None, free_block (log_diag (Bad_Magic (h ! 0) MAGIC) s2))
         else
           let s3 = (if \<not> valid_padding m True then log_diag Bad_Padding s2 else s2);
               m1 = set_msg_length host m in
           bindF (read_ctmp_data m1 s3) (\<lambda>(res, m2, s4).
             if res < 0 then Inr (None, free_ctmp_msg m2 s4)
             else check_options host m2 s4))"

section \<open>Which messages it accepts\<close>

definition checksum_ok :: "endian \<Rightarrow> ctmp_msg \<Rightarrow> bool" where
  "checksum_ok host m \<longleftrightarrow> calc_checksum host m = Inr (header_checksum m)"

definition options_ok :: "endian \<Rightarrow> ctmp_msg \<Rightarrow> bool" where
  "options_ok host m \<longleftrightarrow>
     header m ! OPTIONS_OFFSET = OPT_NORM \<or>
     header m ! OPTIONS_OFFSET = OPT_SEN \<and> checksum_ok host m"

lemma wf_calc_checksum: "wf_msg host m \<Longrightarrow> \<exists>c. calc_checksum host' m = Inr c"
  by (simp add: calc_checksum_eq)

text \<open>The three outcomes of the options check on a message that has been read.\<close>

lemma check_options_cases:
  assumes "wf_msg host m"
  shows "check_options host m s =
    (if options_ok host m
     then Inr (Some m, s)
     else Inr (None, free_ctmp_msg m (log_diag
       (if header m ! OPTIONS_OFFSET = OPT_SEN
        then Bad_Checksum (header_checksum m) (case calc_checksum host m of Inr c \<Rightarrow> c)
        else Bad_Options (header m ! OPTIONS_OFFSET)) s)))"
  using wf_calc_checksum [OF assms, of host]
  by (auto simp: check_options_def checksum_ok_def options_ok_def const_defs)

lemma check_options_frame:
  assumes "check_options host m s = Inr (r, s')" "data m = Some b" "2 \<le> live s"
  shows "rx s' = rx s \<and> budget s' = budget s \<and> (\<exists>ds. diags s' = diags s @ ds) \<and>
    live s' + 2 = live s + msg_blocks r"
  using assms by (auto simp: check_options_def fault_simps split: if_splits)

lemma check_options_Some:
  assumes "check_options host m s = Inr (Some m', s')"
  shows "m' = m \<and> s' = s \<and> options_ok host m"
  using assms
  by (auto simp: check_options_def fault_simps checksum_ok_def options_ok_def split: if_splits)

section \<open>The contract\<close>

lemma parse_ext_frame:
  assumes "parse_ctmp_msg_extended host s = Inr (r, s')"
  shows "live s' = live s + msg_blocks r \<and> budget s \<le> budget s' + 2 \<and>
     (\<exists>ds. diags s' = diags s @ ds) \<and>
     (is_alive (rx s) \<longrightarrow> evs_size (rx s') < evs_size (rx s))"
proof -
  obtain res h s2 where r: "read_msg 8 (alloc s) = (res, h, s2)" by (metis prod_cases3)
  note fr = read_msg_frame [OF r, simplified]
  let ?raw = "set_msg_length host \<lparr>header = h, len = 0, data = None\<rparr>"
  obtain res' bs s4 where d: "read_msg (unat (len ?raw)) (alloc s2) = (res', bs, s4)"
    by (metis prod_cases3)
  note fd = read_msg_frame [OF d, simplified]
  have P: "parse_ctmp_msg_extended host s = Inr (r, s')" "0 < budget s"
    using assms by (auto simp: parse_ctmp_msg_extended_def fault_simps malloc_Inr)
  note unf = parse_ctmp_msg_extended_def malloc_ok read_ctmp_header_def Let_def HEADER_LENGTH_def r
    valid_magic_def read_ctmp_data_def d set_data_mk_msg
  consider "res < 0" | "\<not> res < 0" "h ! 0 \<noteq> MAGIC" | "\<not> res < 0" "h ! 0 = MAGIC" by blast
  then show ?thesis
  proof cases
    case 3
    with P have b: "0 < budget s2"
      by (auto simp: unf fault_simps malloc_Inr)
    show ?thesis
    proof (cases "res' < 0")
      case True
      with P 3 b have "r = None \<and> s' = free_ctmp_msg (mk_msg host h bs) s4" by (simp add: unf)
      with fr fd b P(2) show ?thesis by auto
    next
      case False
      with P 3 b have "check_options host (mk_msg host h bs) s4 = Inr (r, s')" by (simp add: unf)
      with fr fd b P(2) check_options_frame [OF this] show ?thesis by auto
    qed
  qed (use P fr in \<open>auto simp: unf\<close>)
qed

lemma parse_ext_total:
  assumes "2 \<le> budget s"
  shows "\<exists>r s'. parse_ctmp_msg_extended host s = Inr (r, s')"
proof -
  obtain res h s2 where r: "read_msg 8 (alloc s) = (res, h, s2)" by (metis prod_cases3)
  let ?raw = "set_msg_length host \<lparr>header = h, len = 0, data = None\<rparr>"
  obtain res' bs s4 where d: "read_msg (unat (len ?raw)) (alloc s2) = (res', bs, s4)"
    by (metis prod_cases3)
  have b: "0 < budget s" "0 < budget s2" using assms read_msg_frame [OF r] by simp_all
  have "\<exists>q s'. check_options host (mk_msg host h bs) s4 = Inr (q, s')"
    if "\<not> res < 0" "h ! 0 = MAGIC" "\<not> res' < 0"
    using check_options_cases [OF reads_sound(1) [OF r that(1,2) d that(3)]] by simp
  then show ?thesis
    by (auto simp: parse_ctmp_msg_extended_def malloc_ok b r d read_ctmp_header_def Let_def
        HEADER_LENGTH_def read_ctmp_data_def valid_magic_def set_data_mk_msg)
qed

lemma parse_ext_sound:
  assumes "parse_ctmp_msg_extended host s = Inr (Some m, s')"
  shows "wf_msg host m \<and> len m \<noteq> 0 \<and> options_ok host m \<and>
    stream_bytes (rx s) = msg_bytes m @ stream_bytes (rx s') \<and> diags s' = diags s"
proof -
  obtain h bs s2 s4 res res' where
    r: "read_msg 8 (alloc s) = (res, h, s2)" "\<not> res < 0" "h ! 0 = MAGIC"
      "read_msg (unat (len (set_msg_length host \<lparr>header = h, len = 0, data = None\<rparr>))) (alloc s2)
        = (res', bs, s4)" "\<not> res' < 0"
    and c: "check_options host (mk_msg host h bs) s4 = Inr (Some m, s')"
    using assms
    by (auto simp: parse_ctmp_msg_extended_def fault_simps malloc_Inr read_ctmp_header_def Let_def
        HEADER_LENGTH_def read_ctmp_data_Inr valid_magic_def set_data_mk_msg
        split: prod.splits if_splits)
  from reads_sound [OF r] check_options_Some [OF c] show ?thesis by simp
qed

lemma parse_ext_step:
  assumes "2 \<le> budget s" "clean (rx s)"
  defines "bs \<equiv> stream_bytes (rx s)"
  shows "\<exists>s'. parse_ctmp_msg_extended host s =
      Inr (fst (frame_step host (options_ok host) bs), s') \<and>
    stream_bytes (rx s') = snd (frame_step host (options_ok host) bs) \<and> clean (rx s')"
proof -
  obtain res h s2 where
    r: "read_msg 8 (alloc s) = (res, h, s2)" "clean (rx s2)" "budget s2 = budget s - 1"
      "stream_bytes (rx s2) = drop 8 bs"
      "if length bs < 8 then res < 0 else \<not> res < 0 \<and> h = take 8 bs"
    using read_header_step [OF assms(2)] bs_def by blast
  let ?n = "unat (len (set_msg_length host \<lparr>header = h, len = 0, data = None\<rparr>))"
  obtain res' d s3 where
    d: "read_msg ?n (alloc s2) = (res', d, s3)" "clean (rx s3)"
      "stream_bytes (rx s3) = drop ?n (drop 8 bs)"
      "if ?n = 0 \<or> length (drop 8 bs) < ?n then res' < 0 else \<not> res' < 0 \<and> d = take ?n (drop 8 bs)"
    using read_data_step [OF r(2)] r(4) by metis
  have b: "0 < budget s" "0 < budget s2" using assms(1) r(3) by simp_all
  note unf = parse_ctmp_msg_extended_def malloc_ok read_ctmp_header_def Let_def HEADER_LENGTH_def r(1)
    valid_magic_def read_ctmp_data_def d(1) set_data_mk_msg frame_step_def
  consider "length bs < 8" | "\<not> length bs < 8" "h ! 0 \<noteq> MAGIC" | "\<not> length bs < 8" "h ! 0 = MAGIC"
    by blast
  then show ?thesis
  proof cases
    case 3
    then have h: "\<not> res < 0" "take 8 bs = h" using r(5) by auto
    show ?thesis
    proof (cases "?n = 0 \<or> length (drop 8 bs) < ?n")
      case True
      with 3 h r(2,4) d(2,3,4) b show ?thesis by (auto simp: unf)
    next
      case False
      then have "\<not> res' < 0" "d = take ?n (drop 8 bs)" using d(4) by simp_all
      moreover from this have "check_options host (mk_msg host h d) s3 = Inr (Some (mk_msg host h d), s3)"
        if "options_ok host (mk_msg host h d)"
        using check_options_cases [OF reads_sound(1) [OF r(1) h(1) 3(2) d(1)]] that by simp
      moreover have "\<exists>s4. check_options host (mk_msg host h d) s3 = Inr (None, s4) \<and> rx s4 = rx s3"
        if "\<not> options_ok host (mk_msg host h d)" "\<not> res' < 0"
        using check_options_cases [OF reads_sound(1) [OF r(1) h(1) 3(2) d(1) that(2)]] that(1) by simp
      ultimately show ?thesis
        using False 3 h r(2,4) d(2,3) b
        by (cases "options_ok host (mk_msg host h d)") (auto simp: unf)
    qed
  qed (use r(2,4,5) b in \<open>auto simp: unf\<close>)
qed

interpretation ext: ctmp_parser host "parse_ctmp_msg_extended host" "options_ok host" for host
  by unfold_locales
    (auto simp: parse_ext_total parse_ext_step dest: parse_ext_frame parse_ext_sound)

text \<open>On a little-endian machine the check is the network-order comparison of the protocol.\<close>

definition net_checksum :: "ctmp_msg \<Rightarrow> u16" where
  "net_checksum m = le_pair (header m ! 5) (header m ! 4)"

lemma checksum_ok_little:
  assumes "wf_msg host m"
  shows "checksum_ok Little m \<longleftrightarrow>
    net_checksum m = rfc1071 (filled_header (header m) @ payload m)"
proof -
  have h: "header_checksum m = swap16 (net_checksum m)"
    by (simp add: header_checksum_def net_checksum_def CHECKSUM_OFFSET_def)
  show ?thesis
    unfolding checksum_ok_def calc_checksum_little [OF assms] h by (metis sum.inject(2) swap16_swap16)
qed

section \<open>The extended parser in terms of the base parser\<close>

lemma parse_ext_base:
  "parse_ctmp_msg_extended host s =
     bindF (parse_ctmp_msg host s) (\<lambda>(r, s').
       case r of None \<Rightarrow> Inr (None, s') | Some m \<Rightarrow> check_options host m s')"
  by (auto simp: parse_ctmp_msg_extended_def parse_ctmp_msg_def bindF_assoc Let_def free_ctmp_msg_def
      bindF_def read_ctmp_data_def split: sum.splits prod.splits)

lemma parse_base_msg:
  assumes "clean (rx s)" "2 \<le> budget s" "stream_bytes (rx s) = msg_bytes m @ rest"
    and "wf_msg host m" "len m \<noteq> 0"
  shows "\<exists>s'. parse_ctmp_msg host s = Inr (Some m, s') \<and> stream_bytes (rx s') = rest \<and>
    clean (rx s') \<and> diags s' = diags s \<and> live s' = live s + 2"
proof -
  obtain s' where s': "parse_ctmp_msg host s = Inr (Some m, s')" "stream_bytes (rx s') = rest"
      "clean (rx s')"
    using base.parse_step [OF assms(2,1), of host] frame_step_msg [OF assms(4,5), of "\<lambda>_. True" rest]
    by (auto simp: assms(3))
  then show ?thesis
    using base.parse_heap [OF s'(1)] base.parse_log [OF s'(1)] by auto
qed

text \<open>A sensitive message with its checksum, and one whose last payload byte has been changed.\<close>

definition sensitive_msg :: ctmp_msg where
  "sensitive_msg = mk_msg Little [0xCC, 0x40, 0, 2, 0x5F, 0xE7, 0, 0] [7, 9]"

definition corrupted_msg :: ctmp_msg where
  "corrupted_msg = mk_msg Little [0xCC, 0x40, 0, 2, 0x5F, 0xE7, 0, 0] [7, 8]"

definition message_source :: "ctmp_msg \<Rightarrow> source" where
  "message_source m =
     \<lparr>rx = [Chunk (take 3 (msg_bytes m)), Pending, Chunk (drop 3 (msg_bytes m))], diags = [],
      live = 0, budget = 4\<rparr>"

lemma sensitive_msg_eq:
  "sensitive_msg = \<lparr>header = [0xCC, 0x40, 0, 2, 0x5F, 0xE7, 0, 0], len = 2, data = Some [7, 9, 0]\<rparr>"
  by (simp add: sensitive_msg_def mk_msg_def set_msg_length_def le_pair_def swap16_def const_defs Let_def)

lemma wf_sensitive_msg: "wf_msg Little sensitive_msg"
  unfolding sensitive_msg_def
  by (rule wf_msg_mk_msg) (simp_all add: const_defs sensitive_msg_def [symmetric] sensitive_msg_eq)

lemma sensitive_msg_checksum:
  "net_checksum sensitive_msg = rfc1071 (filled_header (header sensitive_msg) @ payload sensitive_msg)"
  by (simp add: rfc1071_def sensitive_msg_eq filled_header_def payload_def oc_add_def net_checksum_def
      le_pair_def const_defs)

lemma corrupted_msg_eq:
  "corrupted_msg = \<lparr>header = [0xCC, 0x40, 0, 2, 0x5F, 0xE7, 0, 0], len = 2, data = Some [7, 8, 0]\<rparr>"
  by (simp add: corrupted_msg_def mk_msg_def set_msg_length_def le_pair_def swap16_def const_defs Let_def)

lemma wf_corrupted_msg: "wf_msg Little corrupted_msg"
  unfolding corrupted_msg_def
  by (rule wf_msg_mk_msg) (simp_all add: const_defs corrupted_msg_def [symmetric] corrupted_msg_eq)

lemma clean_message_source: "clean (rx (message_source m))"
  by (simp add: message_source_def)

lemma message_source_bytes: "stream_bytes (rx (message_source m)) = msg_bytes m"
  by (simp add: message_source_def)

section \<open>Properties\<close>

text \<open>
  Property C27. The extended parser does what the base parser does, on every connection and in every
  case of failure, followed by the check of the options byte of a message that has been read: the two
  bodies, which are written out separately, do not differ otherwise.
\<close>

theorem extended_refines_base:
  "parse_ctmp_msg_extended host s =
     bindF (parse_ctmp_msg host s) (\<lambda>(r, s').
       case r of None \<Rightarrow> Inr (None, s') | Some m \<Rightarrow> check_options host m s')"
  by (rule parse_ext_base)

text \<open>
  Property C15. On a little-endian machine the extended parser, with a whole message at the head of a
  clean stream, accepts it exactly when its options byte is 0x00, or 0x40 and the checksum field equals
  the RFC 1071 checksum of the message with the field set to 0xCCCC. A message that is not accepted is
  taken off the stream, its two blocks are freed, and one line is logged.
\<close>

theorem extended_accepts_iff_valid:
  assumes "clean (rx s)" "2 \<le> budget s" "stream_bytes (rx s) = msg_bytes m @ rest"
    and "wf_msg Little m" "len m \<noteq> 0"
  shows "\<exists>s'. stream_bytes (rx s') = rest \<and>
    (if header m ! 1 = 0x00 \<or>
        header m ! 1 = 0x40 \<and> net_checksum m = rfc1071 (filled_header (header m) @ payload m)
     then parse_ctmp_msg_extended Little s = Inr (Some m, s') \<and> diags s' = diags s \<and>
       live s' = live s + 2
     else parse_ctmp_msg_extended Little s = Inr (None, s') \<and> live s' = live s \<and>
       (\<exists>d. diags s' = diags s @ [d]))"
proof -
  have ok: "options_ok Little m \<longleftrightarrow> header m ! 1 = 0x00 \<or>
      header m ! 1 = 0x40 \<and> net_checksum m = rfc1071 (filled_header (header m) @ payload m)"
    using checksum_ok_little [OF assms(4)] by (simp add: options_ok_def const_defs)
  obtain s1 where s1: "parse_ctmp_msg Little s = Inr (Some m, s1)" "stream_bytes (rx s1) = rest"
      "diags s1 = diags s" "live s1 = live s + 2"
    using parse_base_msg [OF assms] by blast
  have "parse_ctmp_msg_extended Little s = check_options Little m s1"
    by (simp add: parse_ext_base s1(1))
  with s1 assms(4) show ?thesis
    unfolding ok [symmetric]
    by (cases "options_ok Little m") (auto simp: check_options_cases wf_msg_data)
qed

theorem extended_accepts_iff_valid_witness:
  "\<exists>s'. parse_ctmp_msg_extended Little (message_source sensitive_msg) = Inr (Some sensitive_msg, s') \<and>
     live s' = live (message_source sensitive_msg) + 2"
  using extended_accepts_iff_valid [OF clean_message_source, of sensitive_msg sensitive_msg "[]"]
    sensitive_msg_checksum wf_sensitive_msg
  by (auto simp: message_source_bytes sensitive_msg_eq message_source_def)

text \<open>
  Property C17. A sensitive message that was valid when it was sent and in which one payload byte has
  been changed on the way is never accepted, whatever the byte and its position.
\<close>

theorem corrupted_byte_rejected:
  assumes "wf_msg Little m" "header m ! OPTIONS_OFFSET = OPT_SEN" "options_ok Little m"
    and "i < length (payload m)" "b \<noteq> payload m ! i"
    and "wf_msg Little m'" "header m' = header m" "payload m' = (payload m)[i := b]"
  shows "parse_ctmp_msg_extended Little s \<noteq> Inr (Some m', s')"
proof
  assume p: "parse_ctmp_msg_extended Little s = Inr (Some m', s')"
  have "calc_checksum Little m' \<noteq> calc_checksum Little m"
    using calc_checksum_update assms by blast
  moreover have "calc_checksum Little m = Inr (header_checksum m)"
    using assms(2,3) by (simp add: options_ok_def checksum_ok_def const_defs)
  moreover have "calc_checksum Little m' = Inr (header_checksum m')"
    using parse_ext_sound [OF p] assms(2,7)
    by (simp add: options_ok_def checksum_ok_def const_defs)
  ultimately show False using assms(7) by (simp add: header_checksum_def)
qed

theorem corrupted_byte_rejected_witness:
  "\<forall>s'. parse_ctmp_msg_extended Little (message_source corrupted_msg) \<noteq>
     Inr (Some corrupted_msg, s')"
proof (rule allI, rule corrupted_byte_rejected [OF wf_sensitive_msg _ _ _ _ wf_corrupted_msg])
  show "options_ok Little sensitive_msg"
    using checksum_ok_little [OF wf_sensitive_msg] sensitive_msg_checksum
    by (simp add: options_ok_def sensitive_msg_eq const_defs)
  show "1 < length (payload sensitive_msg)" "8 \<noteq> payload sensitive_msg ! 1"
    "header sensitive_msg ! OPTIONS_OFFSET = OPT_SEN"
    "header corrupted_msg = header sensitive_msg"
    "payload corrupted_msg = (payload sensitive_msg)[1 := 8]"
    by (simp_all add: sensitive_msg_eq corrupted_msg_eq payload_def const_defs)
qed

end
