(* ===== verification/Bitmask.thy ===== *)
theory Bitmask
  imports Prelude
begin

text \<open>
  The 64-bit masks of \<^verbatim>\<open>lib/bitmask.c\<close>. The code shifts the \<open>int\<close> constant 1, so the shifted
  value has 32 bits: a count outside \<open>0..31\<close> is undefined (\<^const>\<open>Shift_UB\<close>), and a count of 31
  sets the sign bit (GCC defines this case), which the conversion to \<open>uint64_t\<close> extends.
  \<open>flag_mask\<close> is the contract the thread pool and the message queue rely on; it holds of the
  code's operations for the positions 0 to 31.
\<close>

section \<open>The code\<close>

definition int_shl1 :: "int \<Rightarrow> fault + u32" where
  "int_shl1 pos = (if 0 \<le> pos \<and> pos < 32 then Inr (push_bit (nat pos) 1) else Inl Shift_UB)"

definition is_set :: "u64 \<Rightarrow> int \<Rightarrow> fault + bool" where
  "is_set msk pos = bindF (int_shl1 pos) (\<lambda>b. Inr (msk AND scast b \<noteq> 0))"

definition set_bit_mask :: "u64 \<Rightarrow> int \<Rightarrow> bool \<Rightarrow> fault + u64" where
  "set_bit_mask msk pos val =
     bindF (int_shl1 pos) (\<lambda>b.
       if val then Inr (msk OR scast b) else Inr (msk AND scast (NOT b)))"

section \<open>The contract of a flag set\<close>

text \<open>The positions whose flag is set, read through the lookup operation.\<close>

definition flags_of :: "('m \<Rightarrow> 'i \<Rightarrow> fault + bool) \<Rightarrow> ('i \<Rightarrow> bool) \<Rightarrow> 'm \<Rightarrow> 'i set" where
  "flags_of get ok m = {i. ok i \<and> get m i = Inr True}"

locale flag_mask =
  fixes get :: "'m \<Rightarrow> 'i \<Rightarrow> fault + bool"
    and put :: "'m \<Rightarrow> 'i \<Rightarrow> bool \<Rightarrow> fault + 'm"
    and clear :: 'm
    and ok :: "'i \<Rightarrow> bool"
  assumes get_total: "ok i \<Longrightarrow> \<exists>b. get m i = Inr b"
    and put_total: "ok i \<Longrightarrow> \<exists>m'. put m i v = Inr m'"
    and get_put_same: "ok i \<Longrightarrow> put m i v = Inr m' \<Longrightarrow> get m' i = Inr v"
    and get_put_other:
      "ok i \<Longrightarrow> ok j \<Longrightarrow> i \<noteq> j \<Longrightarrow> put m i v = Inr m' \<Longrightarrow> get m' j = get m j"
    and get_clear: "ok i \<Longrightarrow> get clear i = Inr False"
begin

lemma get_put:
  "ok i \<Longrightarrow> ok j \<Longrightarrow> put m i v = Inr m' \<Longrightarrow> get m' j = (if i = j then Inr v else get m j)"
  using get_put_same get_put_other by auto

lemma get_iff_flags: "ok i \<Longrightarrow> get m i = Inr (i \<in> flags_of get ok m)"
  using get_total [of i m] by (auto simp: flags_of_def)

lemma flags_clear: "flags_of get ok clear = {}"
  by (auto simp: flags_of_def get_clear)

lemma flags_put:
  "ok i \<Longrightarrow> put m i v = Inr m' \<Longrightarrow>
   flags_of get ok m' = (if v then insert i (flags_of get ok m) else flags_of get ok m - {i})"
  by (auto simp: flags_of_def get_put split: if_splits)

lemma flags_put_commute:
  assumes "ok i" "ok j" "i \<noteq> j"
    and "bindF (put m i v) (\<lambda>n. put n j w) = Inr m1"
    and "bindF (put m j w) (\<lambda>n. put n i v) = Inr m2"
  shows "flags_of get ok m1 = flags_of get ok m2"
  using assms by (auto simp: fault_simps flags_put)

lemma put_flags_ok: "flags_of get ok m \<subseteq> {i. ok i}"
  by (auto simp: flags_of_def)

end

section \<open>The code's masks meet the contract\<close>

text \<open>
  Which of the 64 bits a position stands for: its own bit, and for position 31 also every bit
  above it, because the shifted constant is sign-extended.
\<close>

definition flag_span :: "nat \<Rightarrow> nat set" where
  "flag_span n = {k. k < 64 \<and> (k = n \<or> n = 31 \<and> 31 < k)}"

lemma flag_span_own: "n < 32 \<Longrightarrow> n \<in> flag_span n"
  by (simp add: flag_span_def)

lemma flag_span_disjoint: "n < 32 \<Longrightarrow> j < 32 \<Longrightarrow> n \<noteq> j \<Longrightarrow> flag_span n \<inter> flag_span j = {}"
  by (auto simp: flag_span_def)

lemma u64_neq_0_bit: "(w :: u64) \<noteq> 0 \<longleftrightarrow> (\<exists>k<64. bit w k)"
proof -
  have "w = 0 \<longleftrightarrow> (\<forall>k<64. \<not> bit w k)"
    by (auto intro: bit_word_eqI)
  then show ?thesis by blast
qed

lemma bit_flag:
  "n < 32 \<Longrightarrow> bit (scast (2 ^ n :: u32) :: u64) k \<longleftrightarrow> k \<in> flag_span n"
  by (auto simp: bit_simps min_def flag_span_def)

lemma bit_flag_not:
  "n < 32 \<Longrightarrow> bit (scast (NOT (2 ^ n :: u32)) :: u64) k \<longleftrightarrow> k < 64 \<and> k \<notin> flag_span n"
  by (auto simp: bit_simps min_def flag_span_def)

lemma is_set_bits:
  "n < 32 \<Longrightarrow> is_set m (int n) = Inr (\<exists>k \<in> flag_span n. bit m k)"
  by (auto simp: is_set_def int_shl1_def u64_neq_0_bit bit_and_iff bit_flag flag_span_def)

lemma set_bit_mask_bits:
  assumes "n < 32" and "set_bit_mask m (int n) v = Inr m'" and "k < 64"
  shows "bit m' k = (if k \<in> flag_span n then v else bit m k)"
  using assms
  by (auto simp: set_bit_mask_def int_shl1_def bit_or_iff bit_and_iff bit_flag bit_flag_not
      split: if_splits)

lemma int_shl1_fault_iff: "int_shl1 pos = Inl e \<longleftrightarrow> e = Shift_UB \<and> \<not> (0 \<le> pos \<and> pos < 32)"
  by (auto simp: int_shl1_def)

lemma set_bit_mask_total: "0 \<le> i \<Longrightarrow> i < 32 \<Longrightarrow> \<exists>m'. set_bit_mask m i v = Inr m'"
  by (auto simp: set_bit_mask_def int_shl1_def)

lemma set_then_test:
  assumes "i < 32" "j < 32" "set_bit_mask m (int i) v = Inr m'"
  shows "is_set m' (int j) = (if i = j then Inr v else is_set m (int j))"
proof -
  have span: "k < 64" if "k \<in> flag_span j" for k
    using that by (simp add: flag_span_def)
  have "bit m' k = (if k \<in> flag_span i then v else bit m k)" if "k \<in> flag_span j" for k
    using set_bit_mask_bits [OF assms(1,3) span [OF that]] .
  then show ?thesis
    using assms(1,2) flag_span_disjoint [of i j] flag_span_own [OF assms(2)]
    by (auto simp: is_set_bits)
qed

text \<open>The positions the shift is defined for.\<close>

definition flag_pos :: "int \<Rightarrow> bool" where
  "flag_pos i \<longleftrightarrow> 0 \<le> i \<and> i < 32"

interpretation c_mask: flag_mask is_set set_bit_mask 0 flag_pos
proof unfold_locales
  fix i :: int and m :: u64
  assume "flag_pos i"
  then show "\<exists>b. is_set m i = Inr b"
    by (auto simp: is_set_def int_shl1_def flag_pos_def)
next
  fix i v and m :: u64
  assume "flag_pos i"
  then show "\<exists>m'. set_bit_mask m i v = Inr m'"
    by (auto simp: flag_pos_def set_bit_mask_total)
next
  fix i v and m m' :: u64
  assume "flag_pos i" "set_bit_mask m i v = Inr m'"
  then show "is_set m' i = Inr v"
    using set_then_test [of "nat i" "nat i" m v m'] by (auto simp: flag_pos_def)
next
  fix i j v and m m' :: u64
  assume "flag_pos i" "flag_pos j" "i \<noteq> j" "set_bit_mask m i v = Inr m'"
  then show "is_set m' j = is_set m j"
    using set_then_test [of "nat i" "nat j" m v m'] by (auto simp: flag_pos_def)
next
  fix i :: int
  assume "flag_pos i"
  then show "is_set 0 i = Inr False"
    by (simp add: is_set_def int_shl1_def flag_pos_def)
qed

text \<open>The set of positions a mask records.\<close>

abbreviation mask_flags :: "u64 \<Rightarrow> int set" where
  "mask_flags \<equiv> flags_of is_set flag_pos"

section \<open>Properties\<close>

text \<open>
  On the positions 0 to 31 the mask operations behave as a set of flags: a flag that is
  written is read back, and no other flag changes (position 31, whose bits are sign-extended,
  included).
\<close>

lemma mask_write_then_read:
  assumes "flag_pos i" and "flag_pos j"
  shows "bindF (set_bit_mask m i v) (\<lambda>m'. is_set m' j) = (if i = j then Inr v else is_set m j)"
proof -
  obtain m' where "set_bit_mask m i v = Inr m'" using c_mask.put_total [OF assms(1)] by blast
  with c_mask.get_put [OF assms this] show ?thesis by simp
qed

lemma mask_write_then_read_witness:
  "bindF (set_bit_mask 0 31 True) (\<lambda>m'. is_set m' 30) = is_set 0 30"
  using mask_write_then_read [of 31 30 0 True] by (simp add: flag_pos_def)

text \<open>
  The mask operations are undefined outside the positions 0 to 31, although a mask has
  64 bits and the program accepts up to 64 workers: the shifted constant is an \<open>int\<close>.
\<close>

lemma mask_undefined_above_31:
  "(is_set m pos = Inl Shift_UB \<longleftrightarrow> pos < 0 \<or> 32 \<le> pos) \<and>
   (set_bit_mask m pos v = Inl Shift_UB \<longleftrightarrow> pos < 0 \<or> 32 \<le> pos)"
  by (auto simp: is_set_def set_bit_mask_def int_shl1_def)

end
