(* ===== verification/Timestamp.thy ===== *)
theory Timestamp
  imports Prelude
begin

text \<open>
  \<^verbatim>\<open>lib/timestamp.c\<close>: \<open>struct timespec\<close> and its comparison. The record is ordered
  lexicographically (an instance of \<^theory_text>\<open>linorder\<close>), and \<open>compare_times\<close> is the strict order.
  \<open>strict_time\<close> is the contract of a strict order on the time stamps of a queue in arrival
  order: the entries that are later than a moment are a suffix of the queue.
  The clock (\<open>clock_gettime\<close>) is the operating system's; its readings are arguments of the
  operations that call \<open>get_clock_time\<close>.
\<close>

section \<open>The code\<close>

record timespec =
  tv_sec :: int
  tv_nsec :: int

definition compare_times :: "timespec \<Rightarrow> timespec \<Rightarrow> bool" where
  "compare_times lhs rhs =
     (if tv_sec lhs = tv_sec rhs then tv_nsec lhs < tv_nsec rhs
      else tv_sec lhs < tv_sec rhs)"

section \<open>The order on time stamps\<close>

instantiation timespec_ext :: (linorder) linorder
begin

definition less_eq_timespec_ext :: "'a timespec_ext \<Rightarrow> 'a timespec_ext \<Rightarrow> bool" where
  "less_eq_timespec_ext a b \<longleftrightarrow>
     tv_sec a < tv_sec b \<or> tv_sec a = tv_sec b \<and>
     (tv_nsec a < tv_nsec b \<or> tv_nsec a = tv_nsec b \<and> timespec.more a \<le> timespec.more b)"

definition less_timespec_ext :: "'a timespec_ext \<Rightarrow> 'a timespec_ext \<Rightarrow> bool" where
  "less_timespec_ext a b \<longleftrightarrow> a \<le> b \<and> \<not> b \<le> a"

instance
  by standard (auto simp: less_eq_timespec_ext_def less_timespec_ext_def)

end

lemma compare_times_iff_less: "compare_times a b \<longleftrightarrow> a < b"
  by (auto simp: compare_times_def less_timespec_ext_def less_eq_timespec_ext_def)

section \<open>Entries later than a moment\<close>

locale strict_time =
  fixes before :: "'t \<Rightarrow> 't \<Rightarrow> bool"
  assumes before_irrefl: "\<not> before a a"
    and before_trans: "before a b \<Longrightarrow> before b c \<Longrightarrow> before a c"
    and before_total: "a \<noteq> b \<Longrightarrow> before a b \<or> before b a"
begin

lemma before_asym: "before a b \<Longrightarrow> \<not> before b a"
  using before_irrefl before_trans by blast

lemma before_le_trans: "before a b \<Longrightarrow> \<not> before c b \<Longrightarrow> before a c"
  using before_total before_trans by metis

text \<open>In a list in arrival order, what is later than a moment is what remains after a prefix.\<close>

lemma later_suffix:
  assumes "sorted_wrt (\<lambda>x y. \<not> before (f y) (f x)) xs"
  shows "filter (\<lambda>x. before t (f x)) xs = dropWhile (\<lambda>x. \<not> before t (f x)) xs"
  using assms
proof (induction xs)
  case Nil
  then show ?case by simp
next
  case (Cons x xs)
  show ?case
  proof (cases "before t (f x)")
    case True
    with Cons.prems have "\<forall>y \<in> set xs. before t (f y)"
      by (auto intro: before_le_trans)
    with True show ?thesis by simp
  next
    case False
    with Cons show ?thesis by simp
  qed
qed

end

interpretation c_time: strict_time compare_times
  by unfold_locales (auto simp: compare_times_iff_less)

section \<open>Adding whole seconds\<close>

text \<open>\<open>msg_plus_ttl.tv_sec += ttl\<close> of the cleanup worker: the moment a message expires.\<close>

definition add_secs :: "timespec \<Rightarrow> int \<Rightarrow> timespec" where
  "add_secs t s = t\<lparr>tv_sec := tv_sec t + s\<rparr>"

lemma add_secs_mono: "t \<le> u \<Longrightarrow> add_secs t s \<le> add_secs u s"
  by (auto simp: add_secs_def less_eq_timespec_ext_def)

lemma less_add_secs: "0 < s \<Longrightarrow> t < add_secs t s"
  by (auto simp: add_secs_def less_timespec_ext_def less_eq_timespec_ext_def)

definition epoch :: timespec where
  "epoch = \<lparr>tv_sec = 0, tv_nsec = 0\<rparr>"

end
