(* ===== verification/Msg_Queue.thy ===== *)
theory Msg_Queue
  imports Ctmp_Extended Bitmask Timestamp
begin

text \<open>
  The message queue of \<^verbatim>\<open>lib/msg_queue.c\<close>. Entries are only ever appended to the tail queue, so
  the queue is the list of its entries in insertion order, a pointer to an entry is its position,
  and \<open>TAILQ_NEXT\<close> is the next position. A freed message or bitmask is \<open>None\<close>. Waiting on the
  condition variable while the condition does not hold is \<^const>\<open>Would_Block\<close>; the caller resumes
  when the queue has grown.
\<close>

section \<open>Entries\<close>

record msg_entry =
  timestamp :: timespec
  msg :: "ctmp_msg option"
  sent :: "u64 option"

text \<open>\<open>init_msg_entry\<close> allocates the entry and its bitmask; \<open>now\<close> is the clock reading it takes.\<close>

definition init_msg_entry :: "timespec \<Rightarrow> ctmp_msg \<Rightarrow> source \<Rightarrow> fault + msg_entry \<times> source" where
  "init_msg_entry now m s =
     bindF (malloc_or_exit s) (\<lambda>s1.
     bindF (malloc_or_exit s1) (\<lambda>s2.
       Inr (\<lparr>timestamp = now, msg = Some m, sent = Some 0\<rparr>, s2)))"

definition free_msg_data :: "msg_entry \<Rightarrow> msg_entry" where
  "free_msg_data e = e\<lparr>sent := None, msg := None\<rparr>"

definition is_sent :: "msg_entry \<Rightarrow> int \<Rightarrow> fault + bool" where
  "is_sent e thread_index =
     (case sent e of None \<Rightarrow> Inl Null_Deref | Some m \<Rightarrow> is_set m thread_index)"

definition set_sent :: "msg_entry \<Rightarrow> int \<Rightarrow> bool \<Rightarrow> fault + msg_entry" where
  "set_sent e thread_index val =
     (case sent e of
        None \<Rightarrow> Inl Null_Deref
      | Some m \<Rightarrow> bindF (set_bit_mask m thread_index val) (\<lambda>m'. Inr (e\<lparr>sent := Some m'\<rparr>)))"

definition can_forward :: "msg_entry \<Rightarrow> int \<Rightarrow> timespec \<Rightarrow> fault + bool" where
  "can_forward e thread_index recv_start =
     (if compare_times recv_start (timestamp e)
      then bindF (is_sent e thread_index) (\<lambda>b. Inr (\<not> b))
      else Inr False)"

section \<open>The queue\<close>

type_synonym queue = "msg_entry list"

definition TAILQ_FIRST :: "queue \<Rightarrow> nat option" where
  "TAILQ_FIRST q = (if q = [] then None else Some 0)"

definition TAILQ_NEXT :: "queue \<Rightarrow> nat \<Rightarrow> nat option" where
  "TAILQ_NEXT q i = (if Suc i < length q then Some (Suc i) else None)"

definition TAILQ_INSERT_TAIL :: "queue \<Rightarrow> msg_entry \<Rightarrow> queue" where
  "TAILQ_INSERT_TAIL q e = q @ [e]"

definition wait_until :: "nat option \<Rightarrow> fault + nat" where
  "wait_until p = (case p of None \<Rightarrow> Inl Would_Block | Some i \<Rightarrow> Inr i)"

definition get_msg_entry :: "queue \<Rightarrow> nat option \<Rightarrow> nat option \<Rightarrow> bool \<Rightarrow> fault + nat" where
  "get_msg_entry q current prev to_start =
     (if q = [] \<or> current = None
      then (if q = [] \<or> prev = None
            then wait_until (TAILQ_FIRST q)
            else bindF (wait_until (TAILQ_NEXT q (the prev))) (\<lambda>n.
                   if to_start then wait_until (TAILQ_FIRST q) else Inr n))
      else Inr (the current))"

section \<open>A cursor over a growing queue\<close>

text \<open>
  The contract the worker and cleanup threads rely on when they walk the queue: a position they
  get is in the queue, and it does not change when entries are appended behind their back.
\<close>

locale queue_cursor =
  fixes get :: "'q \<Rightarrow> nat option \<Rightarrow> nat option \<Rightarrow> fault + nat"
    and nxt :: "'q \<Rightarrow> nat \<Rightarrow> nat option"
    and size_of :: "'q \<Rightarrow> nat"
    and extends :: "'q \<Rightarrow> 'q \<Rightarrow> bool"
  assumes extends_size: "extends q q' \<Longrightarrow> size_of q \<le> size_of q'"
    and nxt_Some: "nxt q i = Some j \<longleftrightarrow> j = Suc i \<and> Suc i < size_of q"
    and get_start: "get q None None = Inr i \<longleftrightarrow> i = 0 \<and> 0 < size_of q"
    and get_here: "i < size_of q \<Longrightarrow> get q (Some i) prv = Inr i"
    and get_after: "p < size_of q \<Longrightarrow> get q None (Some p) = Inr i \<longleftrightarrow> nxt q p = Some i"
begin

text \<open>The position a thread takes after \<open>k\<close>, whether the next entry was already there or not.\<close>

lemma get_next:
  assumes "k < size_of q" "extends q q'" "get q' (nxt q k) (Some k) = Inr i"
  shows "i = Suc k \<and> i < size_of q'"
proof (cases "nxt q k")
  case None
  then show ?thesis
    using assms extends_size [OF assms(2)] get_after [of k q' i] by (simp add: nxt_Some)
next
  case (Some j)
  then have "j = Suc k" "Suc k < size_of q'"
    using extends_size [OF assms(2)] by (auto simp: nxt_Some)
  then show ?thesis using assms(3) Some get_here [of "Suc k" q'] by simp
qed

lemma get_stable:
  assumes "extends q q'" "p < size_of q"
    and "get q None (Some p) = Inr i"
  shows "get q' None (Some p) = Inr i"
proof -
  have "p < size_of q'" using assms(1,2) extends_size by (meson less_le_trans)
  moreover have "nxt q' p = Some i"
    using assms extends_size [OF assms(1)] get_after [OF assms(2)] by (simp add: nxt_Some)
  ultimately show ?thesis by (simp add: get_after)
qed

end

text \<open>
  The queue \<open>q'\<close> a thread sees later: the entries it knew keep their places and time stamps, and
  others have been appended.
\<close>

definition queue_extends :: "queue \<Rightarrow> queue \<Rightarrow> bool" where
  "queue_extends q q' \<longleftrightarrow> map timestamp q = take (length q) (map timestamp q')"

lemma queue_extends_length: "queue_extends q q' \<Longrightarrow> length q \<le> length q'"
  unfolding queue_extends_def
  by (metis length_map length_take min.cobounded1)

lemma queue_extends_refl [simp]: "queue_extends q q"
  by (simp add: queue_extends_def)

lemma queue_extends_append: "queue_extends q (TAILQ_INSERT_TAIL q e)"
  by (simp add: queue_extends_def TAILQ_INSERT_TAIL_def)

interpretation worker_cursor: queue_cursor
  "\<lambda>q c p. get_msg_entry q c p False" TAILQ_NEXT length queue_extends
  by unfold_locales
    (auto simp: queue_extends_length get_msg_entry_def wait_until_def TAILQ_FIRST_def
      TAILQ_NEXT_def fault_simps split: option.splits if_splits)

section \<open>Sent flags of an entry\<close>

definition sent_flags :: "msg_entry \<Rightarrow> int set" where
  "sent_flags e = (case sent e of None \<Rightarrow> {} | Some m \<Rightarrow> mask_flags m)"

lemma is_sent_flags:
  "flag_pos i \<Longrightarrow> sent e \<noteq> None \<Longrightarrow> is_sent e i = Inr (i \<in> sent_flags e)"
  by (auto simp: is_sent_def sent_flags_def c_mask.get_iff_flags)

lemma set_sent_flags:
  assumes "flag_pos i" "sent e \<noteq> None"
  shows "\<exists>e'. set_sent e i v = Inr e' \<and> msg e' = msg e \<and> timestamp e' = timestamp e \<and>
    sent e' \<noteq> None \<and> sent_flags e' = (if v then insert i (sent_flags e) else sent_flags e - {i})"
proof -
  obtain m where m: "sent e = Some m" using assms(2) by auto
  obtain m' where m': "set_bit_mask m i v = Inr m'" using c_mask.put_total [OF assms(1)] by blast
  show ?thesis
    using m m' c_mask.flags_put [OF assms(1) m'] by (simp add: set_sent_def sent_flags_def)
qed

lemma can_forward_flags:
  "flag_pos i \<Longrightarrow> sent e \<noteq> None \<Longrightarrow>
   can_forward e i t = Inr (t < timestamp e \<and> i \<notin> sent_flags e)"
  by (simp add: can_forward_def compare_times_iff_less is_sent_flags)

lemma init_msg_entry_Inr:
  "init_msg_entry now m s = Inr (e, s') \<longleftrightarrow> 2 \<le> budget s \<and> s' = alloc (alloc s) \<and>
     e = \<lparr>timestamp = now, msg = Some m, sent = Some 0\<rparr>"
  by (auto simp: init_msg_entry_def fault_simps malloc_Inr)

lemma sent_flags_init [simp]: "sent_flags \<lparr>timestamp = t, msg = m, sent = Some 0\<rparr> = {}"
  by (simp add: sent_flags_def c_mask.flags_clear)

definition queued_at :: "int \<Rightarrow> msg_entry" where
  "queued_at s = \<lparr>timestamp = \<lparr>tv_sec = s, tv_nsec = 0\<rparr>, msg = None, sent = Some 0\<rparr>"

section \<open>Properties\<close>

text \<open>
  A worker or cleanup thread that has dealt with entry \<open>k\<close> and computed its next position
  gets entry \<open>k + 1\<close>, whatever has been appended in the meantime: no entry is skipped and none is dealt
  with twice, and while there is none it waits.
\<close>

lemma cursor_visits_next:
  assumes "k < length q" "queue_extends q q'"
  shows "get_msg_entry q' (TAILQ_NEXT q k) (Some k) False =
    (if Suc k < length q' then Inr (Suc k) else Inl Would_Block)"
proof -
  have k: "k < length q'" using assms queue_extends_length by (meson less_le_trans)
  show ?thesis
  proof (cases "get_msg_entry q' (TAILQ_NEXT q k) (Some k) False")
    case (Inr i)
    then show ?thesis using worker_cursor.get_next [OF assms] by simp
  next
    case (Inl f)
    then show ?thesis
      using k queue_extends_length [OF assms(2)]
      by (auto simp: get_msg_entry_def wait_until_def TAILQ_NEXT_def fault_simps split: if_splits)
  qed
qed

lemma cursor_visits_next_witness:
  "get_msg_entry (TAILQ_INSERT_TAIL [queued_at 0] (queued_at 0)) (TAILQ_NEXT [queued_at 0] 0) (Some 0) False = Inr 1"
  using cursor_visits_next [of 0 "[queued_at 0]", OF _ queue_extends_append] by (simp add: TAILQ_INSERT_TAIL_def)

text \<open>
  Marking an entry as sent, or as unsent again, for one worker is seen by that worker and by
  no other, and does not change the message or its time stamp.
\<close>

lemma set_sent_independent:
  assumes "0 \<le> i" "i < 32" "0 \<le> j" "j < 32" "sent e = Some msk"
  shows "\<exists>e'. set_sent e i v = Inr e' \<and> is_sent e' j = (if j = i then Inr v else is_sent e j) \<and>
    msg e' = msg e \<and> timestamp e' = timestamp e"
proof -
  have ok: "flag_pos i" "flag_pos j" using assms by (simp_all add: flag_pos_def)
  obtain m' where m': "set_bit_mask msk i v = Inr m'" using c_mask.put_total [OF ok(1)] by blast
  show ?thesis
    using m' assms(5) c_mask.get_put [OF ok m'] by (simp add: set_sent_def is_sent_def)
qed

lemma set_sent_independent_witness:
  "\<exists>e'. set_sent \<lparr>timestamp = t, msg = None, sent = Some 0\<rparr> 31 True = Inr e' \<and>
     is_sent e' 31 = Inr True \<and> is_sent e' 30 = is_sent \<lparr>timestamp = t, msg = None, sent = Some 0\<rparr> 30"
  using set_sent_independent [of 31 31 "\<lparr>timestamp = t, msg = None, sent = Some 0\<rparr>" 0 True]
    set_sent_independent [of 31 30 "\<lparr>timestamp = t, msg = None, sent = Some 0\<rparr>" 0 True]
  by auto

text \<open>
  When the entries of the queue are in the order of their time stamps, the entries a worker may
  forward to a client are a suffix of the queue: those from the first one that arrived after the client
  connected.
\<close>

lemma forwardable_suffix:
  assumes "sorted_wrt (\<lambda>x y. \<not> compare_times (timestamp y) (timestamp x)) q"
    and "\<forall>e \<in> set q. sent e = Some 0" "0 \<le> i" "i < 32"
  shows "filter (\<lambda>e. can_forward e i ts = Inr True) q =
    dropWhile (\<lambda>e. can_forward e i ts = Inr False) q"
proof -
  have ok: "flag_pos i" using assms by (simp add: flag_pos_def)
  have cf: "can_forward e i ts = Inr (compare_times ts (timestamp e))" if "e \<in> set q" for e
    using that assms(2) can_forward_flags [OF ok, of e ts] 
    by (simp add: compare_times_iff_less sent_flags_def c_mask.flags_clear)
  then have "filter (\<lambda>e. can_forward e i ts = Inr True) q =
      filter (\<lambda>e. compare_times ts (timestamp e)) q"
    by (intro filter_cong) auto
  also have "\<dots> = dropWhile (\<lambda>e. \<not> compare_times ts (timestamp e)) q"
    by (rule c_time.later_suffix [OF assms(1)])
  also have "\<dots> = dropWhile (\<lambda>e. can_forward e i ts = Inr False) q"
    by (intro dropWhile_cong) (use cf in auto)
  finally show ?thesis .
qed

lemma forwardable_suffix_witness:
  "filter (\<lambda>e. can_forward e 3 \<lparr>tv_sec = 4, tv_nsec = 9\<rparr> = Inr True) [queued_at 3, queued_at 5, queued_at 6] =
   dropWhile (\<lambda>e. can_forward e 3 \<lparr>tv_sec = 4, tv_nsec = 9\<rparr> = Inr False) [queued_at 3, queued_at 5, queued_at 6]"
  by (rule forwardable_suffix) (simp_all add: queued_at_def compare_times_def)

end
