(* ===== verification/Dst_Worker.thy ===== *)
theory Dst_Worker
  imports Msg_Queue
begin

text \<open>
  A destination worker, \<open>run_dst_worker\<close> of \<^verbatim>\<open>ws_server.c\<close>: it walks the queue and sends its client
  every message that arrived after the client connected. One iteration of its loop is
  \<open>worker_iter\<close>; it ends either at the end of the loop body or, when the connection is gone, at the
  point where the worker has closed its descriptor and waits to be given another (\<open>worker_resume\<close>
  continues from there). \<open>deliver_step\<close> interleaves the iterations with the arrival of messages.
\<close>

section \<open>The code\<close>

text \<open>The local variables of the worker, its arguments and what it shares with the others.\<close>

record dst_state =
  d_queue :: queue
  d_current :: "nat option"
  d_prev :: "nat option"
  d_next :: "nat option"
  d_bytes_sent :: int
  d_client :: client
  d_ts :: timespec
  d_open :: bool

definition init_dst :: "queue \<Rightarrow> client \<Rightarrow> timespec \<Rightarrow> dst_state" where
  "init_dst q c ts =
     \<lparr>d_queue = q, d_current = None, d_prev = None, d_next = None, d_bytes_sent = 0,
      d_client = c, d_ts = ts, d_open = True\<rparr>"

definition close_client :: "dst_state \<Rightarrow> dst_state" where
  "close_client st = st\<lparr>d_open := False\<rparr>"

text \<open>\<open>prev = current; current = next;\<close>\<close>

definition advance :: "dst_state \<Rightarrow> dst_state" where
  "advance st = st\<lparr>d_prev := d_current st, d_current := d_next st\<rparr>"

text \<open>The body of \<open>if (can_forward(...))\<close> for the entry at position \<open>c\<close>.\<close>

definition forward_entry :: "int \<Rightarrow> nat \<Rightarrow> dst_state \<Rightarrow> fault + dst_state" where
  "forward_entry i c st =
     (case msg (d_queue st ! c) of
        None \<Rightarrow> Inl Null_Deref
      | Some m \<Rightarrow>
          bindF (send_ctmp_msg m (d_client st)) (\<lambda>(res, cl).
          bindF (set_sent (d_queue st ! c) i True) (\<lambda>e.
            Inr (st\<lparr>d_client := cl, d_bytes_sent := res, d_queue := (d_queue st)[c := e]\<rparr>))))"

text \<open>
  One iteration. \<open>(True, st)\<close>: the client's descriptor has been closed and the worker waits;
  \<open>(False, st)\<close>: the end of the loop body. The jump to \<open>conn_closed\<close> after \<open>is_alive\<close> skips the
  assignment of \<open>next\<close>.
\<close>

definition worker_iter :: "int \<Rightarrow> dst_state \<Rightarrow> fault + bool \<times> dst_state" where
  "worker_iter i st =
     bindF (get_msg_entry (d_queue st) (d_current st) (d_prev st) False) (\<lambda>c.
       let st1 = st\<lparr>d_current := Some c\<rparr> in
       if \<not> is_alive (crx (d_client st1)) then Inr (True, close_client st1)
       else
         bindF (can_forward (d_queue st1 ! c) i (d_ts st1)) (\<lambda>fwd.
         bindF (if fwd then forward_entry i c st1 else Inr st1) (\<lambda>st2.
           let st3 = st2\<lparr>d_next := TAILQ_NEXT (d_queue st2) c\<rparr> in
           if d_bytes_sent st3 < 0 then Inr (True, close_client st3)
           else Inr (False, advance st3))))"

text \<open>
  What follows the wait: the worker has been given a new descriptor and time stamp, resets its sent
  flag of the current entry if that has not been freed, and ends the loop body.
\<close>

definition worker_resume :: "int \<Rightarrow> client \<Rightarrow> timespec \<Rightarrow> dst_state \<Rightarrow> fault + dst_state" where
  "worker_resume i cl ts st =
     (let st1 = st\<lparr>d_client := cl, d_ts := ts, d_open := True\<rparr> in
      case d_current st1 of
        None \<Rightarrow> Inl Null_Deref
      | Some c \<Rightarrow>
          if sent (d_queue st1 ! c) \<noteq> None
          then bindF (set_sent (d_queue st1 ! c) i False) (\<lambda>e.
                 Inr (advance (st1\<lparr>d_queue := (d_queue st1)[c := e]\<rparr>)))
          else Inr (advance st1))"

section \<open>Deliverable entries\<close>

text \<open>The entry carries a message that can be sent, and worker \<open>i\<close> has not sent it.\<close>

definition fresh_entry :: "endian \<Rightarrow> int \<Rightarrow> msg_entry \<Rightarrow> bool" where
  "fresh_entry host i e \<longleftrightarrow>
     (\<exists>m. msg e = Some m \<and> wf_msg host m) \<and> sent e \<noteq> None \<and> i \<notin> sent_flags e"

text \<open>What a client that connected at \<open>ts\<close> is entitled to, as bytes.\<close>

definition entry_bytes :: "msg_entry \<Rightarrow> byte list" where
  "entry_bytes e = (case msg e of None \<Rightarrow> [] | Some m \<Rightarrow> msg_bytes m)"

definition entitled_bytes :: "timespec \<Rightarrow> queue \<Rightarrow> byte list" where
  "entitled_bytes ts q = concat (map entry_bytes (filter (\<lambda>e. ts < timestamp e) q))"

text \<open>What an entry is apart from the flags of who has sent it.\<close>

definition entry_core :: "msg_entry \<Rightarrow> timespec \<times> ctmp_msg option" where
  "entry_core e = (timestamp e, msg e)"

lemma entitled_bytes_core:
  "map entry_core q = map entry_core q' \<Longrightarrow> entitled_bytes ts q = entitled_bytes ts q'"
proof (induction q arbitrary: q')
  case Nil
  then show ?case by simp
next
  case (Cons e q)
  then obtain e' r where q': "q' = e' # r" and e: "entry_core e = entry_core e'"
    and r: "map entry_core q = map entry_core r"
    by (cases q') auto
  from e have "timestamp e = timestamp e'" "msg e = msg e'" by (simp_all add: entry_core_def)
  with Cons.IH [OF r] show ?case
    by (simp add: q' entitled_bytes_def entry_bytes_def)
qed

lemma entry_core_update:
  assumes "msg e = msg (q ! c)" "timestamp e = timestamp (q ! c)" "c < length q"
  shows "map entry_core (q[c := e]) = map entry_core q"
proof -
  have "entry_core e = map entry_core q ! c" using assms by (simp add: entry_core_def)
  then show ?thesis by (simp add: map_update)
qed

lemma entitled_bytes_append [simp]:
  "entitled_bytes ts (q @ q') = entitled_bytes ts q @ entitled_bytes ts q'"
  by (simp add: entitled_bytes_def)

text \<open>Entries that differ only in who has sent them are worth the same bytes.\<close>

lemma entitled_bytes_update:
  assumes "msg e = msg (q ! c)" "timestamp e = timestamp (q ! c)" "c < length q"
  shows "entitled_bytes ts (take k (q[c := e])) = entitled_bytes ts (take k q)"
  by (intro entitled_bytes_core) (metis entry_core_update [OF assms] take_map)

section \<open>One iteration for a client that is alive and accepts data\<close>

definition healthy :: "client \<Rightarrow> bool" where
  "healthy c \<longleftrightarrow> is_alive (crx c) \<and> tx_clean (tx c)"

lemma forward_entry_ok:
  assumes "flag_pos i" "fresh_entry host i (d_queue st ! c)" "healthy (d_client st)"
  shows "\<exists>st' e. forward_entry i c st = Inr st' \<and> healthy (d_client st') \<and>
    wire (d_client st') = wire (d_client st) @ entry_bytes (d_queue st ! c) \<and>
    d_queue st' = (d_queue st)[c := e] \<and> msg e = msg (d_queue st ! c) \<and>
    timestamp e = timestamp (d_queue st ! c) \<and>
    d_bytes_sent st' = 0 \<and> d_current st' = d_current st \<and> d_ts st' = d_ts st \<and>
    d_open st' = d_open st"
proof -
  obtain m where m: "msg (d_queue st ! c) = Some m" "wf_msg host m" "sent (d_queue st ! c) \<noteq> None"
    using assms(2) by (auto simp: fresh_entry_def)
  obtain evs where evs: "send_ctmp_msg m (d_client st) =
      Inr (0, (d_client st)\<lparr>tx := evs, wire := wire (d_client st) @ msg_bytes m\<rparr>)" "tx_clean evs"
    using send_ctmp_msg_clean [OF m(2)] assms(3) by (auto simp: healthy_def)
  obtain e where "set_sent (d_queue st ! c) i True = Inr e" "msg e = msg (d_queue st ! c)"
      "timestamp e = timestamp (d_queue st ! c)"
    using set_sent_flags [OF assms(1) m(3)] by blast
  with m evs assms(3) show ?thesis
    by (auto simp: forward_entry_def entry_bytes_def healthy_def intro!: exI [of _ e])
qed

lemma worker_iter_ok:
  assumes "flag_pos i" "healthy (d_client st)" "\<not> d_bytes_sent st < 0"
    and "get_msg_entry (d_queue st) (d_current st) (d_prev st) False = Inr c" "c < length (d_queue st)"
    and "fresh_entry host i (d_queue st ! c)"
  shows "\<exists>st' e. worker_iter i st = Inr (False, st') \<and> healthy (d_client st') \<and>
    wire (d_client st') = wire (d_client st) @ entitled_bytes (d_ts st) [d_queue st ! c] \<and>
    d_queue st' = (d_queue st)[c := e] \<and> msg e = msg (d_queue st ! c) \<and>
    timestamp e = timestamp (d_queue st ! c) \<and>
    \<not> d_bytes_sent st' < 0 \<and> d_ts st' = d_ts st \<and> d_open st' = d_open st \<and>
    d_prev st' = Some c \<and> d_current st' = TAILQ_NEXT (d_queue st') c"
proof -
  let ?st1 = "st\<lparr>d_current := Some c\<rparr>" and ?e = "d_queue st ! c"
  have cf: "can_forward ?e i (d_ts st) = Inr (d_ts st < timestamp ?e)"
    using assms(1,6) by (simp add: can_forward_flags fresh_entry_def)
  have al: "is_alive (crx (d_client st))" using assms(2) by (simp add: healthy_def)
  show ?thesis
  proof (cases "d_ts st < timestamp ?e")
    case True
    obtain st' e where "forward_entry i c ?st1 = Inr st'" "healthy (d_client st')"
        "wire (d_client st') = wire (d_client st) @ entry_bytes ?e"
        "d_queue st' = (d_queue st)[c := e]" "msg e = msg ?e" "timestamp e = timestamp ?e"
        "d_bytes_sent st' = 0" "d_current st' = Some c" "d_ts st' = d_ts st" "d_open st' = d_open st"
      using forward_entry_ok [of i host ?st1 c] assms(1,2,6) by auto
    with True cf al assms(4) show ?thesis
      by (auto simp: worker_iter_def advance_def entitled_bytes_def intro!: exI [of _ e])
  next
    case False
    with cf al assms(2-4) show ?thesis
      by (auto simp: worker_iter_def advance_def entitled_bytes_def intro!: exI [of _ ?e])
  qed
qed

section \<open>Walking a growing queue\<close>

text \<open>
  The worker with its client and the source server that appends messages: in any order, a new
  message is appended or the worker does an iteration to the end of its loop body.
\<close>

inductive deliver_step :: "endian \<Rightarrow> int \<Rightarrow> dst_state \<Rightarrow> dst_state \<Rightarrow> bool" for host i where
  arrive: "fresh_entry host i e \<Longrightarrow>
     deliver_step host i st (st\<lparr>d_queue := TAILQ_INSERT_TAIL (d_queue st) e\<rparr>)"
| iterate: "worker_iter i st = Inr (False, st') \<Longrightarrow> deliver_step host i st st'"

inductive_cases deliver_stepE: "deliver_step host i st st'"

text \<open>The worker is about to process position \<open>k\<close>.\<close>

definition cursor_at :: "nat \<Rightarrow> dst_state \<Rightarrow> bool" where
  "cursor_at k st \<longleftrightarrow>
     (k = 0 \<and> d_current st = None \<and> d_prev st = None) \<or>
     (\<exists>p. k = Suc p \<and> p < length (d_queue st) \<and> d_prev st = Some p \<and>
        (d_current st = None \<or> d_current st = Some k \<and> k < length (d_queue st)))"

lemma cursor_at_le: "cursor_at k st \<Longrightarrow> k \<le> length (d_queue st)"
  by (auto simp: cursor_at_def)

lemma cursor_at_get:
  assumes "cursor_at k st"
  shows "get_msg_entry (d_queue st) (d_current st) (d_prev st) False =
    (if k < length (d_queue st) then Inr k else Inl Would_Block)"
  using assms
  by (auto simp: cursor_at_def get_msg_entry_def wait_until_def TAILQ_FIRST_def TAILQ_NEXT_def)

text \<open>
  The invariant: what has been put on the wire is what the client is entitled to among the entries
  before the worker's position, and the entries from there on have not been sent by it.
\<close>

definition delivered_upto :: "endian \<Rightarrow> int \<Rightarrow> byte list \<Rightarrow> timespec \<Rightarrow> nat \<Rightarrow> dst_state \<Rightarrow> bool" where
  "delivered_upto host i w0 ts k st \<longleftrightarrow>
     cursor_at k st \<and> healthy (d_client st) \<and> \<not> d_bytes_sent st < 0 \<and> d_ts st = ts \<and>
     wire (d_client st) = w0 @ entitled_bytes ts (take k (d_queue st)) \<and>
     (\<forall>j. k \<le> j \<longrightarrow> j < length (d_queue st) \<longrightarrow> fresh_entry host i (d_queue st ! j))"

lemma delivered_upto_iter:
  assumes "flag_pos i" "delivered_upto host i w0 ts k st" "k < length (d_queue st)"
  shows "\<exists>st'. worker_iter i st = Inr (False, st') \<and> delivered_upto host i w0 ts (Suc k) st' \<and>
    map entry_core (d_queue st') = map entry_core (d_queue st)"
proof -
  note inv = assms(2) [unfolded delivered_upto_def]
  obtain st' e where st': "worker_iter i st = Inr (False, st')" "healthy (d_client st')"
      "wire (d_client st') = wire (d_client st) @ entitled_bytes (d_ts st) [d_queue st ! k]"
      "d_queue st' = (d_queue st)[k := e]" "msg e = msg (d_queue st ! k)"
      "timestamp e = timestamp (d_queue st ! k)" "\<not> d_bytes_sent st' < 0" "d_ts st' = d_ts st"
      "d_prev st' = Some k" "d_current st' = TAILQ_NEXT (d_queue st') k"
    using worker_iter_ok [OF assms(1), of st k host] inv cursor_at_get [of k st] assms(3) by force
  have "cursor_at (Suc k) st'"
    using st'(4,9,10) assms(3) by (simp add: cursor_at_def TAILQ_NEXT_def)
  moreover have "entitled_bytes ts (take (Suc k) (d_queue st')) =
      entitled_bytes ts (take k (d_queue st)) @ entitled_bytes ts [d_queue st ! k]"
    using entitled_bytes_update [OF st'(5,6) assms(3), of ts "Suc k"] assms(3) st'(4)
    by (simp add: take_Suc_conv_app_nth)
  moreover have "map entry_core (d_queue st') = map entry_core (d_queue st)"
    using st'(4-6) assms(3) by (simp add: entry_core_update)
  ultimately show ?thesis
    using st' inv by (auto simp: delivered_upto_def)
qed

lemma delivered_upto_arrive:
  assumes "delivered_upto host i w0 ts k st" "fresh_entry host i e"
  shows "delivered_upto host i w0 ts k (st\<lparr>d_queue := TAILQ_INSERT_TAIL (d_queue st) e\<rparr>)"
proof -
  have "k \<le> length (d_queue st)"
    using assms(1) cursor_at_le by (auto simp: delivered_upto_def)
  then show ?thesis
    using assms by (auto simp: delivered_upto_def cursor_at_def TAILQ_INSERT_TAIL_def nth_append)
qed

lemma deliver_step_inv:
  assumes "deliver_step host i st st'" "flag_pos i" "delivered_upto host i w0 ts k st"
  shows "\<exists>k'. delivered_upto host i w0 ts k' st'"
proof -
  consider e where "fresh_entry host i e" "st' = st\<lparr>d_queue := TAILQ_INSERT_TAIL (d_queue st) e\<rparr>"
    | "worker_iter i st = Inr (False, st')"
    using assms(1) by (auto elim: deliver_stepE)
  then show ?thesis
  proof cases
    case 1
    then show ?thesis using delivered_upto_arrive [OF assms(3)] by blast
  next
    case 2
    have "k < length (d_queue st)"
    proof (rule ccontr)
      assume "\<not> k < length (d_queue st)"
      then have "get_msg_entry (d_queue st) (d_current st) (d_prev st) False = Inl Would_Block"
        using cursor_at_get [of k st] assms(3) by (simp add: delivered_upto_def)
      with 2 show False by (simp add: worker_iter_def)
    qed
    from delivered_upto_iter [OF assms(2,3) this] 2 show ?thesis by auto
  qed
qed

lemma deliver_steps_inv:
  assumes "(deliver_step host i)\<^sup>*\<^sup>* st st'" "flag_pos i" "delivered_upto host i w0 ts k st"
  shows "\<exists>k'. delivered_upto host i w0 ts k' st'"
  using assms(1,3)
proof (induction arbitrary: k rule: rtranclp_induct)
  case base
  then show ?case by blast
next
  case (step y z)
  then show ?case using deliver_step_inv [OF step.hyps(2) assms(2)] by blast
qed

lemma delivered_upto_init:
  assumes "\<forall>e \<in> set q. fresh_entry host i e" "healthy c"
  shows "delivered_upto host i (wire c) ts 0 (init_dst q c ts)"
  using assms by (simp add: delivered_upto_def init_dst_def cursor_at_def entitled_bytes_def)

text \<open>From any such state the worker catches up with the queue.\<close>

lemma delivered_upto_drain:
  assumes "flag_pos i" "delivered_upto host i w0 ts k st"
  shows "\<exists>st'. (deliver_step host i)\<^sup>*\<^sup>* st st' \<and>
    delivered_upto host i w0 ts (length (d_queue st)) st' \<and>
    map entry_core (d_queue st') = map entry_core (d_queue st)"
  using assms(2)
proof (induction "length (d_queue st) - k" arbitrary: k st)
  case 0
  then have "k = length (d_queue st)"
    using cursor_at_le by (auto simp: delivered_upto_def intro: le_antisym)
  with 0 show ?case by blast
next
  case (Suc n)
  then have "k < length (d_queue st)" by simp
  from delivered_upto_iter [OF assms(1) Suc.prems this] obtain st1 where
    st1: "worker_iter i st = Inr (False, st1)" "delivered_upto host i w0 ts (Suc k) st1"
      "map entry_core (d_queue st1) = map entry_core (d_queue st)" by blast
  then have l: "length (d_queue st1) = length (d_queue st)" by (metis length_map)
  have "deliver_step host i st st1" using st1(1) by (rule deliver_step.iterate)
  moreover have "n = length (d_queue st1) - Suc k" using Suc.hyps(2) l by simp
  ultimately show ?case
    using Suc.hyps(1) [OF _ st1(2)] st1(3) l by (metis converse_rtranclp_into_rtranclp)
qed

section \<open>Concrete states\<close>

definition t_sec :: "int \<Rightarrow> timespec" where
  "t_sec s = \<lparr>tv_sec = s, tv_nsec = 0\<rparr>"

definition live_client :: client where
  "live_client = \<lparr>crx = [Pending], tx = [Accept 3, Tx_Err EINTR], wire = []\<rparr>"

definition sample_entry :: "int \<Rightarrow> msg_entry" where
  "sample_entry s = \<lparr>timestamp = t_sec s, msg = Some sample_msg, sent = Some 0\<rparr>"

lemma fresh_sample_entry: "fresh_entry Little i (sample_entry s)"
  using wf_sample_msg by (simp add: fresh_entry_def sample_entry_def)

lemma healthy_live_client: "healthy live_client"
  by (simp add: healthy_def live_client_def tx_clean_def)

definition failed_state :: dst_state where
  "failed_state = \<lparr>d_queue = [sample_entry 1, sample_entry 2], d_current = Some 0, d_prev = None,
     d_next = Some 1, d_bytes_sent = - 32, d_client = live_client, d_ts = t_sec 0, d_open = False\<rparr>"

definition waiting_state :: dst_state where
  "waiting_state = \<lparr>d_queue = [sample_entry 1, sample_entry 5], d_current = None, d_prev = Some 0,
     d_next = None, d_bytes_sent = 0, d_client = \<lparr>crx = [], tx = [], wire = []\<rparr>, d_ts = t_sec 0,
     d_open = True\<rparr>"

section \<open>Properties\<close>

text \<open>
  However the arrival of messages is interleaved with the worker's iterations, what
  the client has been sent is, in order and without gaps or repetitions, the bytes of the messages
  that arrived after it connected, among the entries the worker has passed.
\<close>

lemma worker_sends_entitled_prefix:
  assumes "flag_pos i" and "\<forall>e \<in> set q. fresh_entry host i e" and "healthy c"
    and "(deliver_step host i)\<^sup>*\<^sup>* (init_dst q c ts) st"
  shows "\<exists>k \<le> length (d_queue st).
    wire (d_client st) = wire c @ entitled_bytes ts (take k (d_queue st)) \<and>
    (\<forall>j. k \<le> j \<longrightarrow> j < length (d_queue st) \<longrightarrow> i \<notin> sent_flags (d_queue st ! j))"
  using deliver_steps_inv [OF assms(4,1) delivered_upto_init [OF assms(2,3)]] cursor_at_le
  by (fastforce simp: delivered_upto_def fresh_entry_def)

lemma worker_sends_entitled_prefix_witness:
  "\<exists>st k. (deliver_step Little 0)\<^sup>*\<^sup>* (init_dst [sample_entry 1, sample_entry 5] live_client (t_sec 3)) st \<and>
    k \<le> length (d_queue st) \<and>
    wire (d_client st) = wire live_client @ entitled_bytes (t_sec 3) (take k (d_queue st))"
proof -
  let ?q = "[sample_entry 1, sample_entry 5]"
  have q: "\<forall>e \<in> set ?q. fresh_entry Little 0 e" by (simp add: fresh_sample_entry)
  obtain st where "(deliver_step Little 0)\<^sup>*\<^sup>* (init_dst ?q live_client (t_sec 3)) st"
    using delivered_upto_drain [OF _ delivered_upto_init [OF q healthy_live_client]]
    by (auto simp: flag_pos_def)
  with worker_sends_entitled_prefix [OF _ q healthy_live_client this] show ?thesis
    by (auto simp: flag_pos_def)
qed

text \<open>
  The worker always catches up: from every state it can reach there is a run of its
  iterations after which the client has been sent everything it is entitled to in the queue.
\<close>

lemma worker_catches_up:
  assumes "flag_pos i" and "\<forall>e \<in> set q. fresh_entry host i e" and "healthy c"
    and "(deliver_step host i)\<^sup>*\<^sup>* (init_dst q c ts) st"
  shows "\<exists>st'. (deliver_step host i)\<^sup>*\<^sup>* st st' \<and>
    wire (d_client st') = wire c @ entitled_bytes ts (d_queue st)"
proof -
  obtain k where "delivered_upto host i (wire c) ts k st"
    using deliver_steps_inv [OF assms(4,1) delivered_upto_init [OF assms(2,3)]] by blast
  from delivered_upto_drain [OF assms(1) this] obtain st' where
    st': "(deliver_step host i)\<^sup>*\<^sup>* st st'" "delivered_upto host i (wire c) ts (length (d_queue st)) st'"
      "map entry_core (d_queue st') = map entry_core (d_queue st)" by blast
  then have "length (d_queue st') = length (d_queue st)" by (metis length_map)
  with st' entitled_bytes_core [OF st'(3), of ts] show ?thesis
    by (auto simp: delivered_upto_def)
qed

lemma worker_catches_up_witness:
  "\<exists>st'. (deliver_step Little 0)\<^sup>*\<^sup>* (init_dst [sample_entry 1, sample_entry 5] live_client (t_sec 3)) st' \<and>
    wire (d_client st') = [0xCC, 0, 0, 2, 0, 0, 0, 0, 7, 9]"
proof -
  let ?q = "[sample_entry 1, sample_entry 5]"
  have q: "\<forall>e \<in> set ?q. fresh_entry Little 0 e" by (simp add: fresh_sample_entry)
  have b: "entitled_bytes (t_sec 3) ?q = msg_bytes sample_msg"
    by (simp add: entitled_bytes_def sample_entry_def t_sec_def less_timespec_ext_def
        less_eq_timespec_ext_def entry_bytes_def)
  show ?thesis
    using worker_catches_up [OF _ q healthy_live_client rtranclp.rtrancl_refl, of "t_sec 3"] b
    by (auto simp: flag_pos_def init_dst_def live_client_def msg_bytes_sample)
qed

text \<open>
  Property C33. An error of one client's \<open>send\<close> outlives that client: \<open>bytes_sent\<close> is not reset, so
  the worker closes the next client it is given as soon as it meets an entry it does not send to it,
  although nothing has failed on that client's connection.
\<close>

theorem stale_error_closes_next_client:
  assumes "d_bytes_sent st < 0" and "worker_resume i cl ts st = Inr st1"
    and "get_msg_entry (d_queue st1) (d_current st1) (d_prev st1) False = Inr c"
    and "is_alive (crx cl)" and "\<not> compare_times ts (timestamp (d_queue st1 ! c))"
  shows "\<exists>st2. worker_iter i st1 = Inr (True, st2) \<and> \<not> d_open st2 \<and> d_client st2 = cl"
proof -
  have "d_bytes_sent st1 < 0 \<and> d_client st1 = cl \<and> d_ts st1 = ts"
    using assms(1,2)
    by (auto simp: worker_resume_def advance_def Let_def fault_simps split: option.splits if_splits)
  with assms(3-5) show ?thesis
    by (auto simp: worker_iter_def can_forward_def close_client_def)
qed

theorem stale_error_closes_next_client_witness:
  "\<exists>st1 st2. worker_resume 0 live_client (t_sec 9) failed_state = Inr st1 \<and>
     worker_iter 0 st1 = Inr (True, st2) \<and> \<not> d_open st2"
proof -
  obtain e where e: "set_sent (sample_entry 1) 0 False = Inr e"
    using set_sent_flags [of 0 "sample_entry 1" False] by (auto simp: flag_pos_def sample_entry_def)
  let ?st1 = "failed_state\<lparr>d_client := live_client, d_ts := t_sec 9, d_open := True,
    d_queue := [e, sample_entry 2], d_prev := Some 0, d_current := Some 1\<rparr>"
  have r: "worker_resume 0 live_client (t_sec 9) failed_state = Inr ?st1"
    using e by (simp add: worker_resume_def failed_state_def advance_def sample_entry_def)
  show ?thesis
    using stale_error_closes_next_client [OF _ r, of 1] r
    by (auto simp: failed_state_def get_msg_entry_def live_client_def compare_times_def
        sample_entry_def t_sec_def)
qed

text \<open>
  A worker that reaches an entry its client is entitled to after the cleanup worker has
  freed the entry's data follows a null pointer: the time stamp check does not exclude such entries.
\<close>

lemma freed_entry_null_deref:
  assumes "get_msg_entry (d_queue st) (d_current st) (d_prev st) False = Inr c"
    and "is_alive (crx (d_client st))" and "compare_times (d_ts st) (timestamp e)"
    and "d_queue st ! c = free_msg_data e"
  shows "worker_iter i st = Inl Null_Deref"
  using assms by (simp add: worker_iter_def can_forward_def is_sent_def free_msg_data_def)

lemma freed_entry_null_deref_witness:
  "worker_iter 3 (init_dst [free_msg_data (sample_entry 5)] live_client (t_sec 1)) = Inl Null_Deref"
  by (rule freed_entry_null_deref [where c = 0 and e = "sample_entry 5"])
    (simp_all add: init_dst_def get_msg_entry_def wait_until_def TAILQ_FIRST_def live_client_def
      compare_times_def sample_entry_def t_sec_def)

text \<open>
  A worker that was waiting for the next entry and then finds its client gone drops
  that entry: \<open>next\<close> has not been assigned, so after it has been given another client it waits for the
  entry after it, even if that client connected before the entry arrived.
\<close>

lemma hangup_skips_entry:
  assumes "d_current st = None" and "d_prev st = Some p" and "d_next st = None"
    and "Suc p < length (d_queue st)" and "\<not> is_alive (crx (d_client st))"
    and "flag_pos i"
  shows "\<exists>st1 st2. worker_iter i st = Inr (True, st1) \<and> worker_resume i cl ts st1 = Inr st2 \<and>
    d_client st2 = cl \<and> d_current st2 = None \<and> d_prev st2 = Some (Suc p)"
proof -
  let ?st1 = "close_client (st\<lparr>d_current := Some (Suc p)\<rparr>)"
  have 1: "worker_iter i st = Inr (True, ?st1)"
    using assms(1-5) by (auto simp: worker_iter_def get_msg_entry_def wait_until_def TAILQ_NEXT_def)
  have "\<exists>st2. worker_resume i cl ts ?st1 = Inr st2 \<and> d_client st2 = cl \<and> d_current st2 = None \<and>
      d_prev st2 = Some (Suc p)"
  proof (cases "sent (d_queue st ! Suc p) = None")
    case True
    with assms(3) show ?thesis by (simp add: worker_resume_def close_client_def advance_def)
  next
    case False
    obtain e where "set_sent (d_queue st ! Suc p) i False = Inr e"
      using set_sent_flags [OF assms(6) False] by blast
    with False assms(3) show ?thesis by (simp add: worker_resume_def close_client_def advance_def)
  qed
  with 1 show ?thesis by blast
qed

lemma hangup_skips_entry_witness:
  "\<exists>st1 st2. worker_iter 0 waiting_state = Inr (True, st1) \<and>
    worker_resume 0 live_client (t_sec 3) st1 = Inr st2 \<and> d_prev st2 = Some 1 \<and> d_current st2 = None"
  using hangup_skips_entry [of waiting_state 0 0 live_client "t_sec 3"]
  by (auto simp: waiting_state_def flag_pos_def)

end
