(* ===== verification/Worker_Phases.thy ===== *)
theory Worker_Phases
  imports Dst_Worker
begin

text \<open>
  The loop of \<open>run_dst_worker\<close> in \<^verbatim>\<open>ws_server.c\<close>, one access to the queue or to an entry at a time, for runs
  in which other threads come in between. A phase is a place in the loop; \<open>wstep\<close> is what the worker
  does there. Without interruption the phases amount to \<open>worker_iter\<close>.
\<close>

section \<open>The code\<close>

text \<open>
  In \<open>send_ctmp_msg\<close> the header is sent first; the pointer to the message is used again for the data.
\<close>

datatype phase =
    P_Get | P_Alive | P_Time | P_Flag | P_Header | P_Data ctmp_msg | P_Mark | P_Next
  | P_Hangup | P_Wait | P_Reset | P_Write | P_Advance

record wlocal =
  ph :: phase
  cur :: "nat option"
  prv :: "nat option"
  nxt :: "nat option"
  bsent :: int
  wcl :: client
  wts :: timespec

definition init_local :: "client \<Rightarrow> timespec \<Rightarrow> wlocal" where
  "init_local cl ts =
     \<lparr>ph = P_Get, cur = None, prv = None, nxt = None, bsent = 0, wcl = cl, wts = ts\<rparr>"

text \<open>Following a pointer to an entry.\<close>

definition entry_at :: "queue \<Rightarrow> nat option \<Rightarrow> fault + nat \<times> msg_entry" where
  "entry_at q p =
     (case p of None \<Rightarrow> Inl Null_Deref
      | Some c \<Rightarrow> if c < length q then Inr (c, q ! c) else Inl Out_Of_Bounds)"

fun wstep_at :: "phase \<Rightarrow> int \<Rightarrow> queue \<Rightarrow> wlocal \<Rightarrow> fault + queue \<times> wlocal" where
  "wstep_at P_Get i q l =
     bindF (get_msg_entry q (cur l) (prv l) False) (\<lambda>c. Inr (q, l\<lparr>cur := Some c, ph := P_Alive\<rparr>))"
| "wstep_at P_Alive i q l =
     Inr (q, l\<lparr>ph := (if is_alive (crx (wcl l)) then P_Time else P_Hangup)\<rparr>)"
| "wstep_at P_Time i q l =
     bindF (entry_at q (cur l)) (\<lambda>(c, e).
       Inr (q, l\<lparr>ph := (if compare_times (wts l) (timestamp e) then P_Flag else P_Next)\<rparr>))"
| "wstep_at P_Flag i q l =
     bindF (entry_at q (cur l)) (\<lambda>(c, e).
     bindF (is_sent e i) (\<lambda>b. Inr (q, l\<lparr>ph := (if \<not> b then P_Header else P_Next)\<rparr>)))"
| "wstep_at P_Header i q l =
     bindF (entry_at q (cur l)) (\<lambda>(c, e).
       case msg e of
         None \<Rightarrow> Inl Null_Deref
       | Some m \<Rightarrow>
           (case send_msg (header m) (wcl l) of
              (res, cl) \<Rightarrow>
                if res < 0 then Inr (q, l\<lparr>wcl := cl, bsent := res, ph := P_Mark\<rparr>)
                else Inr (q, l\<lparr>wcl := cl, ph := P_Data m\<rparr>)))"
| "wstep_at (P_Data m) i q l =
     bindF (entry_at q (cur l)) (\<lambda>(c, e).
       if msg e = None then Inl Use_After_Free
       else case data m of
         None \<Rightarrow> Inl Null_Deref
       | Some buf \<Rightarrow>
           if length buf < unat (len m) then Inl Out_Of_Bounds
           else (case send_msg (take (unat (len m)) buf) (wcl l) of
                   (res, cl) \<Rightarrow> Inr (q, l\<lparr>wcl := cl, bsent := res, ph := P_Mark\<rparr>)))"
| "wstep_at P_Mark i q l =
     bindF (entry_at q (cur l)) (\<lambda>(c, e).
     bindF (set_sent e i True) (\<lambda>e'. Inr (q[c := e'], l\<lparr>ph := P_Next\<rparr>)))"
| "wstep_at P_Next i q l =
     bindF (entry_at q (cur l)) (\<lambda>(c, e).
       Inr (q, l\<lparr>nxt := TAILQ_NEXT q c, ph := (if bsent l < 0 then P_Hangup else P_Advance)\<rparr>))"
| "wstep_at P_Hangup i q l = Inr (q, l\<lparr>ph := P_Wait\<rparr>)"
| "wstep_at P_Wait i q l = Inl Would_Block"
| "wstep_at P_Reset i q l =
     bindF (entry_at q (cur l)) (\<lambda>(c, e).
       Inr (q, l\<lparr>ph := (if sent e \<noteq> None then P_Write else P_Advance)\<rparr>))"
| "wstep_at P_Write i q l =
     bindF (entry_at q (cur l)) (\<lambda>(c, e).
     bindF (set_sent e i False) (\<lambda>e'. Inr (q[c := e'], l\<lparr>ph := P_Advance\<rparr>)))"
| "wstep_at P_Advance i q l = Inr (q, l\<lparr>prv := cur l, cur := nxt l, ph := P_Get\<rparr>)"

definition wstep :: "int \<Rightarrow> queue \<Rightarrow> wlocal \<Rightarrow> fault + queue \<times> wlocal" where
  "wstep i q l = wstep_at (ph l) i q l"

text \<open>What the destination server hands to a worker that waits.\<close>

definition assign :: "client \<Rightarrow> timespec \<Rightarrow> wlocal \<Rightarrow> wlocal" where
  "assign cl ts l = l\<lparr>wcl := cl, wts := ts, ph := P_Reset\<rparr>"

section \<open>Without interruption\<close>

fun wsteps :: "nat \<Rightarrow> int \<Rightarrow> queue \<Rightarrow> wlocal \<Rightarrow> fault + queue \<times> wlocal" where
  "wsteps 0 i q l = Inr (q, l)"
| "wsteps (Suc k) i q l = bindF (wstep i q l) (\<lambda>(q', l'). wsteps k i q' l')"

text \<open>The state of \<open>worker_iter\<close>.\<close>

definition whole :: "queue \<Rightarrow> wlocal \<Rightarrow> dst_state" where
  "whole q l =
     \<lparr>d_queue = q, d_current = cur l, d_prev = prv l, d_next = nxt l, d_bytes_sent = bsent l,
      d_client = wcl l, d_ts = wts l, d_open = (ph l \<noteq> P_Wait)\<rparr>"

definition cursor_in :: "queue \<Rightarrow> wlocal \<Rightarrow> bool" where
  "cursor_in q l \<longleftrightarrow> (\<forall>c. cur l = Some c \<longrightarrow> c < length q) \<and> (\<forall>p. prv l = Some p \<longrightarrow> p < length q)"

lemma get_in_range:
  "cursor_in q l \<Longrightarrow> get_msg_entry q (cur l) (prv l) False = Inr c \<Longrightarrow> c < length q"
  by (auto simp: get_msg_entry_def cursor_in_def wait_until_def TAILQ_FIRST_def TAILQ_NEXT_def
      split: if_splits option.splits)

definition reaches :: "int \<Rightarrow> queue \<Rightarrow> wlocal \<Rightarrow> fault + queue \<times> wlocal \<Rightarrow> bool" where
  "reaches i q l r \<longleftrightarrow> (\<exists>k. wsteps k i q l = r)"

lemma reaches_refl: "reaches i q l (Inr (q, l))"
  unfolding reaches_def by (rule exI [of _ 0]) simp

lemma reaches_fault: "wstep i q l = Inl f \<Longrightarrow> reaches i q l (Inl f)"
  unfolding reaches_def by (rule exI [of _ 1]) simp

lemma reaches_step: "wstep i q l = Inr (q', l') \<Longrightarrow> reaches i q' l' r \<Longrightarrow> reaches i q l r"
  unfolding reaches_def
proof (elim exE)
  fix k assume "wstep i q l = Inr (q', l')" "wsteps k i q' l' = r"
  then show "\<exists>k. wsteps k i q l = r" by (intro exI [of _ "Suc k"]) simp
qed

text \<open>The result of the whole iteration, as what the phases reach.\<close>

definition same_result ::
  "int \<Rightarrow> queue \<Rightarrow> wlocal \<Rightarrow> fault + bool \<times> dst_state \<Rightarrow> bool" where
  "same_result i q l r \<longleftrightarrow>
     (case r of
        Inl f \<Rightarrow> reaches i q l (Inl f)
      | Inr (closed, st) \<Rightarrow> \<exists>q' l'. reaches i q l (Inr (q', l')) \<and> whole q' l' = st \<and>
          ph l' = (if closed then P_Wait else P_Get))"

lemma same_step:
  assumes "wstep i q l = Inr (q', l')" "same_result i q' l' r"
  shows "same_result i q l r"
proof (cases r)
  case (Inl f)
  with assms reaches_step show ?thesis by (simp add: same_result_def)
next
  case (Inr p)
  with assms(2) obtain q2 l2 where "reaches i q' l' (Inr (q2, l2))" "whole q2 l2 = snd p"
      "ph l2 = (if fst p then P_Wait else P_Get)"
    by (auto simp: same_result_def split_beta)
  with Inr reaches_step [OF assms(1)] show ?thesis
    by (fastforce simp: same_result_def split_beta)
qed

text \<open>The end of an iteration whose entry is at \<open>c\<close>, as in \<open>worker_iter\<close>.\<close>

definition iter_end :: "nat \<Rightarrow> dst_state \<Rightarrow> fault + bool \<times> dst_state" where
  "iter_end c =
     (\<lambda>st. let st3 = st\<lparr>d_next := TAILQ_NEXT (d_queue st) c\<rparr> in
      if d_bytes_sent st3 < 0 then Inr (True, close_client st3) else Inr (False, advance st3))"

lemma same_fault: "wstep i q l = Inl f \<Longrightarrow> same_result i q l (Inl f)"
  by (simp add: same_result_def reaches_fault)

lemma same_hangup:
  assumes "ph l = P_Hangup"
  shows "same_result i q l (Inr (True, close_client (whole q l)))"
proof -
  have "wstep i q l = Inr (q, l\<lparr>ph := P_Wait\<rparr>)" using assms by (simp add: wstep_def)
  then show ?thesis
    using reaches_step [OF _ reaches_refl]
    by (fastforce simp: same_result_def whole_def close_client_def)
qed

lemma same_next:
  assumes "ph l = P_Next" "cur l = Some c" "c < length q"
  shows "same_result i q l (iter_end c (whole q l))"
proof -
  let ?l = "l\<lparr>nxt := TAILQ_NEXT q c, ph := (if bsent l < 0 then P_Hangup else P_Advance)\<rparr>"
  have s: "wstep i q l = Inr (q, ?l)" using assms by (simp add: wstep_def entry_at_def)
  show ?thesis
  proof (cases "bsent l < 0")
    case True
    then show ?thesis
      using same_step [OF s, OF same_hangup] assms(1)
      by (simp add: whole_def close_client_def iter_end_def)
  next
    case False
    let ?l2 = "?l\<lparr>prv := cur ?l, cur := nxt ?l, ph := P_Get\<rparr>"
    have "wstep i q ?l = Inr (q, ?l2)" using False by (simp add: wstep_def)
    then have "reaches i q l (Inr (q, ?l2))" using reaches_step [OF s] reaches_step reaches_refl by blast
    moreover have "whole q ?l2 = advance (whole q l\<lparr>d_next := TAILQ_NEXT q c\<rparr>)"
      using assms(1) by (simp add: whole_def advance_def)
    ultimately show ?thesis
      using False
      by (auto simp: same_result_def iter_end_def whole_def intro!: exI [of _ q] exI [of _ ?l2])
  qed
qed

text \<open>From the decision to forward on.\<close>

lemma same_mark:
  assumes "ph l = P_Mark" "cur l = Some c" "c < length q"
  shows "same_result i q l
    (bindF (set_sent (q ! c) i True) (\<lambda>e. iter_end c ((whole q l)\<lparr>d_queue := q[c := e]\<rparr>)))"
proof (cases "set_sent (q ! c) i True")
  case (Inl f)
  then show ?thesis using assms by (simp add: same_fault wstep_def entry_at_def)
next
  case (Inr e)
  let ?l = "l\<lparr>ph := P_Next\<rparr>"
  have s: "wstep i q l = Inr (q[c := e], ?l)"
    using assms Inr by (simp add: wstep_def entry_at_def)
  have "whole (q[c := e]) ?l = (whole q l)\<lparr>d_queue := q[c := e]\<rparr>"
    using assms(1) by (simp add: whole_def)
  with Inr same_step [OF s same_next [of ?l c]] assms(2,3) show ?thesis by simp
qed

lemma same_forward:
  assumes "ph l = P_Header" "cur l = Some c" "c < length q"
  shows "same_result i q l (bindF (forward_entry i c (whole q l)) (iter_end c))"
proof (cases "msg (q ! c)")
  case None
  then show ?thesis
    using assms by (simp add: same_fault wstep_def entry_at_def forward_entry_def whole_def)
next
  case (Some m)
  obtain r1 c1 where h: "send_msg (header m) (wcl l) = (r1, c1)" by fastforce
  have marked: "same_result i q (l\<lparr>wcl := cl, bsent := r, ph := P_Mark\<rparr>)
      (bindF (forward_entry i c (whole q l)) (iter_end c))"
    if "send_ctmp_msg m (wcl l) = Inr (r, cl)" for r cl
    using same_mark [of "l\<lparr>wcl := cl, bsent := r, ph := P_Mark\<rparr>" c q i] assms Some that
    by (simp add: forward_entry_def whole_def bindF_assoc)
  show ?thesis
  proof (cases "r1 < 0")
    case True
    then have s: "wstep i q l = Inr (q, l\<lparr>wcl := c1, bsent := r1, ph := P_Mark\<rparr>)"
      using assms Some h by (simp add: wstep_def entry_at_def)
    have "send_ctmp_msg m (wcl l) = Inr (r1, c1)" using h True by (simp add: send_ctmp_msg_def)
    with same_step [OF s] marked show ?thesis by blast
  next
    case False
    let ?l = "l\<lparr>wcl := c1, ph := P_Data m\<rparr>"
    have s: "wstep i q l = Inr (q, ?l)" using assms Some h False by (simp add: wstep_def entry_at_def)
    show ?thesis
    proof (cases "send_ctmp_msg m (wcl l)")
      case (Inl f)
      then have "wstep i q ?l = Inl f"
        using assms Some h False
        by (auto simp: wstep_def entry_at_def send_ctmp_msg_def split: option.splits if_splits prod.splits)
      from same_step [OF s same_fault [OF this]] show ?thesis
        using Some Inl by (simp add: forward_entry_def whole_def)
    next
      case (Inr p)
      then obtain r cl where p: "send_ctmp_msg m (wcl l) = Inr (r, cl)" by (cases p) simp
      then have "wstep i q ?l = Inr (q, l\<lparr>wcl := cl, bsent := r, ph := P_Mark\<rparr>)"
        using assms Some h False
        by (auto simp: wstep_def entry_at_def send_ctmp_msg_def split: option.splits if_splits prod.splits)
      from same_step [OF s same_step [OF this marked [OF p]]] show ?thesis .
    qed
  qed
qed

lemma worker_iter_end:
  "worker_iter i st =
     bindF (get_msg_entry (d_queue st) (d_current st) (d_prev st) False) (\<lambda>c.
       let st1 = st\<lparr>d_current := Some c\<rparr> in
       if \<not> is_alive (crx (d_client st1)) then Inr (True, close_client st1)
       else
         bindF (can_forward (d_queue st1 ! c) i (d_ts st1)) (\<lambda>fwd.
         bindF (if fwd then forward_entry i c st1 else Inr st1) (iter_end c)))"
  unfolding worker_iter_def iter_end_def by (rule refl)

lemma same_alive:
  assumes "ph l = P_Alive" "cur l = Some c" "c < length q"
  shows "same_result i q l
    (if \<not> is_alive (crx (wcl l)) then Inr (True, close_client (whole q l))
     else bindF (can_forward (q ! c) i (wts l)) (\<lambda>fwd.
          bindF (if fwd then forward_entry i c (whole q l) else Inr (whole q l)) (iter_end c)))"
proof (cases "is_alive (crx (wcl l))")
  case False
  then have s: "wstep i q l = Inr (q, l\<lparr>ph := P_Hangup\<rparr>)" using assms by (simp add: wstep_def)
  from same_step [OF s same_hangup] False assms(1) show ?thesis by (simp add: whole_def)
next
  case alive: True
  have w: "whole q (l\<lparr>ph := p\<rparr>) = whole q l" if "p \<noteq> P_Wait" for p
    using that assms(1) by (simp add: whole_def)
  have nx: "same_result i q (l\<lparr>ph := P_Next\<rparr>) (iter_end c (whole q l))"
    using same_next [of "l\<lparr>ph := P_Next\<rparr>" c q i] assms(2,3) w by simp
  have s: "wstep i q l = Inr (q, l\<lparr>ph := P_Time\<rparr>)" using assms alive by (simp add: wstep_def)
  show ?thesis
  proof (cases "compare_times (wts l) (timestamp (q ! c))")
    case False
    have "wstep i q (l\<lparr>ph := P_Time\<rparr>) = Inr (q, l\<lparr>ph := P_Next\<rparr>)"
      using assms False by (simp add: wstep_def entry_at_def)
    from same_step [OF s same_step [OF this nx]] alive False show ?thesis
      by (simp add: can_forward_def)
  next
    case True
    have t: "wstep i q (l\<lparr>ph := P_Time\<rparr>) = Inr (q, l\<lparr>ph := P_Flag\<rparr>)"
      using assms True by (simp add: wstep_def entry_at_def)
    show ?thesis
    proof (cases "is_sent (q ! c) i")
      case (Inl f)
      then have "wstep i q (l\<lparr>ph := P_Flag\<rparr>) = Inl f" using assms by (simp add: wstep_def entry_at_def)
      from same_step [OF s same_step [OF t same_fault [OF this]]] Inl True alive show ?thesis
        by (simp add: can_forward_def)
    next
      case (Inr b)
      then have f: "wstep i q (l\<lparr>ph := P_Flag\<rparr>) = Inr (q, l\<lparr>ph := (if \<not> b then P_Header else P_Next)\<rparr>)"
        using assms by (simp add: wstep_def entry_at_def)
      show ?thesis
      proof (cases b)
        case b: True
        with same_step [OF s same_step [OF t same_step [OF f]]] nx Inr True alive show ?thesis
          by (simp add: can_forward_def)
      next
        case b: False
        have "same_result i q (l\<lparr>ph := P_Header\<rparr>) (bindF (forward_entry i c (whole q l)) (iter_end c))"
          using same_forward [of "l\<lparr>ph := P_Header\<rparr>" c q i] assms(2,3) w by simp
        with same_step [OF s same_step [OF t same_step [OF f]]] b Inr True alive show ?thesis
          by (simp add: can_forward_def)
      qed
    qed
  qed
qed

lemma same_iter:
  assumes "ph l = P_Get" "cursor_in q l"
  shows "same_result i q l (worker_iter i (whole q l))"
proof (cases "get_msg_entry q (cur l) (prv l) False")
  case (Inl f)
  then show ?thesis
    using assms(1) same_fault [of i q l f] by (simp add: wstep_def worker_iter_def whole_def)
next
  case (Inr c)
  let ?l = "l\<lparr>cur := Some c, ph := P_Alive\<rparr>"
  have s: "wstep i q l = Inr (q, ?l)" using assms(1) Inr by (simp add: wstep_def)
  have c: "c < length q" by (rule get_in_range [OF assms(2) Inr])
  have w: "whole q ?l = (whole q l)\<lparr>d_current := Some c\<rparr>" using assms(1) by (simp add: whole_def)
  have "worker_iter i (whole q l) =
      (if \<not> is_alive (crx (wcl ?l)) then Inr (True, close_client (whole q ?l))
       else bindF (can_forward (q ! c) i (wts ?l)) (\<lambda>fwd.
            bindF (if fwd then forward_entry i c (whole q ?l) else Inr (whole q ?l)) (iter_end c)))"
    using Inr unfolding w worker_iter_end by (simp add: whole_def Let_def cong: if_cong)
  then show ?thesis using same_step [OF s same_alive [of ?l c]] c by simp
qed

lemma same_advance:
  assumes "ph l = P_Advance"
  shows "same_result i q l (Inr (False, advance (whole q l)))"
proof -
  let ?l = "l\<lparr>prv := cur l, cur := nxt l, ph := P_Get\<rparr>"
  have "wstep i q l = Inr (q, ?l)" using assms by (simp add: wstep_def)
  moreover have "whole q ?l = advance (whole q l)" using assms by (simp add: whole_def advance_def)
  ultimately show ?thesis
    using reaches_step [OF _ reaches_refl, of i q l q ?l]
    by (auto simp: same_result_def intro!: exI [of _ q] exI [of _ ?l])
qed

section \<open>Properties\<close>

text \<open>
  Property C20. The phases are the loop of the worker cut at its accesses to shared data: without
  interruption they run from the top of the loop to the state, or to the fault, that an iteration
  ends in, whether the iteration sends, skips the entry, fails or finds its client gone.
\<close>

theorem phases_are_worker_iter:
  assumes "ph l = P_Get" and "cursor_in q l"
  shows "case worker_iter i (whole q l) of
      Inl f \<Rightarrow> \<exists>k. wsteps k i q l = Inl f
    | Inr (closed, st) \<Rightarrow> \<exists>k q' l'. wsteps k i q l = Inr (q', l') \<and> whole q' l' = st \<and>
        ph l' = (if closed then P_Wait else P_Get)"
  using same_iter [OF assms, of i]
  by (auto simp: same_result_def reaches_def split: sum.splits) blast+

theorem phases_are_worker_iter_witness:
  "\<exists>k q' l'. wsteps k 0 [sample_entry 1, sample_entry 5] (init_local live_client (t_sec 3)) = Inr (q', l') \<and>
     whole q' l' = \<lparr>d_queue = [sample_entry 1, sample_entry 5], d_current = Some 1, d_prev = Some 0,
       d_next = Some 1, d_bytes_sent = 0, d_client = live_client, d_ts = t_sec 3, d_open = True\<rparr>"
  using phases_are_worker_iter [of "init_local live_client (t_sec 3)" "[sample_entry 1, sample_entry 5]" 0]
  by (simp add: init_local_def cursor_in_def whole_def worker_iter_def get_msg_entry_def wait_until_def
      TAILQ_FIRST_def TAILQ_NEXT_def live_client_def can_forward_def compare_times_def sample_entry_def
      t_sec_def advance_def) blast

text \<open>
  Likewise from the moment the worker is given another client to the end of the loop body.
\<close>

lemma phases_are_worker_resume:
  assumes "ph l = P_Wait" "cur l = Some c" "c < length q"
  shows "same_result i q (assign cl ts l)
    (bindF (worker_resume i cl ts (whole q l)) (\<lambda>st. Inr (False, st)))"
proof -
  let ?l = "assign cl ts l"
  have w: "whole q (?l\<lparr>ph := p\<rparr>) = (whole q l)\<lparr>d_client := cl, d_ts := ts, d_open := True\<rparr>"
    if "p \<noteq> P_Wait" for p
    using that by (simp add: whole_def assign_def)
  show ?thesis
  proof (cases "sent (q ! c) = None")
    case True
    then have s: "wstep i q ?l = Inr (q, ?l\<lparr>ph := P_Advance\<rparr>)"
      using assms by (simp add: wstep_def assign_def entry_at_def)
    from same_step [OF s same_advance] True assms(2) w [of P_Advance] show ?thesis
      by (simp add: worker_resume_def Let_def whole_def)
  next
    case False
    then have s: "wstep i q ?l = Inr (q, ?l\<lparr>ph := P_Write\<rparr>)"
      using assms by (simp add: wstep_def assign_def entry_at_def)
    show ?thesis
    proof (cases "set_sent (q ! c) i False")
      case (Inl f)
      then have "wstep i q (?l\<lparr>ph := P_Write\<rparr>) = Inl f"
        using assms by (simp add: wstep_def assign_def entry_at_def)
      from same_step [OF s same_fault [OF this]] Inl False assms(2) show ?thesis
        by (simp add: worker_resume_def Let_def whole_def)
    next
      case (Inr e)
      then have "wstep i q (?l\<lparr>ph := P_Write\<rparr>) = Inr (q[c := e], ?l\<lparr>ph := P_Advance\<rparr>)"
        using assms by (simp add: wstep_def assign_def entry_at_def)
      from same_step [OF s same_step [OF this same_advance]] Inr False assms(2) w [of P_Advance]
      show ?thesis
        by (simp add: worker_resume_def Let_def whole_def assign_def)
    qed
  qed
qed

end
