(* ===== verification/Cleanup.thy ===== *)
theory Cleanup
  imports Dst_Worker
begin

text \<open>
  The cleanup worker, \<open>run_cleanup_worker\<close> of \<^verbatim>\<open>ws_server.c\<close>: it walks the queue, frees the data of
  entries whose time to live has passed and, at the end of the queue, waits for another entry and
  starts again from the first. Entries stay in the queue; only their message and bitmask are freed.
\<close>

section \<open>The code\<close>

record cleanup_state =
  c_queue :: queue
  c_current :: "nat option"
  c_prev :: "nat option"

text \<open>\<open>compare_times(&msg_plus_ttl, &now)\<close>.\<close>

definition expired :: "int \<Rightarrow> timespec \<Rightarrow> msg_entry \<Rightarrow> bool" where
  "expired ttl now e = compare_times (add_secs (timestamp e) ttl) now"

text \<open>The body of the loop on the entry it has got; \<open>now\<close> is the clock reading it takes.\<close>

definition cleanup_entry :: "int \<Rightarrow> timespec \<Rightarrow> msg_entry \<Rightarrow> msg_entry" where
  "cleanup_entry ttl now e =
     (if msg e \<noteq> None then (if expired ttl now e then free_msg_data e else e) else e)"

definition cleanup_iter :: "int \<Rightarrow> timespec \<Rightarrow> cleanup_state \<Rightarrow> fault + cleanup_state" where
  "cleanup_iter ttl now st =
     bindF (get_msg_entry (c_queue st) (c_current st) (c_prev st) True) (\<lambda>c.
       if c < length (c_queue st)
       then let q' = (c_queue st)[c := cleanup_entry ttl now (c_queue st ! c)] in
            Inr (st\<lparr>c_queue := q', c_prev := Some c, c_current := TAILQ_NEXT q' c\<rparr>)
       else Inl Out_Of_Bounds)"

text \<open>\<open>n\<close> iterations, the \<open>j\<close>-th of which reads the clock as \<open>clock j\<close>.\<close>

fun cleanup_iters :: "int \<Rightarrow> (nat \<Rightarrow> timespec) \<Rightarrow> nat \<Rightarrow> cleanup_state \<Rightarrow> fault + cleanup_state" where
  "cleanup_iters ttl clock 0 st = Inr st"
| "cleanup_iters ttl clock (Suc n) st =
     bindF (cleanup_iter ttl (clock 0) st) (cleanup_iters ttl (\<lambda>j. clock (Suc j)) n)"

section \<open>One pass over the queue\<close>

lemma cleanup_entry_timestamp [simp]: "timestamp (cleanup_entry ttl now e) = timestamp e"
  by (simp add: cleanup_entry_def free_msg_data_def)

text \<open>The worker is at position \<open>k\<close> of its pass.\<close>

definition pass_at :: "nat \<Rightarrow> cleanup_state \<Rightarrow> bool" where
  "pass_at k st \<longleftrightarrow> (k = 0 \<and> c_current st = None \<and> c_prev st = None) \<or>
     (k < length (c_queue st) \<and> c_current st = Some k)"

lemma cleanup_iter_at:
  assumes "pass_at k st" "k < length (c_queue st)"
  shows "cleanup_iter ttl now st = Inr (st\<lparr>
    c_queue := (c_queue st)[k := cleanup_entry ttl now (c_queue st ! k)], c_prev := Some k,
    c_current := (if Suc k < length (c_queue st) then Some (Suc k) else None)\<rparr>)"
proof -
  have "get_msg_entry (c_queue st) (c_current st) (c_prev st) True = Inr k"
    using assms by (auto simp: pass_at_def get_msg_entry_def wait_until_def TAILQ_FIRST_def)
  with assms(2) show ?thesis
    by (simp add: cleanup_iter_def TAILQ_NEXT_def Let_def)
qed

text \<open>The entries from position \<open>k\<close> on, each treated at its own clock reading.\<close>

lemma cleanup_iters_pass:
  assumes "pass_at k st" "k + n = length (c_queue st)" "0 < n"
  shows "\<exists>st'. cleanup_iters ttl clock n st = Inr st' \<and>
    c_queue st' = take k (c_queue st) @
      map2 (\<lambda>j e. cleanup_entry ttl (clock j) e) [0..<n] (drop k (c_queue st)) \<and>
    c_current st' = None \<and> c_prev st' = Some (length (c_queue st) - 1)"
  using assms
proof (induction n arbitrary: k st clock)
  case 0
  then show ?case by simp
next
  case (Suc n)
  let ?q = "(c_queue st)[k := cleanup_entry ttl (clock 0) (c_queue st ! k)]"
  let ?st = "st\<lparr>c_queue := ?q, c_prev := Some k,
    c_current := (if Suc k < length (c_queue st) then Some (Suc k) else None)\<rparr>"
  have k: "k < length (c_queue st)" using Suc.prems by simp
  have it: "cleanup_iter ttl (clock 0) st = Inr ?st"
    by (rule cleanup_iter_at [OF Suc.prems(1) k])
  have d: "drop k (c_queue st) = c_queue st ! k # drop (Suc k) (c_queue st)"
    using k by (simp add: Cons_nth_drop_Suc)
  have q: "?q = take k (c_queue st) @ cleanup_entry ttl (clock 0) (c_queue st ! k) # drop (Suc k) (c_queue st)"
    using k by (simp add: upd_conv_take_nth_drop)
  show ?case
  proof (cases n)
    case 0
    with Suc.prems it d q k show ?thesis by simp
  next
    case (Suc m)
    have "pass_at (Suc k) ?st" "Suc k + n = length (c_queue ?st)"
      using Suc.prems Suc by (simp_all add: pass_at_def)
    then obtain st' where st': "cleanup_iters ttl (\<lambda>j. clock (Suc j)) n ?st = Inr st'"
        "c_queue st' = take (Suc k) ?q @
           map2 (\<lambda>j e. cleanup_entry ttl (clock (Suc j)) e) [0..<n] (drop (Suc k) ?q)"
        "c_current st' = None" "c_prev st' = Some (length (c_queue st) - 1)"
      using Suc.IH [of "Suc k" ?st "\<lambda>j. clock (Suc j)"] Suc by auto
    have m: "map2 (\<lambda>j e. cleanup_entry ttl (clock j) e) [0..<Suc n] (x # xs) =
        cleanup_entry ttl (clock 0) x # map2 (\<lambda>j e. cleanup_entry ttl (clock (Suc j)) e) [0..<n] xs" for x xs
      by (simp add: upt_conv_Cons map_Suc_upt [symmetric] zip_map1 split_beta del: upt_Suc)
    have t: "take (Suc k) ?q = take k (c_queue st) @ [cleanup_entry ttl (clock 0) (c_queue st ! k)]"
      using k by (simp add: take_Suc_conv_app_nth)
    show ?thesis
      using it st' d by (simp add: t m del: upt_Suc)
  qed
qed

section \<open>Properties\<close>

text \<open>
  Property C30. One pass of the cleanup worker frees the data of exactly the entries that still have
  a message and whose time to live has passed when the worker reads the clock at them; the others are
  left as they are, and no entry leaves the queue.
\<close>

theorem cleanup_pass_exact:
  assumes "pass_at 0 st" and "c_queue st \<noteq> []"
  shows "\<exists>st'. cleanup_iters ttl clock (length (c_queue st)) st = Inr st' \<and>
    length (c_queue st') = length (c_queue st) \<and>
    (\<forall>j < length (c_queue st). c_queue st' ! j =
      (let e = c_queue st ! j in
       if msg e \<noteq> None \<and> add_secs (timestamp e) ttl < clock j then free_msg_data e else e))"
proof -
  obtain st' where "cleanup_iters ttl clock (length (c_queue st)) st = Inr st'"
      "c_queue st' = map2 (\<lambda>j e. cleanup_entry ttl (clock j) e) [0..<length (c_queue st)] (c_queue st)"
    using cleanup_iters_pass [OF assms(1), of "length (c_queue st)"] assms(2) by auto
  then show ?thesis
    by (simp add: cleanup_entry_def expired_def compare_times_iff_less Let_def)
qed

definition two_entries :: cleanup_state where
  "two_entries = \<lparr>c_queue = [sample_entry 1, sample_entry 5], c_current = None, c_prev = None\<rparr>"

theorem cleanup_pass_exact_witness:
  "\<exists>st'. cleanup_iters 5 (\<lambda>_. t_sec 8) 2 two_entries = Inr st' \<and>
     c_queue st' ! 0 = free_msg_data (sample_entry 1) \<and> c_queue st' ! 1 = sample_entry 5"
proof -
  have p: "pass_at 0 two_entries" "c_queue two_entries \<noteq> []"
    by (simp_all add: pass_at_def two_entries_def)
  have e: "add_secs (t_sec 1) 5 < t_sec 8" "\<not> add_secs (t_sec 5) 5 < t_sec 8"
    by (simp_all add: compare_times_iff_less [symmetric] compare_times_def add_secs_def t_sec_def)
  obtain st' where st': "cleanup_iters 5 (\<lambda>_. t_sec 8) 2 two_entries = Inr st'"
      "\<forall>j < 2. c_queue st' ! j = (let e = c_queue two_entries ! j in
         if msg e \<noteq> None \<and> add_secs (timestamp e) 5 < t_sec 8 then free_msg_data e else e)"
    using cleanup_pass_exact [OF p, of 5 "\<lambda>_. t_sec 8"] by (auto simp: two_entries_def numeral_2_eq_2)
  from st'(2) [rule_format, of 0] st'(2) [rule_format, of 1] st'(1) e show ?thesis
    by (simp add: two_entries_def sample_entry_def Let_def)
qed

text \<open>
  Property C34. At the end of a pass the cleanup worker waits for another message, whatever the
  time: entries that expire after the last message are not freed until the source sends again; and
  when a message arrives the worker starts from the first entry.
\<close>

theorem cleanup_waits_for_traffic:
  assumes "c_current st = None" and "c_queue st \<noteq> []"
    and "c_prev st = Some (length (c_queue st) - 1)"
  shows "cleanup_iter ttl now st = Inl Would_Block \<and>
    get_msg_entry (TAILQ_INSERT_TAIL (c_queue st) e) (c_current st) (c_prev st) True = Inr 0"
  using assms
  by (auto simp: cleanup_iter_def get_msg_entry_def wait_until_def TAILQ_NEXT_def TAILQ_FIRST_def
      TAILQ_INSERT_TAIL_def)

theorem cleanup_waits_for_traffic_witness:
  "cleanup_iter 5 (t_sec 1000) (two_entries\<lparr>c_prev := Some 1\<rparr>) = Inl Would_Block"
  using cleanup_waits_for_traffic [of "two_entries\<lparr>c_prev := Some 1\<rparr>" 5 "t_sec 1000"]
  by (simp add: two_entries_def)

end
