(* ===== verification/Cleanup_Phases.thy ===== *)
theory Cleanup_Phases
  imports Cleanup
begin

text \<open>
  The loop of \<open>run_cleanup_worker\<close> in \<^verbatim>\<open>ws_server.c\<close>, with \<open>free_msg_data\<close> of \<^verbatim>\<open>lib/msg_queue.c\<close>, one access
  to the queue or to an entry at a time, for runs in which other threads come in between. Without
  interruption the phases amount to \<open>cleanup_iter\<close>.
\<close>

section \<open>The code\<close>

text \<open>
  \<open>free_msg_data\<close> frees the mask and then the message, under \<open>msg_lock\<close>: it holds the lock in
  \<open>C_Free_Msg\<close>. Freeing a block and setting its pointer to \<open>NULL\<close> is one step.
\<close>

datatype cphase = C_Get | C_Check | C_Free_Sent | C_Free_Msg | C_Next

record clocal =
  kph :: cphase
  kcur :: "nat option"
  kprv :: "nat option"

definition init_cleanup :: clocal where
  "init_cleanup = \<lparr>kph = C_Get, kcur = None, kprv = None\<rparr>"

definition entry_ptr :: "queue \<Rightarrow> nat option \<Rightarrow> fault + nat" where
  "entry_ptr q p =
     (case p of None \<Rightarrow> Inl Null_Deref | Some c \<Rightarrow> if c < length q then Inr c else Inl Out_Of_Bounds)"

fun cstep_at :: "cphase \<Rightarrow> int \<Rightarrow> timespec \<Rightarrow> queue \<Rightarrow> clocal \<Rightarrow> fault + queue \<times> clocal" where
  "cstep_at C_Get ttl now q k =
     bindF (get_msg_entry q (kcur k) (kprv k) True) (\<lambda>c. Inr (q, k\<lparr>kcur := Some c, kph := C_Check\<rparr>))"
| "cstep_at C_Check ttl now q k =
     bindF (entry_ptr q (kcur k)) (\<lambda>c.
       Inr (q, k\<lparr>kph := (if msg (q ! c) \<noteq> None \<and> expired ttl now (q ! c) then C_Free_Sent else C_Next)\<rparr>))"
| "cstep_at C_Free_Sent ttl now q k =
     bindF (entry_ptr q (kcur k)) (\<lambda>c. Inr (q[c := (q ! c)\<lparr>sent := None\<rparr>], k\<lparr>kph := C_Free_Msg\<rparr>))"
| "cstep_at C_Free_Msg ttl now q k =
     bindF (entry_ptr q (kcur k)) (\<lambda>c. Inr (q[c := (q ! c)\<lparr>msg := None\<rparr>], k\<lparr>kph := C_Next\<rparr>))"
| "cstep_at C_Next ttl now q k =
     bindF (entry_ptr q (kcur k)) (\<lambda>c. Inr (q, k\<lparr>kprv := Some c, kcur := TAILQ_NEXT q c, kph := C_Get\<rparr>))"

definition cstep :: "int \<Rightarrow> timespec \<Rightarrow> queue \<Rightarrow> clocal \<Rightarrow> fault + queue \<times> clocal" where
  "cstep ttl now q k = cstep_at (kph k) ttl now q k"

section \<open>Without interruption\<close>

fun csteps :: "nat \<Rightarrow> int \<Rightarrow> timespec \<Rightarrow> queue \<Rightarrow> clocal \<Rightarrow> fault + queue \<times> clocal" where
  "csteps 0 ttl now q k = Inr (q, k)"
| "csteps (Suc j) ttl now q k = bindF (cstep ttl now q k) (\<lambda>(q', k'). csteps j ttl now q' k')"

definition cleanup_whole :: "queue \<Rightarrow> clocal \<Rightarrow> cleanup_state" where
  "cleanup_whole q k = \<lparr>c_queue = q, c_current = kcur k, c_prev = kprv k\<rparr>"

definition kcursor_in :: "queue \<Rightarrow> clocal \<Rightarrow> bool" where
  "kcursor_in q k \<longleftrightarrow> (\<forall>c. kcur k = Some c \<longrightarrow> c < length q) \<and> (\<forall>p. kprv k = Some p \<longrightarrow> p < length q)"

lemma kget_in_range:
  "kcursor_in q k \<Longrightarrow> get_msg_entry q (kcur k) (kprv k) b = Inr c \<Longrightarrow> c < length q"
  by (auto simp: get_msg_entry_def kcursor_in_def wait_until_def TAILQ_FIRST_def TAILQ_NEXT_def
      fault_simps split: if_splits option.splits)

lemma free_both: "(e\<lparr>sent := None\<rparr>)\<lparr>msg := None\<rparr> = free_msg_data e"
  by (simp add: free_msg_data_def)

text \<open>
  The phases are the loop of the cleanup worker: uninterrupted they run from its top to where
  \<open>cleanup_iter\<close> ends, or block where it does.
\<close>

lemma phases_are_cleanup_iter:
  assumes "kph k = C_Get" "kcursor_in q k"
  shows "case cleanup_iter ttl now (cleanup_whole q k) of
      Inl f \<Rightarrow> csteps 1 ttl now q k = Inl f
    | Inr st \<Rightarrow> \<exists>j q' k'. csteps j ttl now q k = Inr (q', k') \<and> cleanup_whole q' k' = st \<and> kph k' = C_Get"
proof (cases "get_msg_entry q (kcur k) (kprv k) True")
  case (Inl f)
  then show ?thesis using assms(1) by (simp add: cleanup_iter_def cleanup_whole_def cstep_def)
next
  case (Inr c)
  have c: "c < length q" by (rule kget_in_range [OF assms(2) Inr])
  let ?st = "csteps (if msg (q ! c) \<noteq> None \<and> expired ttl now (q ! c) then 5 else 3) ttl now q k"
  have "\<exists>k'. ?st = Inr (q[c := cleanup_entry ttl now (q ! c)], k') \<and> kph k' = C_Get \<and>
      kcur k' = TAILQ_NEXT (q[c := cleanup_entry ttl now (q ! c)]) c \<and> kprv k' = Some c"
    using assms(1) Inr c
    by (simp add: cstep_def entry_ptr_def cleanup_entry_def free_both numeral_eq_Suc)
  with Inr c show ?thesis
    by (fastforce simp: cleanup_iter_def cleanup_whole_def Let_def)
qed

end
