(* ===== verification/Source_Server.thy ===== *)
theory Source_Server
  imports Msg_Queue
begin

text \<open>
  The source server, \<open>run_src_server\<close> of \<^verbatim>\<open>ws_server.c\<close>: it accepts one source connection at a
  time, parses messages from it while it is alive and appends them to the message queue. The parser
  is the one its function pointer selects; its contract is the locale \<open>ctmp_parser\<close>. The loops may
  run forever in the code; \<open>conn_loop\<close> returns because every parse makes progress on the script of
  the connection (\<open>conn_loop_total\<close>).
\<close>

section \<open>The code\<close>

text \<open>
  One connection. \<open>clock k\<close> is the clock reading taken for the \<open>k\<close>-th entry of the queue. The
  insertion and the broadcast happen under \<open>msg_lock\<close>.
\<close>

partial_function (option) conn_loop ::
  "(source \<Rightarrow> fault + ctmp_msg option \<times> source) \<Rightarrow> (nat \<Rightarrow> timespec) \<Rightarrow> source \<Rightarrow> queue \<Rightarrow>
   (fault + source \<times> queue) option" where
  "conn_loop parse clock s q =
     (if is_alive (rx s)
      then (case parse s of
              Inl f \<Rightarrow> Some (Inl f)
            | Inr (current_msg, s1) \<Rightarrow>
                (case current_msg of
                   None \<Rightarrow> conn_loop parse clock s1 q
                 | Some m \<Rightarrow>
                     (case init_msg_entry (clock (length q)) m s1 of
                        Inl f \<Rightarrow> Some (Inl f)
                      | Inr (e, s2) \<Rightarrow> conn_loop parse clock s2 (TAILQ_INSERT_TAIL q e))))
      else Some (Inr (s, q)))"

text \<open>The parser the function pointer is set to.\<close>

definition ctmp_parse_func :: "endian \<Rightarrow> bool \<Rightarrow> source \<Rightarrow> fault + ctmp_msg option \<times> source" where
  "ctmp_parse_func host extended =
     (if extended then parse_ctmp_msg_extended host else parse_ctmp_msg host)"

text \<open>
  The outer loop over the results of \<open>server_accept\<close>: a connection, whose script replaces that of the
  closed one, or an error, on which the server exits with the error number. The list ends when no
  further connection arrives.
\<close>

fun accept_loop ::
  "(source \<Rightarrow> fault + ctmp_msg option \<times> source) \<Rightarrow> (nat \<Rightarrow> timespec) \<Rightarrow>
   (errno + rx_event list) list \<Rightarrow> source \<Rightarrow> queue \<Rightarrow> (fault + source \<times> queue) option" where
  "accept_loop parse clock [] s q = Some (Inr (s, q))"
| "accept_loop parse clock (Inl e # conns) s q = Some (Inl (Exited (errno_code e)))"
| "accept_loop parse clock (Inr evs # conns) s q =
     (case conn_loop parse clock (s\<lparr>rx := evs\<rparr>) q of
        None \<Rightarrow> None
      | Some (Inl f) \<Rightarrow> Some (Inl f)
      | Some (Inr (s1, q1)) \<Rightarrow> accept_loop parse clock conns s1 q1)"

definition run_src_server ::
  "endian \<Rightarrow> bool \<Rightarrow> bool \<Rightarrow> (nat \<Rightarrow> timespec) \<Rightarrow> (errno + rx_event list) list \<Rightarrow> source \<Rightarrow> queue \<Rightarrow>
   (fault + source \<times> queue) option" where
  "run_src_server host server_ok extended clock conns s q =
     (if \<not> server_ok then Some (Inl (Exited 1))
      else accept_loop (ctmp_parse_func host extended) clock conns s q)"

section \<open>What a connection adds to the queue\<close>

definition new_entry :: "timespec \<Rightarrow> ctmp_msg \<Rightarrow> msg_entry" where
  "new_entry now m = \<lparr>timestamp = now, msg = Some m, sent = Some 0\<rparr>"

text \<open>The entries for messages \<open>ms\<close>, the first of which takes clock reading \<open>k\<close>.\<close>

fun new_entries :: "(nat \<Rightarrow> timespec) \<Rightarrow> nat \<Rightarrow> ctmp_msg list \<Rightarrow> queue" where
  "new_entries clock k [] = []"
| "new_entries clock k (m # ms) = new_entry (clock k) m # new_entries clock (Suc k) ms"

lemma length_new_entries [simp]: "length (new_entries clock k ms) = length ms"
  by (induction ms arbitrary: k) simp_all

lemma new_entries_append:
  "new_entries clock k (xs @ ys) = new_entries clock k xs @ new_entries clock (k + length xs) ys"
  by (induction xs arbitrary: k) simp_all

lemma msgs_new_entries: "map msg (new_entries clock k ms) = map Some ms"
  by (induction ms arbitrary: k) (simp_all add: new_entry_def)

lemma conn_loop_dead: "\<not> is_alive (rx s) \<Longrightarrow> conn_loop parse clock s q = Some (Inr (s, q))"
  by (simp add: conn_loop.simps)

lemma conn_loop_None:
  "is_alive (rx s) \<Longrightarrow> parse s = Inr (None, s1) \<Longrightarrow>
   conn_loop parse clock s q = conn_loop parse clock s1 q"
  by (subst conn_loop.simps) simp

lemma conn_loop_Some:
  "is_alive (rx s) \<Longrightarrow> parse s = Inr (Some m, s1) \<Longrightarrow> 2 \<le> budget s1 \<Longrightarrow>
   conn_loop parse clock s q =
     conn_loop parse clock (alloc (alloc s1)) (q @ [new_entry (clock (length q)) m])"
  by (subst conn_loop.simps)
    (simp add: init_msg_entry_def malloc_ok TAILQ_INSERT_TAIL_def new_entry_def)

lemma stream_bytes_alive: "stream_bytes evs \<noteq> [] \<Longrightarrow> is_alive evs"
  using stream_bytes_dead by blast

context ctmp_parser
begin

text \<open>The loop over one connection always returns.\<close>

lemma conn_loop_total: "\<exists>r. conn_loop parse clock s q = Some r"
proof (induction "evs_size (rx s)" arbitrary: s q rule: less_induct)
  case less
  show ?case
  proof (cases "is_alive (rx s)")
    case False
    then show ?thesis by (simp add: conn_loop_dead)
  next
    case alive: True
    show ?thesis
    proof (cases "parse s")
      case (Inl f)
      with alive show ?thesis by (subst conn_loop.simps) simp
    next
      case (Inr p)
      then obtain r s1 where p: "parse s = Inr (r, s1)" by (cases p) auto
      have lt: "evs_size (rx s1) < evs_size (rx s)" by (rule parse_progress [OF alive p])
      show ?thesis
      proof (cases r)
        case None
        with alive p less(1) [OF lt] show ?thesis by (simp add: conn_loop_None)
      next
        case (Some m)
        show ?thesis
        proof (cases "2 \<le> budget s1")
          case True
          with alive p Some less(1) [of "alloc (alloc s1)"] lt show ?thesis
            by (simp add: conn_loop_Some)
        next
          case False
          then obtain f where "init_msg_entry (clock (length q)) m s1 = Inl f"
            using init_msg_entry_Inr by (metis old.sum.exhaust surj_pair)
          with alive p Some show ?thesis by (subst conn_loop.simps) simp
        qed
      qed
    qed
  qed
qed

text \<open>
  On a clean connection, with enough memory, the loop appends exactly the messages of the byte
  stream, in order, each with the clock reading of its place in the queue, and keeps four heap
  blocks for each of them.
\<close>

lemma conn_loop_deframe:
  assumes "clean (rx s)" "4 * evs_size (rx s) \<le> budget s"
  shows "\<exists>s'. conn_loop parse clock s q =
      Some (Inr (s', q @ new_entries clock (length q) (deframe host accepts (stream_bytes (rx s))))) \<and>
    live s' = live s + 4 * length (deframe host accepts (stream_bytes (rx s)))"
  using assms
proof (induction "evs_size (rx s)" arbitrary: s q rule: less_induct)
  case less
  let ?bs = "stream_bytes (rx s)"
  show ?case
  proof (cases "is_alive (rx s)")
    case False
    then show ?thesis
      using stream_bytes_dead by (simp add: conn_loop_dead deframe.simps)
  next
    case alive: True
    then have "0 < evs_size (rx s)" by (cases "rx s") simp_all
    with less.prems have b: "2 \<le> budget s" by simp
    obtain s1 where s1: "parse s = Inr (fst (frame_step host accepts ?bs), s1)"
        "stream_bytes (rx s1) = snd (frame_step host accepts ?bs)" "clean (rx s1)"
      using parse_step [OF b less.prems(1)] by blast
    have lt: "evs_size (rx s1) < evs_size (rx s)" by (rule parse_progress [OF alive s1(1)])
    have "4 * Suc (evs_size (rx s1)) \<le> 4 * evs_size (rx s)" using lt by simp
    then have b1: "4 * Suc (evs_size (rx s1)) \<le> budget s1 + 2"
      using parse_heap [OF s1(1), THEN conjunct2] less.prems(2) by (meson le_trans)
    show ?thesis
    proof (cases "fst (frame_step host accepts ?bs)")
      case None
      have "deframe host accepts ?bs = deframe host accepts (stream_bytes (rx s1))"
        using None s1(2) by (cases "?bs = []")
          (simp_all add: deframe.simps [of host accepts ?bs] frame_step_def deframe.simps [of _ _ "[]"]
            HEADER_LENGTH_def)
      moreover have "live s1 = live s" using parse_heap [OF s1(1)] None by simp
      ultimately show ?thesis
        using less.hyps [OF lt s1(3)] b1 alive s1(1) None by (simp add: conn_loop_None)
    next
      case (Some m)
      have "?bs \<noteq> []" using Some by (auto simp: frame_step_def HEADER_LENGTH_def)
      then have ms: "deframe host accepts ?bs = m # deframe host accepts (stream_bytes (rx s1))"
        using Some s1(2) by (simp add: deframe.simps [of host accepts ?bs])
      have "2 \<le> budget s1" using b1 by simp
      then have step: "conn_loop parse clock s q =
          conn_loop parse clock (alloc (alloc s1)) (q @ [new_entry (clock (length q)) m])"
        using alive s1(1) Some by (simp add: conn_loop_Some)
      have live: "live s1 = live s + 2" using parse_heap [OF s1(1)] Some by simp
      have "4 * evs_size (rx (alloc (alloc s1))) \<le> budget (alloc (alloc s1))" using b1 by simp
      then obtain s' where "conn_loop parse clock (alloc (alloc s1))
            (q @ [new_entry (clock (length q)) m]) =
          Some (Inr (s', (q @ [new_entry (clock (length q)) m]) @
            new_entries clock (Suc (length q)) (deframe host accepts (stream_bytes (rx s1)))))"
          "live s' = live (alloc (alloc s1)) + 4 * length (deframe host accepts (stream_bytes (rx s1)))"
        using less.hyps [of "alloc (alloc s1)" "q @ [new_entry (clock (length q)) m]"] lt s1(3)
        by auto
      then show ?thesis by (simp add: step ms live)
    qed
  qed
qed

end

section \<open>The parser behind the function pointer\<close>

definition accepted :: "endian \<Rightarrow> bool \<Rightarrow> ctmp_msg \<Rightarrow> bool" where
  "accepted host extended m \<longleftrightarrow> (extended \<longrightarrow> options_ok host m)"

lemma ctmp_parse_func_simps [simp]:
  "ctmp_parse_func host True = parse_ctmp_msg_extended host"
  "ctmp_parse_func host False = parse_ctmp_msg host"
  by (simp_all add: ctmp_parse_func_def)

lemma accepted_simps [simp]:
  "accepted host True = options_ok host"
  "accepted host False = (\<lambda>_. True)"
  by (auto simp: accepted_def)

interpretation selected: ctmp_parser host "ctmp_parse_func host extended" "accepted host extended"
  for host extended
proof (cases extended)
  case True
  then show "ctmp_parser host (ctmp_parse_func host extended) (accepted host extended)"
    by (simp add: ext.ctmp_parser_axioms)
next
  case False
  then show "ctmp_parser host (ctmp_parse_func host extended) (accepted host extended)"
    by (simp add: base.ctmp_parser_axioms)
qed

text \<open>The padding warning is dead code: no parse logs it.\<close>

lemma read_msg_diags:
  "read_msg n s = (res, bs, s') \<Longrightarrow> Bad_Padding \<in> set (diags s') \<longleftrightarrow> Bad_Padding \<in> set (diags s)"
  by (auto simp: read_msg_def split: prod.splits sum.splits if_splits)

lemma parse_base_diags:
  "parse_ctmp_msg host s = Inr (r, s') \<Longrightarrow>
   Bad_Padding \<in> set (diags s') \<longleftrightarrow> Bad_Padding \<in> set (diags s)"
  by (auto simp: parse_ctmp_msg_def fault_simps malloc_Inr read_ctmp_header_def Let_def
      read_ctmp_data_Inr split: prod.splits if_splits dest!: read_msg_diags)

lemma check_options_diags:
  "check_options host m s = Inr (r, s') \<Longrightarrow>
   Bad_Padding \<in> set (diags s') \<longleftrightarrow> Bad_Padding \<in> set (diags s)"
  by (auto simp: check_options_def fault_simps split: if_splits)

lemma parse_func_diags:
  assumes "ctmp_parse_func host extended s = Inr (r, s')"
  shows "Bad_Padding \<in> set (diags s') \<longleftrightarrow> Bad_Padding \<in> set (diags s)"
proof (cases extended)
  case True
  then obtain r1 s1 where "parse_ctmp_msg host s = Inr (r1, s1)"
      "(case r1 of None \<Rightarrow> Inr (None, s1) | Some m \<Rightarrow> check_options host m s1) = Inr (r, s')"
    using assms by (auto simp: parse_ext_base fault_simps)
  then show ?thesis
    using parse_base_diags [of host s r1 s1] check_options_diags by (cases r1) fastforce+
next
  case False
  then show ?thesis using assms parse_base_diags by simp
qed

section \<open>Resynchronisation\<close>

lemma frame_step_bad_magic:
  "length h = 8 \<Longrightarrow> h ! 0 \<noteq> MAGIC \<Longrightarrow> frame_step host accepts (h @ rest) = (None, rest)"
  by (simp add: frame_step_def Let_def HEADER_LENGTH_def nth_append)

lemma deframe_bad_magic:
  "length h = 8 \<Longrightarrow> h ! 0 \<noteq> MAGIC \<Longrightarrow> deframe host accepts (h @ rest) = deframe host accepts rest"
  by (subst deframe.simps) (auto simp: frame_step_bad_magic)

lemma deframe_zero_length:
  assumes "length h = 8" "h ! 2 = 0" "h ! 3 = 0"
  shows "deframe host accepts (h @ rest) = deframe host accepts rest"
proof -
  have "len (set_msg_length host \<lparr>header = h, len = 0, data = None\<rparr>) = 0"
    using assms by (cases host) (simp_all add: set_msg_length_def Let_def le_pair_def swap16_def const_defs)
  then have "frame_step host accepts (h @ rest) = (None, rest)"
    using assms(1) by (simp add: frame_step_def Let_def HEADER_LENGTH_def)
  then show ?thesis using assms(1) by (subst deframe.simps) auto
qed

text \<open>The outer loop returns as well.\<close>

lemma accept_loop_total:
  "\<exists>r. accept_loop (ctmp_parse_func host extended) clock conns s q = Some r"
proof (induction conns arbitrary: s q)
  case (Cons c conns)
  then show ?case
    using selected.conn_loop_total [of host extended clock]
    by (cases c) (fastforce split: option.splits sum.splits prod.splits)+
qed simp

section \<open>Properties\<close>

text \<open>
  Property C18. Whichever parser is selected and whatever happens on the connection, a message that is
  returned is well-formed, non-empty and exactly the next bytes of the stream, holds two heap blocks and
  nothing is logged; when none is returned, nothing stays allocated, on every failure path.
\<close>

theorem parse_sound_and_leak_free:
  assumes "ctmp_parse_func host extended s = Inr (r, s')"
  shows "(case r of
      Some m \<Rightarrow> wf_msg host m \<and> len m \<noteq> 0 \<and> stream_bytes (rx s) = msg_bytes m @ stream_bytes (rx s') \<and>
        live s' = live s + 2 \<and> diags s' = diags s
    | None \<Rightarrow> live s' = live s \<and> (\<exists>ds. diags s' = diags s @ ds))"
proof (cases r)
  case None
  then show ?thesis
    using selected.parse_heap [OF assms] selected.parse_log [OF assms] by simp
next
  case (Some m)
  with assms have "ctmp_parse_func host extended s = Inr (Some m, s')" by simp
  from selected.parse_sound [OF this] Some show ?thesis
    using selected.parse_heap [OF assms] selected.parse_log [OF assms] by simp
qed

theorem parse_sound_and_leak_free_witness:
  "\<exists>s'. ctmp_parse_func Little True (message_source sensitive_msg) = Inr (Some sensitive_msg, s') \<and>
     live s' = live (message_source sensitive_msg) + 2"
proof -
  have ok: "options_ok Little sensitive_msg"
    using checksum_ok_little [OF wf_sensitive_msg] sensitive_msg_checksum
    by (simp add: options_ok_def sensitive_msg_eq const_defs)
  have "2 \<le> budget (message_source sensitive_msg)" "len sensitive_msg \<noteq> 0"
    by (simp_all add: message_source_def sensitive_msg_eq)
  then have "\<exists>s'. parse_ctmp_msg_extended Little (message_source sensitive_msg) = Inr (Some sensitive_msg, s')"
    using ext.parse_step [of "message_source sensitive_msg" Little] clean_message_source
      frame_step_msg [where accepts = "options_ok Little" and rest = "[]", OF wf_sensitive_msg _ ok]
    by (auto simp: message_source_bytes)
  then obtain s' where "ctmp_parse_func Little True (message_source sensitive_msg) =
      Inr (Some sensitive_msg, s')" by auto
  with parse_sound_and_leak_free [OF this] show ?thesis by simp
qed

text \<open>
  Property C28. The source server's loop over one connection always ends, and so does the loop over any
  sequence of connections: every parse, also one that fails, uses up some of what the peer sent.
\<close>

theorem source_server_returns:
  "\<exists>r. run_src_server host server_ok extended clock conns s q = Some r"
  using accept_loop_total by (simp add: run_src_server_def)

text \<open>
  Property C14. On a connection without errors, with any segmentation and interruptions, the queue grows
  by exactly the messages of the byte stream, in their order, each with its own time stamp and marked as
  unsent; four heap blocks are kept for each of them and none for what was rejected.
\<close>

theorem queue_gets_stream_messages:
  assumes "clean evs" "4 * evs_size evs \<le> budget s"
  shows "\<exists>s'. accept_loop (ctmp_parse_func host extended) clock [Inr evs] s q = Some (Inr (s',
      q @ new_entries clock (length q) (deframe host (accepted host extended) (stream_bytes evs)))) \<and>
    live s' = live s + 4 * length (deframe host (accepted host extended) (stream_bytes evs))"
proof -
  obtain s' where s': "conn_loop (ctmp_parse_func host extended) clock (s\<lparr>rx := evs\<rparr>) q =
      Some (Inr (s', q @ new_entries clock (length q)
        (deframe host (accepted host extended) (stream_bytes evs))))"
    "live s' = live s + 4 * length (deframe host (accepted host extended) (stream_bytes evs))"
    using selected.conn_loop_deframe [of "s\<lparr>rx := evs\<rparr>" host extended clock q] assms by auto
  then show ?thesis by simp
qed

theorem queue_gets_stream_messages_witness:
  "\<exists>s'. accept_loop (ctmp_parse_func Little False) (\<lambda>_. epoch)
      [Inr [Chunk [0xCC], Err EINTR, Chunk [0, 0, 2, 0, 0, 0, 0, 7], Pending, Chunk [9]]]
      \<lparr>rx = [], diags = [], live = 0, budget = 99\<rparr> [] =
    Some (Inr (s', [new_entry epoch sample_msg])) \<and> live s' = 4"
proof -
  have "deframe Little (\<lambda>_. True) [0xCC, 0, 0, 2, 0, 0, 0, 0, 7, 9] = [sample_msg]"
    using deframe_msgs [of "[sample_msg]" Little "\<lambda>_. True"] wf_sample_msg msg_bytes_sample
    by (simp add: sample_msg_def)
  then show ?thesis
    using queue_gets_stream_messages [of "[Chunk [0xCC], Err EINTR, Chunk [0, 0, 2, 0, 0, 0, 0, 7],
        Pending, Chunk [9]]" "\<lparr>rx = [], diags = [], live = 0, budget = 99\<rparr>" Little False "\<lambda>_. epoch" "[]"]
    by simp
qed

text \<open>
  Property C29. A header with a wrong magic byte costs the server eight bytes, whatever length the header
  states: the payload of the rejected message is parsed as if it were messages, and a message hidden in
  it is queued.
\<close>

theorem rejected_payload_is_parsed:
  assumes "length h = 8" "h ! 0 \<noteq> MAGIC" "wf_msg host m" "len m \<noteq> 0" "accepted host extended m"
    and "clean evs" "stream_bytes evs = h @ msg_bytes m" "4 * evs_size evs \<le> budget s"
  shows "\<exists>s'. accept_loop (ctmp_parse_func host extended) clock [Inr evs] s q =
    Some (Inr (s', q @ [new_entry (clock (length q)) m]))"
proof -
  have "deframe host (accepted host extended) (stream_bytes evs) = [m]"
    using deframe_bad_magic [OF assms(1,2)] deframe_msgs [of "[m]"] assms by simp
  moreover have "\<exists>s'. conn_loop (ctmp_parse_func host extended) clock (s\<lparr>rx := evs\<rparr>) q =
      Some (Inr (s', q @ new_entries clock (length q)
        (deframe host (accepted host extended) (stream_bytes evs))))"
    using selected.conn_loop_deframe [of "s\<lparr>rx := evs\<rparr>" host extended clock q] assms(6,8) by auto
  ultimately show ?thesis by auto
qed

theorem rejected_payload_is_parsed_witness:
  "\<exists>s'. accept_loop (ctmp_parse_func Little False) (\<lambda>_. epoch)
      [Inr [Chunk [0xDD, 0, 0, 10, 0, 0, 0, 0, 0xCC, 0, 0, 2, 0, 0, 0, 0, 7, 9]]]
      \<lparr>rx = [], diags = [], live = 0, budget = 99\<rparr> [] =
    Some (Inr (s', [new_entry epoch sample_msg]))"
  using rejected_payload_is_parsed [of "[0xDD, 0, 0, 10, 0, 0, 0, 0]" Little sample_msg False
      "[Chunk [0xDD, 0, 0, 10, 0, 0, 0, 0, 0xCC, 0, 0, 2, 0, 0, 0, 0, 7, 9]]"
      "\<lparr>rx = [], diags = [], live = 0, budget = 99\<rparr>" "\<lambda>_. epoch" "[]"] wf_sample_msg msg_bytes_sample
  by (simp add: const_defs sample_msg_def)

text \<open>
  Property C35. Sending and parsing are inverse: what \<open>send_ctmp_msg\<close> has put on a client's wire when it returns 0,
  in whatever pieces, is read back by the parser as exactly the same message, header, stored length and payload, if the
  parser's protocol accepts it; from whatever segments and with whatever behind it, which stays to be read. So
  a server can be fed from another one.
\<close>

theorem sent_message_parses_back:
  assumes "wf_msg host m" "len m \<noteq> 0" "accepted host extended m"
    and "send_ctmp_msg m c = Inr (0, c')"
    and "clean (rx s)" "stream_bytes (rx s) = drop (length (wire c)) (wire c') @ rest" "2 \<le> budget s"
  shows "\<exists>s'. ctmp_parse_func host extended s = Inr (Some m, s') \<and> stream_bytes (rx s') = rest \<and> clean (rx s') \<and>
    live s' = live s + 2 \<and> diags s' = diags s"
proof -
  have "wire c' = wire c @ msg_bytes m" using send_ctmp_msg_wf [OF assms(1), of c] assms(4) by auto
  then have "stream_bytes (rx s) = msg_bytes m @ rest" using assms(6) by simp
  with selected.parse_step [OF assms(7,5), of host extended]
    frame_step_msg [OF assms(1,2), of "accepted host extended" rest] assms(3)
  obtain s' where s': "ctmp_parse_func host extended s = Inr (Some m, s')" "stream_bytes (rx s') = rest" "clean (rx s')"
    by auto
  with selected.parse_heap [OF s'(1)] selected.parse_log [OF s'(1)] show ?thesis by simp
qed

theorem sent_message_parses_back_witness:
  "\<exists>c' s'. send_ctmp_msg sample_msg \<lparr>crx = [], tx = [Accept 3, Tx_Err EINTR, Accept 1], wire = [1]\<rparr> = Inr (0, c') \<and>
    ctmp_parse_func Little True \<lparr>rx = [Chunk (take 5 (drop 1 (wire c'))), Err EINTR, Chunk (drop 5 (drop 1 (wire c')) @ [9])],
      diags = [], live = 0, budget = 2\<rparr> = Inr (Some sample_msg, s') \<and> stream_bytes (rx s') = [9]"
proof -
  let ?c = "\<lparr>crx = [], tx = [Accept 3, Tx_Err EINTR, Accept 1], wire = [1]\<rparr>"
  let ?c' = "\<lparr>crx = [], tx = [], wire = 1 # msg_bytes sample_msg\<rparr>"
  let ?s = "\<lparr>rx = [Chunk (take 5 (drop 1 (wire ?c'))), Err EINTR, Chunk (drop 5 (drop 1 (wire ?c')) @ [9])],
      diags = [], live = 0, budget = 2\<rparr>"
  have c: "send_ctmp_msg sample_msg ?c = Inr (0, ?c')" by code_simp
  have "accepted Little True sample_msg" by (simp add: options_ok_def sample_msg_def const_defs)
  moreover have "len sample_msg \<noteq> 0" by (simp add: sample_msg_def)
  moreover have "clean (rx ?s)" "stream_bytes (rx ?s) = drop (length (wire ?c)) (wire ?c') @ [9]"
    by (simp_all add: msg_bytes_sample)
  ultimately have "\<exists>s'. ctmp_parse_func Little True ?s = Inr (Some sample_msg, s') \<and> stream_bytes (rx s') = [9]"
    using sent_message_parses_back [OF wf_sample_msg _ _ c, of True ?s "[9]"] by auto
  with c show ?thesis by blast
qed

text \<open>
  The check of the reserved bytes rejects nothing and never warns: it masks each byte with
  the expected value 0, so the warning line is in the log of no parse unless it was there before.
\<close>

lemma padding_warning_unreachable:
  assumes "ctmp_parse_func host extended s = Inr (r, s')"
  shows "valid_padding m b \<and> (Bad_Padding \<in> set (diags s') \<longrightarrow> Bad_Padding \<in> set (diags s))"
  using parse_func_diags [OF assms] by simp

lemma padding_warning_unreachable_witness:
  "\<exists>r s'. ctmp_parse_func Little False \<lparr>rx = [Chunk [0xCC, 0xFF, 0, 1, 0xFF, 0xFF, 0xFF, 0xFF, 5]],
      diags = [], live = 0, budget = 2\<rparr> = Inr (r, s') \<and> Bad_Padding \<notin> set (diags s')"
proof -
  let ?s = "\<lparr>rx = [Chunk [0xCC, 0xFF, 0, 1, 0xFF, 0xFF, 0xFF, 0xFF, 5]],
      diags = [], live = 0, budget = 2\<rparr>"
  obtain r s' where "ctmp_parse_func Little False ?s = Inr (r, s')"
    using selected.parse_total [of ?s Little False] by auto
  with padding_warning_unreachable [OF this] show ?thesis by auto
qed

end
