(* ===== verification/Relay_System.thy ===== *)
theory Relay_System
  imports Worker_Phases Cleanup_Phases Source_Server "HOL-Library.Sublist"
begin

text \<open>
  The threads of \<^verbatim>\<open>ws_server.c\<close> that share the message queue, together: the source server, which appends
  messages, all destination workers, each with the receivers it is given one after another, and the
  cleanup worker. A step is one shared access of one thread, so every interleaving is a run.
\<close>

section \<open>The code\<close>

text \<open>
  The last three fields are history: what has been appended so far, the position in the queue at
  which a worker's present receiver was given to it, and what had been sent to that receiver before.
  No step depends on them.
\<close>

record system =
  sq :: queue
  wl :: "nat \<Rightarrow> wlocal option"
  kl :: clocal
  hist :: "(timespec \<times> ctmp_msg) list"
  jpos :: "nat \<Rightarrow> nat"
  jbase :: "nat \<Rightarrow> byte list"

definition init_system :: system where
  "init_system = \<lparr>sq = [], wl = (\<lambda>_. None), kl = init_cleanup, hist = [], jpos = (\<lambda>_. 0),
     jbase = (\<lambda>_. [])\<rparr>"

text \<open>
  What can happen next: a message is appended, a worker is created or, while it waits, given another
  receiver, a worker or the cleanup worker takes a step, or the state of a receiver's connection
  changes.
\<close>

datatype action =
    Publish timespec ctmp_msg
  | Create nat client timespec
  | Reassign nat client timespec
  | Work nat
  | Clean timespec
  | Connection nat "rx_event list" "tx_event list"

text \<open>The position a worker goes to at the end of the loop body.\<close>

definition npos :: "wlocal \<Rightarrow> nat" where
  "npos l = (case nxt l of Some j \<Rightarrow> j | None \<Rightarrow> (case cur l of Some c \<Rightarrow> Suc c | None \<Rightarrow> 0))"

definition set_worker :: "nat \<Rightarrow> wlocal \<Rightarrow> system \<Rightarrow> system" where
  "set_worker i l s = s\<lparr>wl := (wl s)(i := Some l)\<rparr>"

definition join :: "nat \<Rightarrow> nat \<Rightarrow> client \<Rightarrow> system \<Rightarrow> system" where
  "join i k cl s = s\<lparr>jpos := (jpos s)(i := k), jbase := (jbase s)(i := wire cl)\<rparr>"

text \<open>\<open>msg_lock\<close> is held by the cleanup worker while it frees the data of an entry.\<close>

definition msg_locked :: "system \<Rightarrow> bool" where
  "msg_locked s \<longleftrightarrow> kph (kl s) = C_Free_Msg"

text \<open>
  A worker takes \<open>msg_lock\<close> when it moves on to the next entry, and in \<open>get_msg_entry\<close> unless it has an entry
  already.
\<close>

definition needs_lock :: "system \<Rightarrow> wlocal \<Rightarrow> bool" where
  "needs_lock s l \<longleftrightarrow> ph l = P_Next \<or> ph l = P_Get \<and> (sq s = [] \<or> cur l = None)"

fun allowed :: "endian \<Rightarrow> nat \<Rightarrow> action \<Rightarrow> system \<Rightarrow> bool" where
  "allowed host n (Publish ts m) s \<longleftrightarrow> wf_msg host m \<and> \<not> msg_locked s"
| "allowed host n (Create i cl ts) s \<longleftrightarrow> i < n \<and> wl s i = None"
| "allowed host n (Reassign i cl ts) s \<longleftrightarrow> (case wl s i of None \<Rightarrow> False | Some l \<Rightarrow> ph l = P_Wait)"
| "allowed host n (Work i) s \<longleftrightarrow>
     (case wl s i of None \<Rightarrow> False | Some l \<Rightarrow> needs_lock s l \<longrightarrow> \<not> msg_locked s)"
| "allowed host n (Clean now) s \<longleftrightarrow> True"
| "allowed host n (Connection i rxs txs) s \<longleftrightarrow> wl s i \<noteq> None"

text \<open>The source server appends a message; the destination server starts a worker, or wakes one up that waits.\<close>

definition publish_entry :: "timespec \<Rightarrow> ctmp_msg \<Rightarrow> system \<Rightarrow> system" where
  [simp]: "publish_entry ts m s =
     s\<lparr>sq := TAILQ_INSERT_TAIL (sq s) (new_entry ts m), hist := hist s @ [(ts, m)]\<rparr>"

definition start_worker :: "nat \<Rightarrow> client \<Rightarrow> timespec \<Rightarrow> system \<Rightarrow> system" where
  [simp]: "start_worker i cl ts s = set_worker i (init_local cl ts) (join i 0 cl s)"

definition reassign_worker :: "nat \<Rightarrow> client \<Rightarrow> timespec \<Rightarrow> wlocal \<Rightarrow> system \<Rightarrow> system" where
  [simp]: "reassign_worker i cl ts l s = set_worker i (assign cl ts l) (join i (npos l) cl s)"

fun perform :: "int \<Rightarrow> action \<Rightarrow> system \<Rightarrow> fault + system" where
  "perform ttl (Publish ts m) s = Inr (publish_entry ts m s)"
| "perform ttl (Create i cl ts) s = Inr (start_worker i cl ts s)"
| "perform ttl (Reassign i cl ts) s =
     (case wl s i of None \<Rightarrow> Inr s | Some l \<Rightarrow> Inr (reassign_worker i cl ts l s))"
| "perform ttl (Work i) s =
     (case wl s i of None \<Rightarrow> Inr s
      | Some l \<Rightarrow> bindF (wstep (int i) (sq s) l) (\<lambda>(q, l'). Inr (set_worker i l' (s\<lparr>sq := q\<rparr>))))"
| "perform ttl (Clean now) s =
     bindF (cstep ttl now (sq s) (kl s)) (\<lambda>(q, k). Inr (s\<lparr>sq := q, kl := k\<rparr>))"
| "perform ttl (Connection i rxs txs) s =
     (case wl s i of None \<Rightarrow> Inr s
      | Some l \<Rightarrow> Inr (set_worker i (l\<lparr>wcl := (wcl l)\<lparr>crx := rxs, tx := txs\<rparr>\<rparr>) s))"

lemma performed_Work:
  assumes "allowed host n (Work i) s" "perform ttl (Work i) s = Inr t"
  shows "\<exists>l q l'. wl s i = Some l \<and> wstep (int i) (sq s) l = Inr (q, l') \<and> t = set_worker i l' (s\<lparr>sq := q\<rparr>)"
  using assms by (cases "wl s i") (auto simp: fault_simps)

lemma performed_Reassign:
  assumes "allowed host n (Reassign i cl ts) s" "perform ttl (Reassign i cl ts) s = Inr t"
  shows "\<exists>l. wl s i = Some l \<and> ph l = P_Wait \<and> t = set_worker i (assign cl ts l) (join i (npos l) cl s)"
  using assms by (cases "wl s i") auto

text \<open>A step of the system, for \<open>n\<close> workers.\<close>

inductive sys_step :: "endian \<Rightarrow> int \<Rightarrow> nat \<Rightarrow> system \<Rightarrow> system \<Rightarrow> bool" for host ttl n where
  act: "allowed host n a s \<Longrightarrow> perform ttl a s = Inr t \<Longrightarrow> sys_step host ttl n s t"

inductive_cases sys_stepE: "sys_step host ttl n s t"

abbreviation sys_reachable :: "endian \<Rightarrow> int \<Rightarrow> nat \<Rightarrow> system \<Rightarrow> bool" where
  "sys_reachable host ttl n s \<equiv> (sys_step host ttl n)\<^sup>*\<^sup>* init_system s"

text \<open>A schedule, for concrete runs.\<close>

fun run_schedule :: "endian \<Rightarrow> int \<Rightarrow> nat \<Rightarrow> action list \<Rightarrow> system \<Rightarrow> (fault + system) option" where
  "run_schedule host ttl n [] s = Some (Inr s)"
| "run_schedule host ttl n (a # as) s =
     (if allowed host n a s
      then (case perform ttl a s of Inl f \<Rightarrow> Some (Inl f) | Inr t \<Rightarrow> run_schedule host ttl n as t)
      else None)"

lemma run_schedule_steps:
  "run_schedule host ttl n as s = Some (Inr t) \<Longrightarrow> (sys_step host ttl n)\<^sup>*\<^sup>* s t"
proof (induction as arbitrary: s)
  case (Cons a as)
  then obtain u where u: "allowed host n a s" "perform ttl a s = Inr u"
      "run_schedule host ttl n as u = Some (Inr t)"
    by (auto split: if_splits sum.splits)
  from sys_step.act [OF u(1,2)] Cons.IH [OF u(3)] show ?case by (rule converse_rtranclp_into_rtranclp)
qed simp

section \<open>What a receiver is entitled to\<close>

text \<open>The bytes of the messages at positions \<open>a\<close> to \<open>b\<close> (exclusive) that arrived after \<open>ts\<close>.\<close>

definition entitled :: "(timespec \<times> ctmp_msg) list \<Rightarrow> timespec \<Rightarrow> nat \<Rightarrow> nat \<Rightarrow> byte list" where
  "entitled H ts a b =
     concat (map (\<lambda>(t, m). msg_bytes m) (filter (\<lambda>(t, m). ts < t) (take (b - a) (drop a H))))"

lemma entitled_empty [simp]: "b \<le> a \<Longrightarrow> entitled H ts a b = []"
  by (simp add: entitled_def)

lemma entitled_split: "a \<le> b \<Longrightarrow> b \<le> c \<Longrightarrow> entitled H ts a c = entitled H ts a b @ entitled H ts b c"
proof -
  assume "a \<le> b" "b \<le> c"
  then have "take (c - a) (drop a H) = take (b - a) (drop a H) @ take (c - b) (drop b H)"
    using take_add [of "b - a" "c - b" "drop a H"] by simp
  then show ?thesis by (simp add: entitled_def)
qed

lemma entitled_Suc:
  "c < length H \<Longrightarrow> entitled H ts c (Suc c) = (if ts < fst (H ! c) then msg_bytes (snd (H ! c)) else [])"
proof -
  assume "c < length H"
  then have "take (Suc c - c) (drop c H) = [H ! c]" by (simp add: take_Suc_conv_app_nth)
  then show ?thesis by (simp add: entitled_def split_beta)
qed

lemma entitled_append [simp]: "b \<le> length H \<Longrightarrow> entitled (H @ X) ts a b = entitled H ts a b"
  by (cases "a \<le> b") (simp_all add: entitled_def)

lemma entitled_all:
  "\<forall>h \<in> set H. ts < fst h \<Longrightarrow> entitled H ts 0 (length H) = concat (map (msg_bytes \<circ> snd) H)"
proof -
  assume a: "\<forall>h \<in> set H. ts < fst h"
  then have "filter (\<lambda>(t, m). ts < t) H = H" by (induction H) auto
  moreover have "(\<lambda>(t :: timespec, m). msg_bytes m) = msg_bytes \<circ> snd" by (simp add: fun_eq_iff)
  moreover have "take (length H - 0) (drop 0 H) = H" by simp
  ultimately show ?thesis by (simp only: entitled_def)
qed

end
