(* ===== verification/Relay_Safety.thy ===== *)
theory Relay_Safety
  imports Relay_System
begin

text \<open>
  The invariant of the threads of \<^theory_text>\<open>Relay_System\<close>: what each receiver has been sent, for every phase
  its worker can be in, and that the workers and the cleanup worker stay within the queue.
\<close>

section \<open>The queue and its history\<close>

lemma nth_upd: "j < length q \<Longrightarrow> q[c := e] ! j = (if j = c then e else q ! j)"
  by simp

definition entry_ok :: "endian \<Rightarrow> timespec \<times> ctmp_msg \<Rightarrow> msg_entry \<Rightarrow> bool" where
  "entry_ok host h e \<longleftrightarrow> timestamp e = fst h \<and> wf_msg host (snd h) \<and>
     (msg e = None \<or> msg e = Some (snd h)) \<and> (msg e = None \<longrightarrow> sent e = None)"

definition hist_ok :: "endian \<Rightarrow> (timespec \<times> ctmp_msg) list \<Rightarrow> queue \<Rightarrow> bool" where
  "hist_ok host H q \<longleftrightarrow> list_all2 (entry_ok host) H q"

lemma hist_ok_length: "hist_ok host H q \<Longrightarrow> length H = length q"
  by (simp add: hist_ok_def list_all2_lengthD)

lemma hist_ok_at: "hist_ok host H q \<Longrightarrow> c < length q \<Longrightarrow> entry_ok host (H ! c) (q ! c)"
  by (auto simp: hist_ok_def list_all2_conv_all_nth)

lemma hist_ok_update: "hist_ok host H q \<Longrightarrow> entry_ok host (H ! c) e \<Longrightarrow> hist_ok host H (q[c := e])"
  by (auto simp: hist_ok_def list_all2_conv_all_nth nth_upd)

lemma hist_ok_append:
  "hist_ok host H q \<Longrightarrow> wf_msg host m \<Longrightarrow> hist_ok host (H @ [(ts, m)]) (TAILQ_INSERT_TAIL q (new_entry ts m))"
  by (simp add: hist_ok_def TAILQ_INSERT_TAIL_def list_all2_appendI entry_ok_def new_entry_def)

text \<open>From position \<open>f\<close> on, no entry is marked as sent by worker \<open>i\<close>.\<close>

definition unmarked :: "int \<Rightarrow> nat \<Rightarrow> queue \<Rightarrow> bool" where
  "unmarked i f q \<longleftrightarrow> (\<forall>j. f \<le> j \<longrightarrow> j < length q \<longrightarrow> i \<notin> sent_flags (q ! j))"

text \<open>What the other threads do to the queue, as worker \<open>i\<close> sees it.\<close>

definition grows :: "int \<Rightarrow> queue \<Rightarrow> queue \<Rightarrow> bool" where
  "grows i q q' \<longleftrightarrow> length q \<le> length q' \<and>
     (\<forall>j < length q'. i \<in> sent_flags (q' ! j) \<longrightarrow> j < length q \<and> i \<in> sent_flags (q ! j))"

lemma grows_refl [simp]: "grows i q q"
  by (simp add: grows_def)

lemma grows_update:
  "(i \<in> sent_flags e \<Longrightarrow> i \<in> sent_flags (q ! c)) \<Longrightarrow> grows i q (q[c := e])"
  by (auto simp: grows_def nth_upd split: if_splits)

lemma grows_append: "grows i q (TAILQ_INSERT_TAIL q (new_entry ts m))"
  by (auto simp: grows_def TAILQ_INSERT_TAIL_def nth_append new_entry_def split: if_splits)

lemma unmarked_grows: "unmarked i f q \<Longrightarrow> grows i q q' \<Longrightarrow> unmarked i f q'"
  by (auto simp: unmarked_def grows_def)

lemma unmarked_mono: "unmarked i f q \<Longrightarrow> f \<le> g \<Longrightarrow> unmarked i g q"
  by (auto simp: unmarked_def)

lemma unmarked_update:
  "unmarked i f q \<Longrightarrow> (f \<le> c \<Longrightarrow> i \<notin> sent_flags e) \<Longrightarrow> unmarked i f (q[c := e])"
  by (auto simp: unmarked_def nth_upd)

lemma set_sent_Inr:
  assumes "flag_pos i" "set_sent e i v = Inr e'"
  shows "msg e' = msg e" "timestamp e' = timestamp e" "sent e \<noteq> None" "sent e' \<noteq> None"
    "sent_flags e' = (if v then insert i (sent_flags e) else sent_flags e - {i})"
proof -
  show s: "sent e \<noteq> None" using assms(2) by (auto simp: set_sent_def split: option.splits)
  from set_sent_flags [OF assms(1) s, of v] assms(2)
  show "msg e' = msg e" "timestamp e' = timestamp e" "sent e' \<noteq> None"
    "sent_flags e' = (if v then insert i (sent_flags e) else sent_flags e - {i})" by auto
qed

section \<open>A worker\<close>

text \<open>The position a worker at the top of its loop takes its next entry from.\<close>

definition gpos :: "wlocal \<Rightarrow> nat" where
  "gpos l = (case cur l of Some c \<Rightarrow> c | None \<Rightarrow> (case prv l of None \<Rightarrow> 0 | Some p \<Rightarrow> Suc p))"

text \<open>
  Worker \<open>i\<close> deals with entry \<open>c\<close>; its receiver, which joined at \<open>k0\<close> with \<open>w0\<close> on its wire, has been
  sent what it is entitled to before \<open>k\<close>, and then \<open>u\<close>.
\<close>

definition stands ::
  "(timespec \<times> ctmp_msg) list \<Rightarrow> queue \<Rightarrow> int \<Rightarrow> nat \<Rightarrow> byte list \<Rightarrow> nat \<Rightarrow> nat \<Rightarrow> byte list \<Rightarrow> wlocal \<Rightarrow> bool" where
  "stands H q i k0 w0 f k u l \<longleftrightarrow> k0 \<le> k \<and> k \<le> length q \<and> unmarked i f q \<and>
     wire (wcl l) = w0 @ entitled H (wts l) k0 k @ u"

text \<open>\<open>u\<close> is a part of what the receiver is to get for entry \<open>k\<close>, all of it unless there was an error.\<close>

definition part_of :: "(timespec \<times> ctmp_msg) list \<Rightarrow> nat \<Rightarrow> byte list \<Rightarrow> wlocal \<Rightarrow> bool" where
  "part_of H k u l \<longleftrightarrow> prefix u (entitled H (wts l) k (Suc k)) \<and>
     (\<not> bsent l < 0 \<longrightarrow> u = entitled H (wts l) k (Suc k))"

text \<open>Before the next position is computed; after the connection is gone; before the next iteration.\<close>

definition on_entry ::
  "(timespec \<times> ctmp_msg) list \<Rightarrow> queue \<Rightarrow> int \<Rightarrow> nat \<Rightarrow> byte list \<Rightarrow> nat \<Rightarrow> nat \<Rightarrow> byte list \<Rightarrow> wlocal \<Rightarrow> bool" where
  "on_entry H q i k0 w0 c f u l \<longleftrightarrow> cur l = Some c \<and> c < length q \<and> nxt l \<in> {None, Some c} \<and>
     stands H q i k0 w0 f c u l"

definition on_leaving ::
  "(timespec \<times> ctmp_msg) list \<Rightarrow> queue \<Rightarrow> int \<Rightarrow> nat \<Rightarrow> byte list \<Rightarrow> nat \<Rightarrow> byte list \<Rightarrow> wlocal \<Rightarrow> bool" where
  "on_leaving H q i k0 w0 k u l \<longleftrightarrow>
     (\<exists>c. cur l = Some c \<and> c < length q \<and> npos l \<in> {c, Suc c}) \<and>
     (\<forall>j. nxt l = Some j \<longrightarrow> j < length q) \<and> stands H q i k0 w0 (npos l) k u l"

text \<open>The invariant of a worker, for each phase.\<close>

fun worker_inv ::
  "phase \<Rightarrow> (timespec \<times> ctmp_msg) list \<Rightarrow> queue \<Rightarrow> int \<Rightarrow> nat \<Rightarrow> byte list \<Rightarrow> wlocal \<Rightarrow> bool" where
  "worker_inv P_Get H q i k0 w0 l \<longleftrightarrow>
     nxt l = cur l \<and> cursor_in q l \<and> stands H q i k0 w0 (gpos l) (gpos l) [] l"
| "worker_inv P_Alive H q i k0 w0 l \<longleftrightarrow> (\<exists>c. on_entry H q i k0 w0 c c [] l)"
| "worker_inv P_Time H q i k0 w0 l \<longleftrightarrow> (\<exists>c. on_entry H q i k0 w0 c c [] l)"
| "worker_inv P_Flag H q i k0 w0 l \<longleftrightarrow> (\<exists>c. wts l < fst (H ! c) \<and> on_entry H q i k0 w0 c c [] l)"
| "worker_inv P_Header H q i k0 w0 l \<longleftrightarrow> (\<exists>c. wts l < fst (H ! c) \<and> on_entry H q i k0 w0 c c [] l)"
| "worker_inv (P_Data m) H q i k0 w0 l \<longleftrightarrow>
     (\<exists>c. wts l < fst (H ! c) \<and> m = snd (H ! c) \<and> on_entry H q i k0 w0 c c (header m) l)"
| "worker_inv P_Mark H q i k0 w0 l \<longleftrightarrow> (\<exists>c u. part_of H c u l \<and> on_entry H q i k0 w0 c c u l)"
| "worker_inv P_Next H q i k0 w0 l \<longleftrightarrow> (\<exists>c u. part_of H c u l \<and> on_entry H q i k0 w0 c (Suc c) u l)"
| "worker_inv P_Hangup H q i k0 w0 l \<longleftrightarrow>
     (\<exists>k u. k < length q \<and> prefix u (entitled H (wts l) k (Suc k)) \<and> on_leaving H q i k0 w0 k u l)"
| "worker_inv P_Wait H q i k0 w0 l \<longleftrightarrow>
     (\<exists>k u. k < length q \<and> prefix u (entitled H (wts l) k (Suc k)) \<and> on_leaving H q i k0 w0 k u l)"
| "worker_inv P_Reset H q i k0 w0 l \<longleftrightarrow> on_leaving H q i k0 w0 (npos l) [] l"
| "worker_inv P_Write H q i k0 w0 l \<longleftrightarrow> on_leaving H q i k0 w0 (npos l) [] l"
| "worker_inv P_Advance H q i k0 w0 l \<longleftrightarrow> on_leaving H q i k0 w0 (npos l) [] l"

section \<open>Steps of other threads\<close>

lemma stands_grows:
  "stands H q i k0 w0 f k u l \<Longrightarrow> length H = length q \<Longrightarrow> grows i q q' \<Longrightarrow>
   stands (H @ X) q' i k0 w0 f k u l"
  by (auto simp: stands_def unmarked_grows) (simp add: grows_def)

lemma on_entry_grows:
  "on_entry H q i k0 w0 c f u l \<Longrightarrow> length H = length q \<Longrightarrow> grows i q q' \<Longrightarrow>
   on_entry (H @ X) q' i k0 w0 c f u l"
  unfolding on_entry_def by (auto simp: stands_grows) (simp_all add: grows_def)

lemma on_leaving_grows:
  "on_leaving H q i k0 w0 k u l \<Longrightarrow> length H = length q \<Longrightarrow> grows i q q' \<Longrightarrow>
   on_leaving (H @ X) q' i k0 w0 k u l"
  unfolding on_leaving_def by (fastforce simp: stands_grows grows_def)

lemma part_of_append: "part_of H c u l \<Longrightarrow> c < length H \<Longrightarrow> part_of (H @ X) c u l"
  by (simp add: part_of_def)

lemma worker_inv_grows:
  assumes "worker_inv P H q i k0 w0 l" "length H = length q" "grows i q q'"
  shows "worker_inv P (H @ X) q' i k0 w0 l"
proof -
  note grow = stands_grows [OF _ assms(2,3)] on_entry_grows [OF _ assms(2,3)] on_leaving_grows [OF _ assms(2,3)]
  have len: "length q \<le> length q'" using assms(3) by (simp add: grows_def)
  have at: "c < length H" if "on_entry H q i k0 w0 c f u l" for c f u
    using that assms(2) by (simp add: on_entry_def)
  have fst_H: "(H @ X) ! c = H ! c" if "on_entry H q i k0 w0 c f u l" for c f u
    using at [OF that] by (simp add: nth_append)
  show ?thesis
  proof (cases P)
    case P_Get
    with assms(1) len grow(1) show ?thesis by (fastforce simp: cursor_in_def)
  next
    case P_Flag
    with assms(1) obtain c where "wts l < fst (H ! c)" "on_entry H q i k0 w0 c c [] l" by auto
    with P_Flag grow(2) fst_H show ?thesis by (auto intro!: exI [of _ c])
  next
    case P_Header
    with assms(1) obtain c where "wts l < fst (H ! c)" "on_entry H q i k0 w0 c c [] l" by auto
    with P_Header grow(2) fst_H show ?thesis by (auto intro!: exI [of _ c])
  next
    case (P_Data m)
    with assms(1) obtain c where "wts l < fst (H ! c)" "m = snd (H ! c)"
        "on_entry H q i k0 w0 c c (header m) l" by auto
    with P_Data grow(2) fst_H show ?thesis by (auto intro!: exI [of _ c])
  next
    case P_Mark
    with assms(1) obtain c u where "part_of H c u l" "on_entry H q i k0 w0 c c u l" by auto
    with P_Mark grow(2) part_of_append at show ?thesis by fastforce
  next
    case P_Next
    with assms(1) obtain c u where "part_of H c u l" "on_entry H q i k0 w0 c (Suc c) u l" by auto
    with P_Next grow(2) part_of_append at show ?thesis by fastforce
  next
    case P_Hangup
    with assms(1) obtain k u where "k < length q" "prefix u (entitled H (wts l) k (Suc k))"
        "on_leaving H q i k0 w0 k u l" by auto
    with P_Hangup grow(3) len assms(2) show ?thesis by (auto intro!: exI [of _ k] exI [of _ u])
  next
    case P_Wait
    with assms(1) obtain k u where "k < length q" "prefix u (entitled H (wts l) k (Suc k))"
        "on_leaving H q i k0 w0 k u l" by auto
    with P_Wait grow(3) len assms(2) show ?thesis by (auto intro!: exI [of _ k] exI [of _ u])
  next
    case P_Alive
    with assms(1) grow(2) show ?thesis by fastforce
  next
    case P_Time
    with assms(1) grow(2) show ?thesis by fastforce
  qed (use assms(1) grow(3) in \<open>auto\<close>)
qed

section \<open>Steps of a worker\<close>

text \<open>What a step of a worker does to the queue.\<close>

lemma entry_at_Inr: "entry_at q p = Inr (c, e) \<longleftrightarrow> p = Some c \<and> c < length q \<and> e = q ! c"
  by (auto simp: entry_at_def split: option.splits if_splits)

lemma wstep_queue:
  assumes "wstep i q l = Inr (q', l')"
  shows "q' = q \<or> (\<exists>c e v. c < length q \<and> set_sent (q ! c) i v = Inr e \<and> q' = q[c := e])"
proof (cases "ph l")
  case P_Header
  with assms obtain c m where "cur l = Some c" "msg (q ! c) = Some m" "c < length q"
    by (auto simp: wstep_def fault_simps entry_at_Inr split: option.splits)
  moreover obtain r cl where "send_msg (header m) (wcl l) = (r, cl)" by fastforce
  ultimately show ?thesis
    using assms P_Header by (auto simp: wstep_def entry_at_def split: if_splits)
qed (use assms in \<open>auto simp: wstep_def fault_simps entry_at_Inr split: option.splits prod.splits if_splits\<close>)

lemma entry_ok_set_sent:
  "entry_ok host h e \<Longrightarrow> flag_pos i \<Longrightarrow> set_sent e i v = Inr e' \<Longrightarrow> entry_ok host h e'"
  using set_sent_Inr [of i e v e'] by (auto simp: entry_ok_def)

lemma wstep_hist_ok:
  assumes "wstep i q l = Inr (q', l')" "flag_pos i" "hist_ok host H q"
  shows "hist_ok host H q'"
  using wstep_queue [OF assms(1)] entry_ok_set_sent [OF hist_ok_at [OF assms(3)] assms(2)]
    hist_ok_update [OF assms(3)] assms(3)
  by blast

lemma wstep_grows:
  assumes "wstep i q l = Inr (q', l')" "flag_pos i" "j \<noteq> i"
  shows "grows j q q'"
  using wstep_queue [OF assms(1)]
proof
  assume "\<exists>c e v. c < length q \<and> set_sent (q ! c) i v = Inr e \<and> q' = q[c := e]"
  then obtain c e v where "set_sent (q ! c) i v = Inr e" "q' = q[c := e]" by blast
  with set_sent_Inr(5) [OF assms(2) this(1)] assms(3) show ?thesis
    by (auto intro!: grows_update split: if_splits)
qed simp

lemma header_part:
  assumes "hist_ok host H q" "c < length q" "ts < fst (H ! c)"
  shows "entitled H ts c (Suc c) = header (snd (H ! c)) @ payload (snd (H ! c))"
  using assms hist_ok_length [OF assms(1)] by (simp add: entitled_Suc msg_bytes_def)

lemma stands_wire:
  "stands H q i k0 w0 f k u l \<Longrightarrow> wire c = wire (wcl l) @ x \<Longrightarrow>
   stands H q i k0 w0 f k (u @ x) (l\<lparr>wcl := c\<rparr>)"
  by (simp add: stands_def)

lemma stands_same:
  "stands H q i k0 w0 f k u l \<Longrightarrow> wcl l' = wcl l \<Longrightarrow> wts l' = wts l \<Longrightarrow> stands H q i k0 w0 f k u l'"
  by (simp add: stands_def)

lemma inv_get:
  assumes "worker_inv P_Get H q i k0 w0 l" "get_msg_entry q (cur l) (prv l) False = Inr c"
  shows "on_entry H q i k0 w0 c c [] (l\<lparr>cur := Some c, ph := P_Alive\<rparr>)"
proof -
  have "gpos l = c" "nxt l \<in> {None, Some c}"
    using assms
    by (auto simp: gpos_def get_msg_entry_def wait_until_def TAILQ_FIRST_def TAILQ_NEXT_def cursor_in_def
        fault_simps split: option.splits if_splits)
  moreover have "c < length q" by (rule get_in_range [OF _ assms(2)]) (use assms(1) in simp)
  ultimately show ?thesis using assms(1) by (simp add: on_entry_def stands_def)
qed

lemma inv_header:
  assumes "hist_ok host H q" "wts l < fst (H ! c)" "on_entry H q i k0 w0 c c [] l"
    and "msg (q ! c) = Some m" "send_msg (header m) (wcl l) = (res, cl)"
  shows "m = snd (H ! c) \<and>
    (if res < 0 then worker_inv P_Mark H q i k0 w0 (l\<lparr>wcl := cl, bsent := res, ph := P_Mark\<rparr>)
     else worker_inv (P_Data m) H q i k0 w0 (l\<lparr>wcl := cl, ph := P_Data m\<rparr>))"
proof -
  have c: "c < length q" using assms(3) by (simp add: on_entry_def)
  have m: "m = snd (H ! c)" using hist_ok_at [OF assms(1) c] assms(4) by (auto simp: entry_ok_def)
  obtain u where u: "wire cl = wire (wcl l) @ take u (header m)" "\<not> res < 0 \<longrightarrow> u = length (header m)"
    using send_msg_prefix [OF assms(5)] by blast
  have "prefix (take u (header m)) (entitled H (wts l) c (Suc c))"
    using header_part [OF assms(1) c assms(2)] m by (simp add: take_is_prefix prefix_prefix)
  with u m assms(2,3) show ?thesis
    by (auto simp: on_entry_def stands_def part_of_def)
qed

lemma inv_data:
  assumes "hist_ok host H q" "wts l < fst (H ! c)" "on_entry H q i k0 w0 c c (header m) l" "m = snd (H ! c)"
    and "data m = Some buf" "send_msg (take (unat (len m)) buf) (wcl l) = (res, cl)"
  shows "worker_inv P_Mark H q i k0 w0 (l\<lparr>wcl := cl, bsent := res, ph := P_Mark\<rparr>)"
proof -
  have c: "c < length q" using assms(3) by (simp add: on_entry_def)
  have p: "take (unat (len m)) buf = payload m" using assms(5) by (simp add: payload_def)
  obtain u where u: "wire cl = wire (wcl l) @ take u (payload m)" "\<not> res < 0 \<longrightarrow> u = length (payload m)"
    using send_msg_prefix [OF assms(6)] p by auto
  have "part_of H c (header m @ take u (payload m)) (l\<lparr>wcl := cl, bsent := res, ph := P_Mark\<rparr>)"
    using header_part [OF assms(1) c assms(2)] u(2) assms(4) by (simp add: part_of_def take_is_prefix)
  with u(1) assms(3) show ?thesis by (fastforce simp: on_entry_def stands_def)
qed

lemma inv_mark:
  assumes "flag_pos i" "on_entry H q i k0 w0 c c u l" "set_sent (q ! c) i True = Inr e"
  shows "on_entry H (q[c := e]) i k0 w0 c (Suc c) u (l\<lparr>ph := P_Next\<rparr>)"
  using assms unmarked_update [of i "Suc c" q c e] unmarked_mono [of i c q "Suc c"]
  by (simp add: on_entry_def stands_def)

lemma inv_next:
  assumes "length H = length q" "part_of H c u l" "on_entry H q i k0 w0 c (Suc c) u l"
  shows "worker_inv (if bsent l < 0 then P_Hangup else P_Advance) H q i k0 w0
    (l\<lparr>nxt := TAILQ_NEXT q c, ph := P\<rparr>)"
proof -
  let ?l = "l\<lparr>nxt := TAILQ_NEXT q c, ph := P\<rparr>"
  have n: "npos ?l = Suc c" using assms(3) by (simp add: npos_def on_entry_def TAILQ_NEXT_def)
  show ?thesis
  proof (cases "bsent l < 0")
    case True
    with n assms(2,3) show ?thesis
      by (auto simp: on_leaving_def on_entry_def stands_def part_of_def TAILQ_NEXT_def
          intro!: exI [of _ c] exI [of _ u] split: if_splits)
  next
    case False
    with assms(2,3) entitled_split [of k0 c "Suc c" H "wts l"] n show ?thesis
      by (auto simp: on_leaving_def on_entry_def stands_def part_of_def TAILQ_NEXT_def split: if_splits)
  qed
qed

lemma inv_write:
  assumes "flag_pos i" "on_leaving H q i k0 w0 (npos l) [] l" "set_sent (q ! c) i False = Inr e"
  shows "on_leaving H (q[c := e]) i k0 w0 (npos l) [] l"
  using assms set_sent_Inr(5) [OF assms(1,3)] unmarked_update [of i "npos l" q c e]
  by (auto simp: on_leaving_def stands_def)

lemma inv_advance:
  assumes "on_leaving H q i k0 w0 (npos l) [] l"
  shows "worker_inv P_Get H q i k0 w0 (l\<lparr>prv := cur l, cur := nxt l, ph := P_Get\<rparr>)"
proof -
  let ?l = "l\<lparr>prv := cur l, cur := nxt l, ph := P_Get\<rparr>"
  have "gpos ?l = npos l"
    using assms by (auto simp: gpos_def npos_def on_leaving_def split: option.splits)
  with assms show ?thesis by (auto simp: on_leaving_def stands_def cursor_in_def)
qed

lemma npos_ph [simp]: "npos (l\<lparr>ph := p\<rparr>) = npos l"
  by (cases "nxt l") (simp_all add: npos_def)

lemma set_ph [simp]:
  "stands H q i k0 w0 f k u (l\<lparr>ph := p\<rparr>) = stands H q i k0 w0 f k u l"
  "on_entry H q i k0 w0 c f u (l\<lparr>ph := p\<rparr>) = on_entry H q i k0 w0 c f u l"
  "on_leaving H q i k0 w0 k u (l\<lparr>ph := p\<rparr>) = on_leaving H q i k0 w0 k u l"
  "part_of H k u (l\<lparr>ph := p\<rparr>) = part_of H k u l"
  by (simp_all add: stands_def on_entry_def on_leaving_def part_of_def)

lemma entry_leaving:
  assumes "on_entry H q i k0 w0 c c u l"
  shows "on_leaving H q i k0 w0 c u l"
proof -
  have "npos l \<in> {c, Suc c}" "c \<le> npos l" using assms by (auto simp: on_entry_def npos_def)
  with assms unmarked_mono [of i c q "npos l"] show ?thesis
    by (auto simp: on_leaving_def on_entry_def stands_def)
qed

text \<open>A receiver keeps its time stamp, and its worker the invariant.\<close>

lemma worker_inv_wstep:
  assumes hist: "hist_ok host H q" and pos: "flag_pos i"
    and inv: "worker_inv (ph l) H q i k0 w0 l" and step: "wstep i q l = Inr (q', l')"
  shows "worker_inv (ph l') H q' i k0 w0 l'"
proof -
  have eq: "wstep_at (ph l) i q l = Inr (q', l')" using step by (simp add: wstep_def)
  show ?thesis
  proof (cases "ph l")
    case P_Get
    with eq obtain c where c: "get_msg_entry q (cur l) (prv l) False = Inr c"
        "q' = q" "l' = l\<lparr>cur := Some c, ph := P_Alive\<rparr>"
      by (auto simp: fault_simps)
    with inv_get [of H q i k0 w0 l c] inv P_Get show ?thesis by auto
  next
    case P_Alive
    with inv obtain c where c: "on_entry H q i k0 w0 c c [] l" by auto
    then have "c < length q" "on_leaving H q i k0 w0 c [] l"
      by (simp_all add: on_entry_def entry_leaving)
    with eq c P_Alive show ?thesis by (auto intro!: exI [of _ c] exI [of _ "[]"] split: if_splits)
  next
    case P_Time
    with inv obtain c where c: "on_entry H q i k0 w0 c c [] l" by auto
    then have at: "cur l = Some c" "c < length q" by (simp_all add: on_entry_def)
    have t: "timestamp (q ! c) = fst (H ! c)" using hist_ok_at [OF hist at(2)] by (simp add: entry_ok_def)
    have e: "\<not> wts l < fst (H ! c) \<Longrightarrow> entitled H (wts l) c (Suc c) = []"
      using at(2) hist_ok_length [OF hist] by (simp add: entitled_Suc)
    from c have "on_entry H q i k0 w0 c (Suc c) [] l"
      using unmarked_mono [of i c q "Suc c"] by (simp add: on_entry_def stands_def)
    with eq c P_Time at t e show ?thesis
      by (auto simp: entry_at_def compare_times_iff_less part_of_def
          intro!: exI [of _ c] exI [of _ "[]"] split: if_splits)
  next
    case P_Flag
    with inv obtain c where c: "wts l < fst (H ! c)" "on_entry H q i k0 w0 c c [] l" by auto
    then have at: "cur l = Some c" "c < length q" "i \<notin> sent_flags (q ! c)"
      by (simp_all add: on_entry_def stands_def unmarked_def)
    have "sent (q ! c) \<noteq> None" using eq P_Flag at by (auto simp: entry_at_def is_sent_def split: option.splits)
    with is_sent_flags [OF pos this] eq P_Flag at have "q' = q" "l' = l\<lparr>ph := P_Header\<rparr>"
      by (auto simp: entry_at_def)
    with c show ?thesis by auto
  next
    case P_Header
    with inv obtain c where c: "wts l < fst (H ! c)" "on_entry H q i k0 w0 c c [] l" by auto
    then have at: "cur l = Some c" "c < length q" by (simp_all add: on_entry_def)
    with eq P_Header obtain m where m: "msg (q ! c) = Some m"
      by (auto simp: entry_at_def split: option.splits)
    obtain r cl where s: "send_msg (header m) (wcl l) = (r, cl)" by fastforce
    from inv_header [OF hist c m s] eq P_Header at m s show ?thesis
      by (auto simp: entry_at_def simp del: worker_inv.simps split: if_splits)
  next
    case (P_Data m)
    with inv obtain c where c: "wts l < fst (H ! c)" "m = snd (H ! c)"
        "on_entry H q i k0 w0 c c (header m) l" by auto
    then have at: "cur l = Some c" "c < length q" by (simp_all add: on_entry_def)
    with eq P_Data obtain buf where b: "data m = Some buf" "\<not> length buf < unat (len m)" "msg (q ! c) \<noteq> None"
      by (auto simp: entry_at_def split: option.splits if_splits)
    obtain r cl where s: "send_msg (take (unat (len m)) buf) (wcl l) = (r, cl)" by fastforce
    from inv_data [OF hist c(1,3,2) b(1) s] eq P_Data at b s show ?thesis
      by (auto simp: entry_at_def simp del: worker_inv.simps)
  next
    case P_Mark
    with inv obtain c u where c: "part_of H c u l" "on_entry H q i k0 w0 c c u l" by auto
    then have at: "cur l = Some c" "c < length q" by (simp_all add: on_entry_def)
    with eq P_Mark obtain e where e: "set_sent (q ! c) i True = Inr e" "q' = q[c := e]" "l' = l\<lparr>ph := P_Next\<rparr>"
      by (auto simp: entry_at_def fault_simps)
    with inv_mark [OF pos c(2) e(1)] c(1) show ?thesis by auto
  next
    case P_Next
    with inv obtain c u where c: "part_of H c u l" "on_entry H q i k0 w0 c (Suc c) u l" by auto
    then have at: "cur l = Some c" "c < length q" by (simp_all add: on_entry_def)
    with inv_next [OF hist_ok_length [OF hist] c] eq P_Next show ?thesis
      by (auto simp: entry_at_def simp del: worker_inv.simps split: if_splits)
  next
    case P_Hangup
    with inv eq show ?thesis by auto blast
  next
    case P_Wait
    with eq show ?thesis by simp
  next
    case P_Reset
    with inv eq show ?thesis by (auto simp: fault_simps entry_at_Inr split: if_splits)
  next
    case P_Write
    with eq obtain c e where e: "set_sent (q ! c) i False = Inr e" "q' = q[c := e]" "l' = l\<lparr>ph := P_Advance\<rparr>"
      by (auto simp: fault_simps entry_at_Inr)
    with inv_write [OF pos _ e(1)] inv P_Write show ?thesis
      by auto
  next
    case P_Advance
    with eq inv inv_advance [of H q i k0 w0 l] show ?thesis by auto
  qed
qed

section \<open>The cleanup worker\<close>

definition cleanup_inv :: "queue \<Rightarrow> clocal \<Rightarrow> bool" where
  "cleanup_inv q k \<longleftrightarrow> kcursor_in q k \<and> (kph k \<noteq> C_Get \<longrightarrow> kcur k \<noteq> None) \<and>
     (\<forall>c. kph k = C_Free_Msg \<longrightarrow> kcur k = Some c \<longrightarrow> sent (q ! c) = None)"

text \<open>Other threads do not give an entry a mask again.\<close>

definition keeps_freed :: "queue \<Rightarrow> queue \<Rightarrow> bool" where
  "keeps_freed q q' \<longleftrightarrow> length q \<le> length q' \<and>
     (\<forall>c < length q. sent (q ! c) = None \<longrightarrow> sent (q' ! c) = None)"

lemma cleanup_inv_keeps: "cleanup_inv q k \<Longrightarrow> keeps_freed q q' \<Longrightarrow> cleanup_inv q' k"
  unfolding cleanup_inv_def kcursor_in_def keeps_freed_def by fastforce

lemma keeps_freed_append: "keeps_freed q (TAILQ_INSERT_TAIL q e)"
  by (simp add: keeps_freed_def TAILQ_INSERT_TAIL_def nth_append)

lemma keeps_freed_wstep:
  assumes "wstep i q l = Inr (q', l')" "flag_pos i"
  shows "keeps_freed q q'"
  using wstep_queue [OF assms(1)]
  by (auto simp: keeps_freed_def nth_upd set_sent_def split: option.splits)

lemma cstep_total:
  assumes "cleanup_inv q k"
  shows "(\<exists>q' k'. cstep ttl now q k = Inr (q', k')) \<or> cstep ttl now q k = Inl Would_Block \<and> kph k = C_Get"
proof (cases "kph k")
  case C_Get
  then show ?thesis
    by (cases "get_msg_entry q (kcur k) (kprv k) True")
      (auto simp: cstep_def get_msg_entry_def wait_until_def fault_simps bindF_def
        split: if_splits option.splits)
qed (use assms in \<open>auto simp: cleanup_inv_def kcursor_in_def cstep_def entry_ptr_def\<close>)

lemma cstep_inv:
  assumes "cstep ttl now q k = Inr (q', k')" "cleanup_inv q k" "hist_ok host H q"
  shows "cleanup_inv q' k' \<and> hist_ok host H q' \<and> grows i q q'"
proof (cases "kph k")
  case C_Get
  with assms(1) obtain c where c: "get_msg_entry q (kcur k) (kprv k) True = Inr c" "q' = q"
      "k' = k\<lparr>kcur := Some c, kph := C_Check\<rparr>"
    by (auto simp: cstep_def fault_simps)
  moreover have "c < length q" using kget_in_range [OF _ c(1)] assms(2) by (simp add: cleanup_inv_def)
  ultimately show ?thesis using assms(2,3) by (auto simp: cleanup_inv_def kcursor_in_def)
next
  case C_Check
  with assms show ?thesis
    by (auto simp: cstep_def entry_ptr_def fault_simps cleanup_inv_def kcursor_in_def split: if_splits)
next
  case C_Free_Sent
  with assms(2) obtain c where c: "kcur k = Some c" "c < length q"
    by (auto simp: cleanup_inv_def kcursor_in_def)
  with C_Free_Sent assms(1) have q': "q' = q[c := (q ! c)\<lparr>sent := None\<rparr>]" "k' = k\<lparr>kph := C_Free_Msg\<rparr>"
    by (auto simp: cstep_def entry_ptr_def)
  moreover have "entry_ok host (H ! c) ((q ! c)\<lparr>sent := None\<rparr>)"
    using hist_ok_at [OF assms(3) c(2)] by (auto simp: entry_ok_def)
  moreover have "grows i q q'" unfolding q' by (rule grows_update) (simp add: sent_flags_def)
  ultimately show ?thesis
    using c assms(2) hist_ok_update [OF assms(3)] by (auto simp: cleanup_inv_def kcursor_in_def)
next
  case C_Free_Msg
  with assms(2) obtain c where c: "kcur k = Some c" "c < length q" "sent (q ! c) = None"
    by (auto simp: cleanup_inv_def kcursor_in_def)
  with C_Free_Msg assms(1) have q': "q' = q[c := (q ! c)\<lparr>msg := None\<rparr>]" "k' = k\<lparr>kph := C_Next\<rparr>"
    by (auto simp: cstep_def entry_ptr_def)
  moreover have "entry_ok host (H ! c) ((q ! c)\<lparr>msg := None\<rparr>)"
    using hist_ok_at [OF assms(3) c(2)] c(3) by (auto simp: entry_ok_def)
  moreover have "grows i q q'" unfolding q' by (rule grows_update) (simp add: sent_flags_def)
  ultimately show ?thesis
    using c assms(2) hist_ok_update [OF assms(3)] by (auto simp: cleanup_inv_def kcursor_in_def)
next
  case C_Next
  with assms show ?thesis
    by (auto simp: cstep_def entry_ptr_def cleanup_inv_def kcursor_in_def TAILQ_NEXT_def split: if_splits)
qed

lemma stands_client:
  "wire c = wire (wcl l) \<Longrightarrow> stands H q i k0 w0 f k u (l\<lparr>wcl := c\<rparr>) = stands H q i k0 w0 f k u l"
  by (simp add: stands_def)

lemma worker_inv_client:
  assumes "worker_inv P H q i k0 w0 l" "wire c = wire (wcl l)"
  shows "worker_inv P H q i k0 w0 (l\<lparr>wcl := c\<rparr>)"
proof -
  note st = stands_client [OF assms(2)]
  have "gpos (l\<lparr>wcl := c\<rparr>) = gpos l" "npos (l\<lparr>wcl := c\<rparr>) = npos l"
    by (cases "cur l"; cases "nxt l"; simp add: gpos_def npos_def)+
  with assms(1) st show ?thesis
    by (cases P) (auto simp: cursor_in_def on_entry_def on_leaving_def part_of_def)
qed

lemma worker_inv_assign:
  assumes "worker_inv P_Wait H q i k0 w0 l"
  shows "worker_inv P_Reset H q i (npos l) (wire cl) (assign cl ts l)"
proof -
  have "npos (assign cl ts l) = npos l" by (cases "nxt l") (simp_all add: assign_def npos_def)
  with assms show ?thesis
    by (auto simp: on_leaving_def stands_def assign_def)
qed

lemma worker_inv_init:
  "worker_inv P_Get [] [] i 0 (wire cl) (init_local cl ts)"
  by (simp add: init_local_def cursor_in_def gpos_def stands_def unmarked_def)

section \<open>All threads\<close>

definition slot_inv :: "nat \<Rightarrow> system \<Rightarrow> nat \<Rightarrow> bool" where
  "slot_inv n s i \<longleftrightarrow>
     (case wl s i of
        None \<Rightarrow> unmarked (int i) 0 (sq s)
      | Some l \<Rightarrow> i < n \<and> worker_inv (ph l) (hist s) (sq s) (int i) (jpos s i) (jbase s i) l)"

definition sys_inv :: "endian \<Rightarrow> nat \<Rightarrow> system \<Rightarrow> bool" where
  "sys_inv host n s \<longleftrightarrow>
     hist_ok host (hist s) (sq s) \<and> cleanup_inv (sq s) (kl s) \<and> (\<forall>i. slot_inv n s i)"

lemma sys_inv_init: "sys_inv host n init_system"
  by (simp add: sys_inv_def slot_inv_def init_system_def hist_ok_def cleanup_inv_def init_cleanup_def
      kcursor_in_def unmarked_def)

lemma sys_inv_length: "sys_inv host n s \<Longrightarrow> length (hist s) = length (sq s)"
  unfolding sys_inv_def by (blast dest: hist_ok_length)

lemma slot_inv_grows:
  assumes "slot_inv n s j" "length (hist s) = length (sq s)" "grows (int j) (sq s) (sq t)"
    and "hist t = hist s @ X" "wl t j = wl s j" "jpos t j = jpos s j" "jbase t j = jbase s j"
  shows "slot_inv n t j"
  using assms unmarked_grows worker_inv_grows by (auto simp: slot_inv_def split: option.splits)

text \<open>A step that concerns all threads alike, and one of worker \<open>i\<close>.\<close>

lemma sys_inv_shared:
  assumes "sys_inv host n s" "hist_ok host (hist t) (sq t)" "cleanup_inv (sq t) (kl t)"
    and "hist t = hist s @ X" "\<And>j. grows (int j) (sq s) (sq t)"
    and "wl t = wl s" "jpos t = jpos s" "jbase t = jbase s"
  shows "sys_inv host n t"
proof -
  have "slot_inv n t j" for j
    using slot_inv_grows [of n s j t X] assms hist_ok_length by (auto simp: sys_inv_def)
  with assms(2,3) show ?thesis by (simp add: sys_inv_def)
qed

lemma sys_inv_slot:
  assumes "sys_inv host n s" "hist_ok host (hist s) (sq t)" "cleanup_inv (sq t) (kl t)"
    and "hist t = hist s" "\<And>j. j \<noteq> i \<Longrightarrow> grows (int j) (sq s) (sq t)"
    and "\<And>j. j \<noteq> i \<Longrightarrow> wl t j = wl s j \<and> jpos t j = jpos s j \<and> jbase t j = jbase s j"
    and "slot_inv n t i"
  shows "sys_inv host n t"
proof -
  have "length (hist s) = length (sq s)" by (rule sys_inv_length [OF assms(1)])
  then have "slot_inv n t j" for j
    using slot_inv_grows [of n s j t "[]"] assms by (cases "j = i") (auto simp: sys_inv_def)
  with assms(2-4) show ?thesis by (simp add: sys_inv_def)
qed

lemma sys_inv_step:
  assumes inv: "sys_inv host n s" and step: "sys_step host ttl n s t" and n: "n \<le> 32"
  shows "sys_inv host n t"
proof -
  obtain a where a: "allowed host n a s" "perform ttl a s = Inr t" using step by (rule sys_stepE)
  have h: "hist_ok host (hist s) (sq s)" "cleanup_inv (sq s) (kl s)" and sl: "slot_inv n s i" for i
    using inv by (simp_all add: sys_inv_def)
  show ?thesis
  proof (cases a)
    case (Publish ts m)
    with a have "t = s\<lparr>sq := TAILQ_INSERT_TAIL (sq s) (new_entry ts m), hist := hist s @ [(ts, m)]\<rparr>" "wf_msg host m"
      by auto
    then show ?thesis
      using sys_inv_shared [OF inv, of t "[(ts, m)]"] hist_ok_append [OF h(1)] grows_append
        cleanup_inv_keeps [OF h(2) keeps_freed_append] by simp
  next
    case (Create i cl ts)
    with a have t: "t = set_worker i (init_local cl ts) (join i 0 cl s)" "wl s i = None" "i < n" by auto
    have "grows (int i) [] (sq s)"
      using sl [of i] t(2) by (simp add: slot_inv_def grows_def unmarked_def)
    with worker_inv_grows [OF worker_inv_init [of "int i" cl ts] _ this, of "hist s"] t
    have "slot_inv n t i" by (simp add: slot_inv_def set_worker_def join_def init_local_def)
    with t h show ?thesis
      by (intro sys_inv_slot [OF inv, of t i]) (auto simp: set_worker_def join_def)
  next
    case (Reassign i cl ts)
    with a obtain l where t: "wl s i = Some l" "ph l = P_Wait" "t = set_worker i (assign cl ts l) (join i (npos l) cl s)"
      using performed_Reassign by blast
    with sl [of i] worker_inv_assign [of "hist s" "sq s" "int i" "jpos s i" "jbase s i" l cl ts]
    have "slot_inv n t i" by (simp add: slot_inv_def set_worker_def join_def assign_def)
    with t h show ?thesis
      by (intro sys_inv_slot [OF inv, of t i]) (auto simp: set_worker_def join_def)
  next
    case (Work i)
    with a obtain l q l' where t: "wl s i = Some l" "wstep (int i) (sq s) l = Inr (q, l')"
        "t = set_worker i l' (s\<lparr>sq := q\<rparr>)"
      using performed_Work by blast
    with sl [of i] have i: "i < n" "worker_inv (ph l) (hist s) (sq s) (int i) (jpos s i) (jbase s i) l"
      by (simp_all add: slot_inv_def)
    then have pos: "flag_pos (int i)" using n by (simp add: flag_pos_def)
    have "slot_inv n t i"
      using worker_inv_wstep [OF h(1) pos i(2) t(2)] t(3) i(1) by (simp add: slot_inv_def set_worker_def)
    with t h wstep_hist_ok [OF t(2) pos h(1)] wstep_grows [OF t(2) pos]
      cleanup_inv_keeps [OF h(2) keeps_freed_wstep [OF t(2) pos]] show ?thesis
      by (intro sys_inv_slot [OF inv, of t i]) (auto simp: set_worker_def)
  next
    case (Clean now)
    with a obtain q k where t: "cstep ttl now (sq s) (kl s) = Inr (q, k)" "t = s\<lparr>sq := q, kl := k\<rparr>"
      by (auto simp: fault_simps)
    with cstep_inv [OF t(1) h(2,1)] show ?thesis
      by (intro sys_inv_shared [OF inv, of t "[]"]) auto
  next
    case (Connection i rxs txs)
    with a obtain l where t: "wl s i = Some l" "t = set_worker i (l\<lparr>wcl := (wcl l)\<lparr>crx := rxs, tx := txs\<rparr>\<rparr>) s"
      by auto
    with sl [of i] worker_inv_client [of "ph l" _ _ _ _ _ l "(wcl l)\<lparr>crx := rxs, tx := txs\<rparr>"]
    have "slot_inv n t i" by (simp add: slot_inv_def set_worker_def)
    with t h show ?thesis
      by (intro sys_inv_slot [OF inv, of t i]) (auto simp: set_worker_def)
  qed
qed

lemma sys_inv_steps:
  "(sys_step host ttl n)\<^sup>*\<^sup>* s t \<Longrightarrow> sys_inv host n s \<Longrightarrow> n \<le> 32 \<Longrightarrow> sys_inv host n t"
  by (induction rule: rtranclp_induct) (auto intro: sys_inv_step)

lemma reachable_sys_inv: "sys_reachable host ttl n s \<Longrightarrow> n \<le> 32 \<Longrightarrow> sys_inv host n s"
  using sys_inv_steps sys_inv_init by blast

end
