(* ===== verification/Relay_Spec.thy ===== *)
theory Relay_Spec
  imports Relay_Safety
begin

text \<open>
  What the relay promises, over the steps of \<^theory_text>\<open>Relay_System\<close>: an abstract relay that the system of
  threads refines, what every receiver has been sent at any moment, when a worker can fault, and the
  orders of steps in which the program goes wrong.
\<close>

section \<open>The abstract relay\<close>

text \<open>
  A log of messages and, for each worker, its present receiver: when it connected, from which position
  of the log on it is served, and what it has been sent since.
\<close>

record receiver =
  r_ts :: timespec
  r_from :: nat
  r_out :: "byte list"

record relay =
  log :: "(timespec \<times> ctmp_msg) list"
  recv :: "nat \<Rightarrow> receiver option"

definition stream_of :: "(timespec \<times> ctmp_msg) list \<Rightarrow> receiver \<Rightarrow> byte list" where
  "stream_of L r = entitled L (r_ts r) (r_from r) (length L)"

inductive relay_step :: "relay \<Rightarrow> relay \<Rightarrow> bool" where
  publish: "relay_step a (a\<lparr>log := log a @ [(ts, m)]\<rparr>)"
| join: "k \<le> length (log a) \<Longrightarrow>
     relay_step a (a\<lparr>recv := (recv a)(i := Some \<lparr>r_ts = ts, r_from = k, r_out = []\<rparr>)\<rparr>)"
| send: "recv a i = Some r \<Longrightarrow> prefix (r_out r @ bs) (stream_of (log a) r) \<Longrightarrow>
     relay_step a (a\<lparr>recv := (recv a)(i := Some (r\<lparr>r_out := r_out r @ bs\<rparr>))\<rparr>)"

text \<open>A simulation: every step of the concrete system is a number of steps of the abstract one.\<close>

locale simulation =
  fixes conc :: "'c \<Rightarrow> 'c \<Rightarrow> bool"
    and spec :: "'a \<Rightarrow> 'a \<Rightarrow> bool"
    and inv :: "'c \<Rightarrow> bool"
    and abs_of :: "'c \<Rightarrow> 'a"
  assumes inv_conc: "inv s \<Longrightarrow> conc s t \<Longrightarrow> inv t"
    and sim_conc: "inv s \<Longrightarrow> conc s t \<Longrightarrow> spec\<^sup>*\<^sup>* (abs_of s) (abs_of t)"
begin

lemma simulated: "conc\<^sup>*\<^sup>* s t \<Longrightarrow> inv s \<Longrightarrow> inv t \<and> spec\<^sup>*\<^sup>* (abs_of s) (abs_of t)"
proof (induction rule: rtranclp_induct)
  case (step u t)
  then show ?case using inv_conc sim_conc rtranclp_trans by metis
qed simp

end

section \<open>What has been sent\<close>

text \<open>In every phase: some complete messages, and a part of one more.\<close>

lemma worker_inv_stream:
  assumes "worker_inv P H q i k0 w0 l" "hist_ok host H q"
  shows "\<exists>k u. k0 \<le> k \<and> k \<le> length q \<and> prefix u (entitled H (wts l) k (Suc k)) \<and>
    wire (wcl l) = w0 @ entitled H (wts l) k0 k @ u"
proof (cases P)
  case (P_Data m)
  with assms(1) obtain c where c: "wts l < fst (H ! c)" "m = snd (H ! c)"
      "on_entry H q i k0 w0 c c (header m) l" by auto
  with header_part [OF assms(2) _ c(1)] have "prefix (header m) (entitled H (wts l) c (Suc c))"
    by (simp add: on_entry_def)
  with c(3) show ?thesis by (auto simp: on_entry_def stands_def)
next
  case P_Mark
  with assms(1) show ?thesis by (fastforce simp: on_entry_def stands_def part_of_def)
next
  case P_Next
  with assms(1) show ?thesis by (fastforce simp: on_entry_def stands_def part_of_def)
next
  case P_Hangup
  with assms(1) show ?thesis by (fastforce simp: on_leaving_def stands_def)
next
  case P_Wait
  with assms(1) show ?thesis by (fastforce simp: on_leaving_def stands_def)
qed (use assms(1) in \<open>auto simp: on_entry_def on_leaving_def stands_def\<close>)

text \<open>No byte that was on the wire is taken back.\<close>

lemma wstep_wire:
  assumes "wstep i q l = Inr (q', l')"
  shows "wts l' = wts l \<and> (\<exists>bs. wire (wcl l') = wire (wcl l) @ bs)"
proof (cases "ph l")
  case P_Header
  with assms obtain c m where c: "cur l = Some c" "msg (q ! c) = Some m" "c < length q"
    by (auto simp: wstep_def fault_simps entry_at_Inr split: option.splits)
  obtain r cl where s: "send_msg (header m) (wcl l) = (r, cl)" by fastforce
  from send_msg_prefix [OF s] c s show ?thesis
    using assms P_Header by (auto simp: wstep_def entry_at_def split: if_splits)
next
  case (P_Data m)
  with assms obtain c buf where c: "cur l = Some c" "data m = Some buf" "c < length q"
    by (auto simp: wstep_def fault_simps entry_at_Inr split: option.splits if_splits)
  obtain r cl where s: "send_msg (take (unat (len m)) buf) (wcl l) = (r, cl)" by fastforce
  from send_msg_prefix [OF s] c s show ?thesis
    using assms P_Data by (auto simp: wstep_def entry_at_def split: if_splits)
qed (use assms in \<open>auto simp: wstep_def fault_simps entry_at_Inr split: if_splits\<close>)

section \<open>The system refines the abstract relay\<close>

definition relay_of :: "system \<Rightarrow> relay" where
  "relay_of s = \<lparr>log = hist s, recv = (\<lambda>i. map_option (\<lambda>l. \<lparr>r_ts = wts l, r_from = jpos s i,
     r_out = drop (length (jbase s i)) (wire (wcl l))\<rparr>) (wl s i))\<rparr>"

lemma slot_stream:
  assumes "sys_inv host n s" "wl s i = Some l"
  shows "\<exists>k u. jpos s i \<le> k \<and> k \<le> length (hist s) \<and> prefix u (entitled (hist s) (wts l) k (Suc k)) \<and>
    wire (wcl l) = jbase s i @ entitled (hist s) (wts l) (jpos s i) k @ u"
proof -
  have "slot_inv n s i" "hist_ok host (hist s) (sq s)" using assms(1) by (simp_all add: sys_inv_def)
  with worker_inv_stream [of "ph l" "hist s" "sq s" "int i" "jpos s i" "jbase s i" l host] assms(2)
  show ?thesis by (simp add: slot_inv_def sys_inv_length [OF assms(1)])
qed

lemma entitled_last: "entitled H ts (length H) (Suc (length H)) = []"
  by (simp add: entitled_def)

lemma slot_prefix:
  assumes "sys_inv host n s" "wl s i = Some l"
  shows "\<exists>out. wire (wcl l) = jbase s i @ out \<and>
    prefix out (entitled (hist s) (wts l) (jpos s i) (length (hist s)))"
proof -
  let ?H = "hist s" and ?ts = "wts l" and ?a = "jpos s i"
  from slot_stream [OF assms] obtain k u where k: "?a \<le> k" "k \<le> length ?H"
      "prefix u (entitled ?H ?ts k (Suc k))" "wire (wcl l) = jbase s i @ entitled ?H ?ts ?a k @ u"
    by blast
  have "prefix u (entitled ?H ?ts k (length ?H))"
  proof (cases "k = length ?H")
    case True
    with k(3) show ?thesis by (simp add: entitled_last)
  next
    case False
    with k(2,3) entitled_split [of k "Suc k" "length ?H" ?H ?ts] show ?thesis
      by (simp add: prefix_prefix)
  qed
  with k entitled_split [OF k(1,2), of ?H ?ts] show ?thesis by auto
qed

lemma relay_worker:
  assumes "sys_inv host n s" "sys_inv host n t" "wl s i = Some l" "wl t = (wl s)(i := Some l')"
    and "hist t = hist s" "jpos t = jpos s" "jbase t = jbase s"
    and "wts l' = wts l" "wire (wcl l') = wire (wcl l) @ bs"
  shows "relay_step (relay_of s) (relay_of t)"
proof -
  let ?r = "\<lparr>r_ts = wts l, r_from = jpos s i, r_out = drop (length (jbase s i)) (wire (wcl l))\<rparr>"
  obtain out where out: "wire (wcl l) = jbase s i @ out" using slot_prefix [OF assms(1,3)] by blast
  have "\<exists>o'. wire (wcl l') = jbase s i @ o' \<and> prefix o' (stream_of (hist s) ?r)"
    using slot_prefix [OF assms(2), of i l'] assms(4-8) by (simp add: stream_of_def)
  then have "prefix (out @ bs) (stream_of (hist s) ?r)" using out assms(9) by auto
  then have "relay_step (relay_of s)
      ((relay_of s)\<lparr>recv := (recv (relay_of s))(i := Some (?r\<lparr>r_out := r_out ?r @ bs\<rparr>))\<rparr>)"
    using assms(3) out by (intro relay_step.send) (simp_all add: relay_of_def)
  moreover have "relay_of t = (relay_of s)\<lparr>recv := (recv (relay_of s))(i := Some (?r\<lparr>r_out := r_out ?r @ bs\<rparr>))\<rparr>"
    using assms(4-9) out by (auto simp: relay_of_def fun_eq_iff)
  ultimately show ?thesis by simp
qed

lemma relay_join:
  assumes "k \<le> length (hist s)" "wl t = (wl s)(i := Some l)" "hist t = hist s"
    and "jpos t = (jpos s)(i := k)" "jbase t = (jbase s)(i := wire (wcl l))"
  shows "relay_step (relay_of s) (relay_of t)"
proof -
  have "relay_of t = (relay_of s)\<lparr>recv := (recv (relay_of s))(i := Some \<lparr>r_ts = wts l, r_from = k, r_out = []\<rparr>)\<rparr>"
    using assms by (auto simp: relay_of_def fun_eq_iff)
  moreover have "k \<le> length (log (relay_of s))" using assms(1) by (simp add: relay_of_def)
  ultimately show ?thesis using relay_step.join by metis
qed

lemma sys_step_relay:
  assumes inv: "sys_inv host n s" and n: "n \<le> 32" and step: "sys_step host ttl n s t"
  shows "relay_step\<^sup>*\<^sup>* (relay_of s) (relay_of t)"
proof -
  have inv': "sys_inv host n t" by (rule sys_inv_step [OF inv step n])
  obtain a where a: "allowed host n a s" "perform ttl a s = Inr t" using step by (rule sys_stepE)
  show ?thesis
  proof (cases a)
    case (Publish ts m)
    with a have "relay_of t = (relay_of s)\<lparr>log := log (relay_of s) @ [(ts, m)]\<rparr>"
      by (auto simp: relay_of_def)
    then show ?thesis using relay_step.publish by (metis r_into_rtranclp)
  next
    case (Create i cl ts)
    with a have "relay_step (relay_of s) (relay_of t)"
      by (intro relay_join [of 0 s t i "init_local cl ts"])
        (auto simp: set_worker_def join_def init_local_def)
    then show ?thesis by blast
  next
    case (Reassign i cl ts)
    with a obtain l where t: "wl s i = Some l" "ph l = P_Wait" "t = set_worker i (assign cl ts l) (join i (npos l) cl s)"
      using performed_Reassign by blast
    have "slot_inv n s i" using inv by (simp add: sys_inv_def)
    then have "npos l \<le> length (hist s)"
      using t sys_inv_length [OF inv] by (auto simp: slot_inv_def on_leaving_def)
    with t have "relay_step (relay_of s) (relay_of t)"
      by (intro relay_join [of "npos l" s t i "assign cl ts l"])
        (auto simp: set_worker_def join_def assign_def)
    then show ?thesis by blast
  next
    case (Work i)
    with a obtain l q l' where t: "wl s i = Some l" "wstep (int i) (sq s) l = Inr (q, l')"
        "t = set_worker i l' (s\<lparr>sq := q\<rparr>)"
      using performed_Work by blast
    with wstep_wire [OF t(2)] relay_worker [OF inv inv' t(1)] show ?thesis
      by (auto simp: set_worker_def)
  next
    case (Clean now)
    with a have "relay_of t = relay_of s" by (auto simp: fault_simps relay_of_def)
    then show ?thesis by simp
  next
    case (Connection i rxs txs)
    with a obtain l where t: "wl s i = Some l" "t = set_worker i (l\<lparr>wcl := (wcl l)\<lparr>crx := rxs, tx := txs\<rparr>\<rparr>) s"
      by auto
    with relay_worker [OF inv inv' t(1), of _ "[]"] show ?thesis by (auto simp: set_worker_def)
  qed
qed

interpretation relay_sim: simulation "sys_step host ttl n" relay_step
  "\<lambda>s. n \<le> 32 \<and> sys_inv host n s" relay_of
  by unfold_locales (auto intro: sys_inv_step sys_step_relay)

section \<open>Catching up\<close>

lemma work_steps:
  assumes "wl s i = Some l" "\<not> msg_locked s" "wsteps k (int i) (sq s) l = Inr (q', l')"
  shows "(sys_step host ttl n)\<^sup>*\<^sup>* s (set_worker i l' (s\<lparr>sq := q'\<rparr>))"
  using assms
proof (induction k arbitrary: s l)
  case 0
  then show ?case by (auto simp: set_worker_def fun_upd_idem)
next
  case (Suc k)
  then obtain q1 l1 where w: "wstep (int i) (sq s) l = Inr (q1, l1)"
      "wsteps k (int i) q1 l1 = Inr (q', l')"
    by (auto simp: fault_simps)
  let ?s = "set_worker i l1 (s\<lparr>sq := q1\<rparr>)"
  have "sys_step host ttl n s ?s"
    using Suc.prems(1,2) w(1) by (intro sys_step.act [of _ _ "Work i"]) auto
  moreover have "(sys_step host ttl n)\<^sup>*\<^sup>* ?s (set_worker i l' (?s\<lparr>sq := q'\<rparr>))"
    using Suc.prems(2) w(2) by (intro Suc.IH [of _ l1]) (simp_all add: set_worker_def msg_locked_def)
  moreover have "set_worker i l' (?s\<lparr>sq := q'\<rparr>) = set_worker i l' (s\<lparr>sq := q'\<rparr>)"
    by (simp add: set_worker_def)
  ultimately show ?case by (metis converse_rtranclp_into_rtranclp)
qed

text \<open>The entries the worker has still to deal with have not been freed.\<close>

definition rest_intact :: "nat \<Rightarrow> queue \<Rightarrow> bool" where
  "rest_intact k q \<longleftrightarrow> (\<forall>j. k \<le> j \<longrightarrow> j < length q \<longrightarrow> sent (q ! j) \<noteq> None)"

lemma fresh_rest:
  assumes "hist_ok host H q" "unmarked i k q" "rest_intact k q" "k \<le> j" "j < length q"
  shows "fresh_entry host i (q ! j)"
proof -
  from assms(2,3,4,5) have "i \<notin> sent_flags (q ! j)" "sent (q ! j) \<noteq> None"
    by (simp_all add: unmarked_def rest_intact_def)
  with hist_ok_at [OF assms(1,5)] show ?thesis by (auto simp: fresh_entry_def entry_ok_def)
qed

lemma gpos_get:
  "cursor_in q l \<Longrightarrow> get_msg_entry q (cur l) (prv l) False =
     (if gpos l < length q then Inr (gpos l) else Inl Would_Block)"
  by (auto simp: cursor_in_def gpos_def get_msg_entry_def wait_until_def TAILQ_FIRST_def TAILQ_NEXT_def
      split: option.splits)

lemma whole_sel [simp]:
  "d_queue (whole q l) = q" "d_current (whole q l) = cur l" "d_prev (whole q l) = prv l"
  "d_next (whole q l) = nxt l" "d_bytes_sent (whole q l) = bsent l" "d_client (whole q l) = wcl l"
  "d_ts (whole q l) = wts l"
  by (simp_all add: whole_def)

text \<open>One whole iteration of a worker whose receiver is alive, while nobody else moves.\<close>

lemma healthy_iteration:
  assumes n: "n \<le> 32" and inv: "sys_inv host n s" and l: "wl s i = Some l" "ph l = P_Get"
    and free: "\<not> msg_locked s" and ok: "healthy (wcl l)" "\<not> bsent l < 0"
    and rest: "rest_intact (gpos l) (sq s)" and more: "gpos l < length (sq s)"
  shows "\<exists>t l'. (sys_step host ttl n)\<^sup>*\<^sup>* s t \<and> wl t i = Some l' \<and> ph l' = P_Get \<and> \<not> msg_locked t \<and>
    healthy (wcl l') \<and> \<not> bsent l' < 0 \<and> gpos l' = Suc (gpos l) \<and> rest_intact (gpos l') (sq t) \<and>
    length (sq t) = length (sq s) \<and> hist t = hist s \<and> jpos t = jpos s \<and> jbase t = jbase s \<and> wts l' = wts l"
proof -
  let ?q = "sq s" and ?c = "gpos l" and ?st = "whole (sq s) l"
  have "slot_inv n s i" and h: "hist_ok host (hist s) ?q" using inv by (simp_all add: sys_inv_def)
  then have i: "flag_pos (int i)" and w: "worker_inv P_Get (hist s) ?q (int i) (jpos s i) (jbase s i) l"
    using l n by (auto simp: slot_inv_def flag_pos_def)
  then have g: "get_msg_entry ?q (cur l) (prv l) False = Inr ?c" and cur: "cursor_in ?q l"
    using gpos_get more by simp_all
  have "fresh_entry host (int i) (?q ! ?c)"
    using fresh_rest [OF h _ rest] w more by (simp add: stands_def)
  with worker_iter_ok [OF i, of ?st ?c host] ok g more obtain st' e where
    st': "worker_iter (int i) ?st = Inr (False, st')" "healthy (d_client st')" "d_queue st' = ?q[?c := e]"
      "\<not> d_bytes_sent st' < 0" "d_ts st' = wts l" "d_prev st' = Some ?c"
      "d_current st' = TAILQ_NEXT (d_queue st') ?c"
    by auto
  with same_iter [OF l(2) cur, of "int i"] obtain k q' l' where
    k: "wsteps k (int i) ?q l = Inr (q', l')" "whole q' l' = st'" "ph l' = P_Get"
    by (auto simp: same_result_def reaches_def)
  let ?t = "set_worker i l' (s\<lparr>sq := q'\<rparr>)"
  have "q' = ?q[?c := e]" "healthy (wcl l')" "\<not> bsent l' < 0" "wts l' = wts l" "gpos l' = Suc ?c"
    using k(2) st' by (auto simp: gpos_def TAILQ_NEXT_def)
  moreover have "(sys_step host ttl n)\<^sup>*\<^sup>* s ?t" by (rule work_steps [OF l(1) free k(1)])
  moreover have "rest_intact (Suc ?c) (?q[?c := e])" using rest by (simp add: rest_intact_def)
  ultimately show ?thesis
    using k(3) free by (intro exI [of _ ?t] exI [of _ l']) (simp add: set_worker_def msg_locked_def)
qed

lemma catch_up:
  assumes n: "n \<le> 32"
  shows "sys_inv host n s \<Longrightarrow> wl s i = Some l \<Longrightarrow> ph l = P_Get \<Longrightarrow> \<not> msg_locked s \<Longrightarrow>
    healthy (wcl l) \<Longrightarrow> \<not> bsent l < 0 \<Longrightarrow> rest_intact (gpos l) (sq s) \<Longrightarrow>
    \<exists>t l'. (sys_step host ttl n)\<^sup>*\<^sup>* s t \<and> wl t i = Some l' \<and> hist t = hist s \<and>
      wire (wcl l') = jbase s i @ entitled (hist s) (wts l) (jpos s i) (length (hist s))"
proof (induction "length (sq s) - gpos l" arbitrary: s l)
  case 0
  have "slot_inv n s i" using "0.prems"(1) by (simp add: sys_inv_def)
  then have "gpos l = length (sq s)" "wire (wcl l) = jbase s i @ entitled (hist s) (wts l) (jpos s i) (gpos l)"
    using 0 by (auto simp: slot_inv_def stands_def)
  with 0 sys_inv_length [OF "0.prems"(1)] show ?case by auto
next
  case (Suc m)
  from Suc.hyps(2) have "gpos l < length (sq s)" by simp
  from healthy_iteration [OF n Suc.prems this, of ttl] obtain t l' where
    t: "(sys_step host ttl n)\<^sup>*\<^sup>* s t" "wl t i = Some l'" "ph l' = P_Get" "\<not> msg_locked t"
      "healthy (wcl l')" "\<not> bsent l' < 0" "gpos l' = Suc (gpos l)" "rest_intact (gpos l') (sq t)"
      "length (sq t) = length (sq s)" "hist t = hist s" "jpos t = jpos s" "jbase t = jbase s" "wts l' = wts l"
    by blast
  have "sys_inv host n t" by (rule sys_inv_steps [OF t(1) Suc.prems(1) n])
  moreover have "m = length (sq t) - gpos l'" using Suc.hyps(2) t(7,9) by simp
  ultimately obtain u l2 where
    "(sys_step host ttl n)\<^sup>*\<^sup>* t u" "wl u i = Some l2" "hist u = hist s"
    "wire (wcl l2) = jbase s i @ entitled (hist s) (wts l) (jpos s i) (length (hist s))"
    using Suc.hyps(1) [of t l'] t by auto
  with t(1) show ?case by (blast intro: rtranclp_trans)
qed

section \<open>Faults\<close>

text \<open>The phases in which a worker follows a pointer to data that the cleanup worker may free.\<close>

fun uses_data :: "phase \<Rightarrow> bool" where
  "uses_data P_Flag \<longleftrightarrow> True"
| "uses_data P_Header \<longleftrightarrow> True"
| "uses_data (P_Data m) \<longleftrightarrow> True"
| "uses_data P_Mark \<longleftrightarrow> True"
| "uses_data P_Write \<longleftrightarrow> True"
| "uses_data P \<longleftrightarrow> False"

lemma set_sent_Inl:
  "flag_pos i \<Longrightarrow> set_sent e i v = Inl f \<Longrightarrow> sent e = None \<and> f = Null_Deref"
  using set_sent_flags [of i e v] by (cases "sent e") (auto simp: set_sent_def)

lemma is_sent_Inl: "flag_pos i \<Longrightarrow> is_sent e i = Inl f \<Longrightarrow> sent e = None \<and> f = Null_Deref"
  using is_sent_flags [of i e] by (cases "sent e") (auto simp: is_sent_def)

lemma wstep_fault:
  assumes hist: "hist_ok host H q" and pos: "flag_pos i"
    and inv: "worker_inv (ph l) H q i k0 w0 l" and step: "wstep i q l = Inl f"
  shows "f = Would_Block \<and> (ph l = P_Wait \<or> ph l = P_Get \<and> gpos l = length q) \<or>
    f \<in> {Null_Deref, Use_After_Free} \<and> uses_data (ph l) \<and>
    (\<exists>c. cur l = Some c \<and> c < length q \<and> sent (q ! c) = None)"
proof -
  have eq: "wstep_at (ph l) i q l = Inl f" using step by (simp add: wstep_def)
  have msg: "msg (q ! c) = None \<Longrightarrow> sent (q ! c) = None" if "c < length q" for c
    using hist_ok_at [OF hist that] by (simp add: entry_ok_def)
  show ?thesis
  proof (cases "ph l")
    case P_Get
    with eq inv gpos_get [of q l] show ?thesis by (auto simp: stands_def split: if_splits)
  next
    case P_Flag
    with eq inv is_sent_Inl [OF pos] show ?thesis
      by (fastforce simp: on_entry_def entry_at_def bindF_def split: sum.splits)
  next
    case P_Header
    with eq inv msg show ?thesis
      by (auto simp: on_entry_def entry_at_def split: option.splits if_splits prod.splits)
  next
    case (P_Data m)
    with inv obtain c where c: "c < length q" "m = snd (H ! c)" "cur l = Some c" by (auto simp: on_entry_def)
    then have "data m = Some (payload m @ [0])" "length (payload m) = unat (len m)"
      using hist_ok_at [OF hist c(1)] by (auto simp: entry_ok_def intro: wf_msg_data length_payload_wf)
    with eq c P_Data msg show ?thesis
      by (auto simp: entry_at_def split: if_splits prod.splits)
  next
    case P_Mark
    with eq inv set_sent_Inl [OF pos] show ?thesis
      by (fastforce simp: on_entry_def entry_at_def bindF_def split: sum.splits)
  next
    case P_Write
    with eq inv set_sent_Inl [OF pos] show ?thesis
      by (fastforce simp: on_leaving_def entry_at_def bindF_def split: sum.splits)
  qed (use eq inv in \<open>auto simp: on_entry_def on_leaving_def entry_at_def\<close>)
qed

end
