(* ===== verification/Thread_Pool.thy ===== *)
theory Thread_Pool
  imports Bitmask Timestamp
begin

text \<open>
  The worker pool of \<^verbatim>\<open>lib/thread.c\<close>: the status of every worker, its arguments, and the busy mask
  that the destination server searches for an idle worker.
\<close>

section \<open>The code\<close>

definition THREAD_AVAILABLE :: int where
  [const_defs]: "THREAD_AVAILABLE = 0"

definition THREAD_BUSY :: int where
  [const_defs]: "THREAD_BUSY = 1"

definition THREAD_READY :: int where
  [const_defs]: "THREAD_READY = 2"

text \<open>
  \<open>struct worker\<close> with its \<open>struct worker_args\<close>. \<open>self_status\<close> points to the worker's own \<open>status\<close>
  and \<open>threads_status\<close> to the mask of the list; both are set once and never point elsewhere, so
  the model reads those fields directly. Before \<open>init_thread_info\<close> the client is not set
  (\<open>None\<close>).
\<close>

record worker =
  status :: int
  client_fd :: "int option"
  thread_index :: nat
  client_ts :: timespec

record worker_list =
  threads_status :: u64
  num_workers :: nat
  workers :: "worker list"

text \<open>\<open>clock i\<close> is the clock reading taken for worker \<open>i\<close>.\<close>

definition init_workers :: "nat \<Rightarrow> (nat \<Rightarrow> timespec) \<Rightarrow> worker_list" where
  "init_workers n clock =
     \<lparr>threads_status = 0, num_workers = n,
      workers = map (\<lambda>i. \<lparr>status = THREAD_AVAILABLE, client_fd = None, thread_index = i,
                            client_ts = clock i\<rparr>) [0..<n]\<rparr>"

text \<open>\<open>find_idle_thread\<close>: the loop over the positions from \<open>i\<close>, with \<open>k\<close> positions left.\<close>

fun find_idle_from :: "u64 \<Rightarrow> nat \<Rightarrow> nat \<Rightarrow> fault + int" where
  "find_idle_from msk i 0 = Inr (- 1)"
| "find_idle_from msk i (Suc k) =
     bindF (is_set msk (int i)) (\<lambda>busy.
       if \<not> busy then Inr (int i) else find_idle_from msk (Suc i) k)"

definition find_idle_thread :: "worker_list \<Rightarrow> fault + int" where
  "find_idle_thread list = find_idle_from (threads_status list) 0 (num_workers list)"

definition set_busy_bit :: "worker_list \<Rightarrow> nat \<Rightarrow> bool \<Rightarrow> fault + worker_list" where
  "set_busy_bit list i val =
     bindF (set_bit_mask (threads_status list) (int i) val) (\<lambda>m.
       Inr (list\<lparr>threads_status := m\<rparr>))"

definition update_worker :: "worker_list \<Rightarrow> nat \<Rightarrow> (worker \<Rightarrow> worker) \<Rightarrow> worker_list" where
  "update_worker list i f = list\<lparr>workers := (workers list)[i := f (workers list ! i)]\<rparr>"

definition init_thread_info ::
  "worker_list \<Rightarrow> nat \<Rightarrow> int \<Rightarrow> timespec \<Rightarrow> fault + worker_list" where
  "init_thread_info list i fd ts =
     (if i < length (workers list)
      then bindF (set_busy_bit
                   (update_worker list i (\<lambda>w. w\<lparr>client_fd := Some fd, status := THREAD_BUSY\<rparr>))
                   i True) (\<lambda>l.
             Inr (update_worker l i (\<lambda>w. w\<lparr>client_ts := ts\<rparr>)))
      else Inl Out_Of_Bounds)"

definition wake_up_thread ::
  "worker_list \<Rightarrow> nat \<Rightarrow> int \<Rightarrow> timespec \<Rightarrow> fault + worker_list" where
  "wake_up_thread list i fd ts =
     (if i < length (workers list)
      then if status (workers list ! i) \<noteq> THREAD_READY then Inl Assert_Failed
           else bindF (set_busy_bit
                        (update_worker list i (\<lambda>w. w\<lparr>client_fd := Some fd, status := THREAD_BUSY\<rparr>))
                        i True) (\<lambda>l.
                  Inr (update_worker l i (\<lambda>w. w\<lparr>client_ts := ts\<rparr>)))
      else Inl Out_Of_Bounds)"

text \<open>
  What a worker does to the pool when its client is gone (\<^verbatim>\<open>ws_server.c\<close>, label \<open>conn_closed\<close>): it
  marks itself ready and clears its bit.
\<close>

definition release_worker :: "worker_list \<Rightarrow> nat \<Rightarrow> fault + worker_list" where
  "release_worker list i =
     (if i < length (workers list)
      then set_busy_bit (update_worker list i (\<lambda>w. w\<lparr>status := THREAD_READY\<rparr>)) i False
      else Inl Out_Of_Bounds)"

section \<open>Searching the mask\<close>

text \<open>While every position is below 32, the search returns the first clear position, or -1.\<close>

lemma find_idle_from_spec:
  assumes "i + k \<le> 32"
  shows "find_idle_from msk i k =
    Inr (case find (\<lambda>j. int j \<notin> mask_flags msk) [i..<i + k] of Some j \<Rightarrow> int j | None \<Rightarrow> - 1)"
  using assms
proof (induction k arbitrary: i)
  case 0
  then show ?case by simp
next
  case (Suc k)
  have "is_set msk (int i) = Inr (int i \<in> mask_flags msk)"
    using Suc.prems by (intro c_mask.get_iff_flags) (simp add: flag_pos_def)
  moreover have "[i..<i + Suc k] = i # [Suc i..<Suc i + k]"
    by (simp add: upt_conv_Cons)
  ultimately show ?case using Suc.IH [of "Suc i"] Suc.prems by simp
qed

text \<open>Once the first 32 positions are busy, the next one is outside the shift's width.\<close>

lemma find_idle_from_all_busy:
  assumes "\<forall>j. i \<le> j \<and> j < 32 \<longrightarrow> int j \<in> mask_flags msk" "i \<le> 32" "32 < i + k"
  shows "find_idle_from msk i k = Inl Shift_UB"
  using assms
proof (induction k arbitrary: i)
  case 0
  then show ?case by simp
next
  case (Suc k)
  show ?case
  proof (cases "i = 32")
    case True
    then show ?thesis by (simp add: is_set_def int_shl1_def)
  next
    case False
    then have "is_set msk (int i) = Inr (int i \<in> mask_flags msk)"
      using Suc.prems by (intro c_mask.get_iff_flags) (simp add: flag_pos_def)
    with False Suc show ?thesis by simp
  qed
qed

section \<open>Consistency of the pool\<close>

text \<open>
  A pool is consistent when it has \<open>num_workers \<le> 32\<close> workers that know their index and when
  exactly the workers with status busy have their bit set.
\<close>

definition pool_ok :: "worker_list \<Rightarrow> bool" where
  "pool_ok l \<longleftrightarrow> length (workers l) = num_workers l \<and> num_workers l \<le> 32 \<and>
     (\<forall>i < num_workers l. thread_index (workers l ! i) = i \<and>
        status (workers l ! i) \<in> {THREAD_AVAILABLE, THREAD_BUSY, THREAD_READY} \<and>
        (int i \<in> mask_flags (threads_status l) \<longleftrightarrow> status (workers l ! i) = THREAD_BUSY))"

lemma pool_ok_init: "n \<le> 32 \<Longrightarrow> pool_ok (init_workers n clock)"
  by (simp add: pool_ok_def init_workers_def c_mask.flags_clear const_defs)

lemma set_busy_bit_ok:
  assumes "i < 32"
  shows "\<exists>m. set_busy_bit l i v = Inr (l\<lparr>threads_status := m\<rparr>) \<and>
    mask_flags m = (if v then insert (int i) (mask_flags (threads_status l))
                    else mask_flags (threads_status l) - {int i})"
proof -
  have "flag_pos (int i)" using assms by (simp add: flag_pos_def)
  then show ?thesis
    using c_mask.put_total [of "int i" "threads_status l" v]
    by (auto simp: set_busy_bit_def c_mask.flags_put)
qed

lemma init_thread_info_ok:
  assumes "pool_ok l" "i < num_workers l"
  shows "\<exists>l'. init_thread_info l i fd ts = Inr l' \<and> pool_ok l' \<and> num_workers l' = num_workers l \<and>
    workers l' = (workers l)[i := (workers l ! i)\<lparr>client_fd := Some fd, status := THREAD_BUSY,
                                                   client_ts := ts\<rparr>]"
proof -
  let ?l1 = "update_worker l i (\<lambda>w. w\<lparr>client_fd := Some fd, status := THREAD_BUSY\<rparr>)"
  have "i < 32" using assms by (simp add: pool_ok_def)
  from set_busy_bit_ok [OF this, of ?l1 True] obtain m where
    m: "set_busy_bit ?l1 i True = Inr (?l1\<lparr>threads_status := m\<rparr>)"
      "mask_flags m = insert (int i) (mask_flags (threads_status l))"
    by (auto simp: update_worker_def)
  show ?thesis
    using assms m
    by (auto simp: init_thread_info_def pool_ok_def update_worker_def nth_list_update const_defs)
qed

lemma wake_up_thread_eq:
  "status (workers l ! i) = THREAD_READY \<Longrightarrow> wake_up_thread l i fd ts = init_thread_info l i fd ts"
  by (simp add: wake_up_thread_def init_thread_info_def)

lemma release_worker_ok:
  assumes "pool_ok l" "i < num_workers l"
  shows "\<exists>l'. release_worker l i = Inr l' \<and> pool_ok l' \<and> num_workers l' = num_workers l \<and>
    workers l' = (workers l)[i := (workers l ! i)\<lparr>status := THREAD_READY\<rparr>]"
proof -
  let ?l1 = "update_worker l i (\<lambda>w. w\<lparr>status := THREAD_READY\<rparr>)"
  have "i < 32" using assms by (simp add: pool_ok_def)
  from set_busy_bit_ok [OF this, of ?l1 False] obtain m where
    m: "set_busy_bit ?l1 i False = Inr (?l1\<lparr>threads_status := m\<rparr>)"
      "mask_flags m = mask_flags (threads_status l) - {int i}"
    by (auto simp: update_worker_def)
  show ?thesis
    using assms m
    by (auto simp: release_worker_def pool_ok_def update_worker_def nth_list_update const_defs)
qed

lemma find_idle_thread_ok:
  assumes "pool_ok l"
  shows "find_idle_thread l =
    Inr (case find (\<lambda>j. status (workers l ! j) \<noteq> THREAD_BUSY) [0..<num_workers l] of
           Some j \<Rightarrow> int j | None \<Rightarrow> - 1)"
proof -
  have "find (\<lambda>j. int j \<notin> mask_flags (threads_status l)) [0..<num_workers l] =
      find (\<lambda>j. status (workers l ! j) \<noteq> THREAD_BUSY) [0..<num_workers l]"
    using assms by (intro find_cong) (auto simp: pool_ok_def)
  then show ?thesis
    using assms find_idle_from_spec [of 0 "num_workers l" "threads_status l"]
    by (simp add: find_idle_thread_def pool_ok_def)
qed

lemma set_busy_bit_Inr:
  assumes "set_busy_bit l i v = Inr p" "i < 32"
  shows "workers p = workers l" "num_workers p = num_workers l"
    "int j \<in> mask_flags (threads_status p) \<longleftrightarrow>
       (if j = i then v else int j \<in> mask_flags (threads_status l))"
proof -
  obtain m where m: "p = l\<lparr>threads_status := m\<rparr>"
      "mask_flags m = (if v then insert (int i) (mask_flags (threads_status l))
                       else mask_flags (threads_status l) - {int i})"
    using set_busy_bit_ok [OF assms(2), of l v] assms(1) by auto
  then show "workers p = workers l" "num_workers p = num_workers l" by simp_all
  from m show "int j \<in> mask_flags (threads_status p) \<longleftrightarrow>
      (if j = i then v else int j \<in> mask_flags (threads_status l))"
    by (cases v) auto
qed

lemma update_worker_sel [simp]:
  "threads_status (update_worker l i f) = threads_status l"
  "num_workers (update_worker l i f) = num_workers l"
  "length (workers (update_worker l i f)) = length (workers l)"
  "j < length (workers l) \<Longrightarrow>
     workers (update_worker l i f) ! j = (if j = i then f (workers l ! i) else workers l ! j)"
  by (auto simp: update_worker_def nth_list_update)

end
