(* ===== verification/Dst_Server.thy ===== *)
theory Dst_Server
  imports Thread_Pool
begin

text \<open>
  The destination server, \<open>run_dst_server\<close> of \<^verbatim>\<open>ws_server.c\<close>: it accepts receivers, waits with
  exponential backoff for an idle worker and hands the receiver to it, by starting the worker's
  thread or by waking it up.
\<close>

section \<open>The code\<close>

definition INITIAL_DELAY :: int where
  [const_defs]: "INITIAL_DELAY = 1"

text \<open>\<open>delay *= 2\<close> on a 32-bit \<open>int\<close>.\<close>

definition double_delay :: "int \<Rightarrow> fault + int" where
  "double_delay delay = (if 2 * delay < 2 ^ 31 then Inr (2 * delay) else Inl Int_Overflow)"

text \<open>
  The wait for an idle worker. \<open>pools\<close> are the states of the pool that the successive calls of
  \<open>find_idle_thread\<close> see, as the workers release themselves meanwhile; the result is the index, the
  pool it was found in, and the seconds slept. \<open>Would_Block\<close>: still waiting.
\<close>

fun wait_for_idle :: "worker_list list \<Rightarrow> int \<Rightarrow> int \<Rightarrow> fault + int \<times> worker_list \<times> int" where
  "wait_for_idle [] delay slept = Inl Would_Block"
| "wait_for_idle (l # pools) delay slept =
     bindF (find_idle_thread l) (\<lambda>i.
       if i < 0
       then (let slept' = slept + delay in
             bindF (double_delay delay) (\<lambda>d. wait_for_idle pools d slept'))
       else Inr (i, l, slept))"

text \<open>
  What the switch on the worker's status does with the client. \<open>created\<close> is the result of
  \<open>pthread_create\<close> and the value of \<open>errno\<close> after it.
\<close>

datatype dispatch = Created | Woken | Dropped

definition dispatch_client ::
  "worker_list \<Rightarrow> nat \<Rightarrow> int \<Rightarrow> timespec \<Rightarrow> int \<times> int \<Rightarrow> fault + dispatch \<times> worker_list"
where
  "dispatch_client l i fd ts created =
     (if i < length (workers l)
      then (let st = status (workers l ! i) in
            if st = THREAD_AVAILABLE
            then bindF (init_thread_info l i fd ts) (\<lambda>l'.
                   if fst created \<noteq> 0 then Inl (Exited (snd created)) else Inr (Created, l'))
            else if st = THREAD_READY
            then bindF (wake_up_thread l i fd ts) (\<lambda>l'. Inr (Woken, l'))
            else Inr (Dropped, l))
      else Inl Out_Of_Bounds)"

text \<open>
  One turn of the server's loop for a result of \<open>server_accept\<close>: a negative descriptor is retried
  (nothing happens), a receiver is assigned.
\<close>

definition serve_receiver ::
  "int \<Rightarrow> timespec \<Rightarrow> worker_list list \<Rightarrow> int \<times> int \<Rightarrow> fault + (dispatch \<times> nat \<times> worker_list) option" where
  "serve_receiver new_fd client_time pools created =
     (if new_fd < 0 then Inr None
      else bindF (wait_for_idle pools INITIAL_DELAY 0) (\<lambda>(i, l, slept).
             bindF (dispatch_client l (nat i) new_fd client_time created) (\<lambda>(d, l').
               Inr (Some (d, nat i, l')))))"

section \<open>Assignment\<close>

lemma find_idle_result:
  assumes "pool_ok l" "find_idle_thread l = Inr i" "\<not> i < 0"
  shows "nat i < num_workers l \<and> status (workers l ! nat i) \<noteq> THREAD_BUSY \<and>
    (\<forall>j < nat i. status (workers l ! j) = THREAD_BUSY)"
proof -
  obtain j where j: "find (\<lambda>j. status (workers l ! j) \<noteq> THREAD_BUSY) [0..<num_workers l] = Some j"
      "i = int j"
    using assms by (auto simp: find_idle_thread_ok split: option.splits)
  then have "j < num_workers l \<and> status (workers l ! j) \<noteq> THREAD_BUSY \<and>
      (\<forall>k < j. status (workers l ! k) = THREAD_BUSY)"
    by (auto simp: find_Some_iff)
  with j(2) show ?thesis by simp
qed

lemma dispatch_idle:
  assumes "pool_ok l" "i < num_workers l" "status (workers l ! i) \<noteq> THREAD_BUSY"
  shows "\<exists>d l'. dispatch_client l i fd ts (0, err) = Inr (d, l') \<and> d \<noteq> Dropped \<and>
    (d = Created \<longleftrightarrow> status (workers l ! i) = THREAD_AVAILABLE) \<and> pool_ok l' \<and>
    num_workers l' = num_workers l \<and>
    workers l' = (workers l)[i := (workers l ! i)\<lparr>client_fd := Some fd, status := THREAD_BUSY,
                                                   client_ts := ts\<rparr>]"
proof -
  obtain l' where l': "init_thread_info l i fd ts = Inr l'" "pool_ok l'"
      "num_workers l' = num_workers l"
      "workers l' = (workers l)[i := (workers l ! i)\<lparr>client_fd := Some fd, status := THREAD_BUSY,
                                                       client_ts := ts\<rparr>]"
    using init_thread_info_ok [OF assms(1,2)] by blast
  have i: "i < length (workers l)" using assms(1,2) by (simp add: pool_ok_def)
  consider "status (workers l ! i) = THREAD_AVAILABLE" | "status (workers l ! i) = THREAD_READY"
    using assms by (auto simp: pool_ok_def)
  then show ?thesis
  proof cases
    case 1
    with l' i show ?thesis by (simp add: dispatch_client_def Let_def)
  next
    case 2
    moreover from 2 have "status (workers l ! i) \<noteq> THREAD_AVAILABLE" by (simp add: const_defs)
    ultimately show ?thesis
      using l' i by (simp add: dispatch_client_def Let_def wake_up_thread_eq)
  qed
qed

section \<open>Backoff\<close>

definition all_busy :: "worker_list \<Rightarrow> bool" where
  "all_busy l \<longleftrightarrow> pool_ok l \<and> (\<forall>j < num_workers l. status (workers l ! j) = THREAD_BUSY)"

lemma find_idle_all_busy: "all_busy l \<Longrightarrow> find_idle_thread l = Inr (- 1)"
proof -
  assume b: "all_busy l"
  then have "find (\<lambda>j. status (workers l ! j) \<noteq> THREAD_BUSY) [0..<num_workers l] = None"
    by (auto simp: find_None_iff all_busy_def)
  with b show ?thesis by (simp add: find_idle_thread_ok all_busy_def)
qed

text \<open>While the pools are busy the delays are 1, 2, 4, ... and their sum is one less than the next.\<close>

lemma wait_for_idle_busy:
  assumes "\<forall>l \<in> set busy. all_busy l" "k + length busy \<le> 30"
  shows "wait_for_idle (busy @ pools) (2 ^ k) (2 ^ k - 1) =
    wait_for_idle pools (2 ^ (k + length busy)) (2 ^ (k + length busy) - 1)"
  using assms
proof (induction busy arbitrary: k)
  case Nil
  then show ?case by simp
next
  case (Cons l busy)
  have "(2 :: int) ^ Suc k < 2 ^ 31"
    using Cons.prems(2) by (intro power_strict_increasing) simp_all
  then have "double_delay (2 ^ k) = Inr (2 ^ Suc k)" by (simp add: double_delay_def)
  then have "wait_for_idle (l # busy @ pools) (2 ^ k) (2 ^ k - 1) =
      wait_for_idle (busy @ pools) (2 ^ Suc k) (2 ^ Suc k - 1)"
    using Cons.prems(1) by (simp add: find_idle_all_busy)
  with Cons.IH [of "Suc k"] Cons.prems show ?case by simp
qed

section \<open>Properties\<close>

text \<open>
  With more than 32 workers, as the options allow, the search is undefined once the
  first 32 workers are busy.
\<close>

lemma find_idle_beyond_32:
  assumes "32 < num_workers l" and "\<forall>j < 32. int j \<in> mask_flags (threads_status l)"
  shows "find_idle_thread l = Inl Shift_UB"
  using find_idle_from_all_busy [of 0 "threads_status l" "num_workers l"] assms
  by (simp add: find_idle_thread_def)

lemma find_idle_beyond_32_witness:
  "find_idle_thread \<lparr>threads_status = - 1, num_workers = 64, workers = []\<rparr> = Inl Shift_UB"
proof (rule find_idle_beyond_32)
  have "int j \<in> mask_flags (- 1)" if "j < 32" for j
    using that flag_span_own [OF that]
    by (auto simp: flags_of_def flag_pos_def is_set_bits intro!: bexI [of _ j])
  then show "\<forall>j<32. int j \<in> mask_flags
      (threads_status \<lparr>threads_status = - 1, num_workers = 64, workers = []\<rparr>)" by simp
qed simp

text \<open>
  Property C31. A receiver that is handed to the worker the search returned is never dropped and never
  trips the assertion: the worker is started or woken up, becomes busy with exactly this receiver, no
  other worker changes, and the pool stays consistent.
\<close>

theorem dispatch_safe:
  assumes "pool_ok l" and "find_idle_thread l = Inr i" and "\<not> i < 0"
  shows "\<exists>d l'. dispatch_client l (nat i) fd ts (0, err) = Inr (d, l') \<and> d \<noteq> Dropped \<and> pool_ok l' \<and>
    client_fd (workers l' ! nat i) = Some fd \<and> status (workers l' ! nat i) = THREAD_BUSY \<and>
    (\<forall>j. j \<noteq> nat i \<longrightarrow> workers l' ! j = workers l ! j)"
proof -
  note idle = find_idle_result [OF assms]
  obtain d l' where l': "dispatch_client l (nat i) fd ts (0, err) = Inr (d, l')" "d \<noteq> Dropped" "pool_ok l'"
      "workers l' = (workers l)[nat i := (workers l ! nat i)\<lparr>client_fd := Some fd,
          status := THREAD_BUSY, client_ts := ts\<rparr>]"
    using dispatch_idle [OF assms(1)] idle by blast
  have "nat i < length (workers l)" using assms(1) idle by (simp add: pool_ok_def)
  with l' show ?thesis by auto
qed

theorem dispatch_safe_witness:
  "\<exists>d l'. dispatch_client (init_workers 2 (\<lambda>_. epoch)) 0 7 epoch (0, 0) = Inr (d, l') \<and> d \<noteq> Dropped \<and>
     client_fd (workers l' ! 0) = Some 7"
proof -
  have "find_idle_thread (init_workers 2 (\<lambda>_. epoch)) = Inr 0"
    using find_idle_thread_ok [OF pool_ok_init, of 2] 
    by (simp add: init_workers_def const_defs upt_conv_Cons)
  from dispatch_safe [OF pool_ok_init this] show ?thesis by fastforce
qed

text \<open>
  After \<open>n\<close> unsuccessful searches the server has slept \<open>2 ^ n - 1\<close> seconds in all, and the
  31st consecutive one overflows the delay.
\<close>

lemma backoff_total:
  assumes "\<forall>l \<in> set busy. all_busy l"
  shows "(length busy \<le> 30 \<longrightarrow> find_idle_thread l = Inr i \<longrightarrow> 0 \<le> i \<longrightarrow>
      wait_for_idle (busy @ l # pools) INITIAL_DELAY 0 = Inr (i, l, 2 ^ length busy - 1)) \<and>
    (31 \<le> length busy \<longrightarrow> wait_for_idle busy INITIAL_DELAY 0 = Inl Int_Overflow)"
proof (intro conjI impI)
  assume a: "length busy \<le> 30" "find_idle_thread l = Inr i" "0 \<le> i"
  from wait_for_idle_busy [OF assms, of 0 "l # pools"] a
  show "wait_for_idle (busy @ l # pools) INITIAL_DELAY 0 = Inr (i, l, 2 ^ length busy - 1)"
    by (simp add: INITIAL_DELAY_def)
next
  assume n: "31 \<le> length busy"
  let ?b = "take 30 busy"
  obtain l r where r: "drop 30 busy = l # r" using n by (cases "drop 30 busy") auto
  have bl: "busy = ?b @ l # r" by (metis append_take_drop_id r)
  have "set ?b \<subseteq> set busy" "l \<in> set busy"
    using set_take_subset [of 30 busy] in_set_dropD [of l 30 busy] r by auto
  then have "wait_for_idle (?b @ l # r) INITIAL_DELAY 0 = Inl Int_Overflow"
    using wait_for_idle_busy [of ?b 0 "l # r"] n assms
    by (auto simp: INITIAL_DELAY_def find_idle_all_busy double_delay_def)
  with bl show "wait_for_idle busy INITIAL_DELAY 0 = Inl Int_Overflow" by metis
qed

text \<open>A pool whose only worker is busy.\<close>

definition one_busy :: worker_list where
  "one_busy = \<lparr>threads_status = 1, num_workers = 1, workers =
     [\<lparr>status = THREAD_BUSY, client_fd = Some 5, thread_index = 0,
       client_ts = \<lparr>tv_sec = 0, tv_nsec = 0\<rparr>\<rparr>]\<rparr>"

lemma all_busy_one_busy: "all_busy one_busy"
  by (simp add: all_busy_def pool_ok_def one_busy_def flags_of_def flag_pos_def is_set_def
      int_shl1_def)

lemma backoff_total_witness:
  "wait_for_idle (replicate 3 one_busy @ [init_workers 1 (\<lambda>_. epoch)]) INITIAL_DELAY 0 =
     Inr (0, init_workers 1 (\<lambda>_. epoch), 7)"
proof -
  have "find_idle_thread (init_workers 1 (\<lambda>_. epoch)) = Inr 0"
    using find_idle_thread_ok [OF pool_ok_init, of 1]
    by (simp add: init_workers_def const_defs)
  then show ?thesis
    using backoff_total [of "replicate 3 one_busy" "init_workers 1 (\<lambda>_. epoch)" 0 "[]"] all_busy_one_busy
    by simp
qed

end
