(* ===== verification/Handoff.thy ===== *)
theory Handoff
  imports Dst_Server
begin

text \<open>
  The hand-off of receivers between the destination server's thread and the worker threads
  (\<^verbatim>\<open>ws_server.c\<close>, \<^verbatim>\<open>lib/thread.c\<close>), with every interleaving of their accesses to the status
  fields, the busy mask and the per-worker lock and condition variable. A step of \<open>handoff_step\<close>
  is one shared access of one thread: the mask is read and written under its own lock, so each such
  access is atomic; a worker's status is written without a lock when the worker is first started.
  While no worker is idle the server sleeps, each time twice as long as before: \<open>backoff\<close> is the number of
  seconds, and the doubling overflows after \<open>2 ^ 30\<close>.
\<close>

section \<open>Threads\<close>

text \<open>
  Where the server is in \<open>run_dst_server\<close>, \<open>init_thread_info\<close> and \<open>wake_up_thread\<close>. In \<open>Delay_Overflow\<close> the
  program's behaviour is undefined.
\<close>

datatype stage =
    Accepting | Searching | Delay_Overflow | Found
  | Init_Args | Init_Bit | Init_Ts | Creating
  | Asserting | Locking | Wake_Args | Wake_Bit | Wake_Ts | Signalling | Unlocking
  | Drop_Client | Assert_Abort

text \<open>Where a worker is: serving its client, or on the path after \<open>conn_closed\<close>.\<close>

datatype wpc =
    Not_Created | Serving | Closed | Holding_Lock | Ready_Set | Checking | Waiting

datatype holder = By_Server | By_Worker

record handoff =
  pool :: worker_list
  stage_of :: stage
  idx :: nat
  backoff :: int
  new_fd :: int
  new_ts :: timespec
  pcs :: "nat \<Rightarrow> wpc"
  arg_lock :: "nat \<Rightarrow> holder option"
  signalled :: "nat \<Rightarrow> bool"

definition init_handoff :: "nat \<Rightarrow> (nat \<Rightarrow> timespec) \<Rightarrow> handoff" where
  "init_handoff n clock =
     \<lparr>pool = init_workers n clock, stage_of = Accepting, idx = 0, backoff = INITIAL_DELAY, new_fd = 0, new_ts = clock 0,
      pcs = (\<lambda>_. Not_Created), arg_lock = (\<lambda>_. None), signalled = (\<lambda>_. False)\<rparr>"

abbreviation status_of :: "handoff \<Rightarrow> nat \<Rightarrow> int" where
  "status_of s i \<equiv> status (workers (pool s) ! i)"

abbreviation set_pool :: "worker_list \<Rightarrow> stage \<Rightarrow> handoff \<Rightarrow> handoff" where
  "set_pool p st s \<equiv> s\<lparr>pool := p, stage_of := st\<rparr>"

section \<open>Steps\<close>

text \<open>
  The destination server: from accepting a receiver to having handed it over. The program sleeps for \<open>backoff\<close>
  seconds before \<open>retry\<close>.
\<close>

inductive server_step :: "handoff \<Rightarrow> handoff \<Rightarrow> bool" where
  accept: "stage_of s = Accepting \<Longrightarrow>
     server_step s (s\<lparr>stage_of := Searching, idx := 0, new_fd := fd, new_ts := ts\<rparr>)"
| probe_busy: "stage_of s = Searching \<Longrightarrow> idx s < num_workers (pool s) \<Longrightarrow>
     is_set (threads_status (pool s)) (int (idx s)) = Inr True \<Longrightarrow>
     server_step s (s\<lparr>idx := Suc (idx s)\<rparr>)"
| probe_idle: "stage_of s = Searching \<Longrightarrow> idx s < num_workers (pool s) \<Longrightarrow>
     is_set (threads_status (pool s)) (int (idx s)) = Inr False \<Longrightarrow>
     server_step s (s\<lparr>stage_of := Found, backoff := INITIAL_DELAY\<rparr>)"
| retry: "stage_of s = Searching \<Longrightarrow> \<not> idx s < num_workers (pool s) \<Longrightarrow> double_delay (backoff s) = Inr d \<Longrightarrow>
     server_step s (s\<lparr>idx := 0, backoff := d\<rparr>)"
| retry_overflow: "stage_of s = Searching \<Longrightarrow> \<not> idx s < num_workers (pool s) \<Longrightarrow>
     double_delay (backoff s) = Inl Int_Overflow \<Longrightarrow> server_step s (s\<lparr>stage_of := Delay_Overflow\<rparr>)"
| switch_available: "stage_of s = Found \<Longrightarrow> status_of s (idx s) = THREAD_AVAILABLE \<Longrightarrow>
     server_step s (s\<lparr>stage_of := Init_Args\<rparr>)"
| switch_ready: "stage_of s = Found \<Longrightarrow> status_of s (idx s) = THREAD_READY \<Longrightarrow>
     server_step s (s\<lparr>stage_of := Asserting\<rparr>)"
| switch_default: "stage_of s = Found \<Longrightarrow>
     status_of s (idx s) \<noteq> THREAD_AVAILABLE \<Longrightarrow> status_of s (idx s) \<noteq> THREAD_READY \<Longrightarrow>
     server_step s (s\<lparr>stage_of := Drop_Client\<rparr>)"
| init_args: "stage_of s = Init_Args \<Longrightarrow>
     server_step s (set_pool (update_worker (pool s) (idx s)
       (\<lambda>w. w\<lparr>client_fd := Some (new_fd s), status := THREAD_BUSY\<rparr>)) Init_Bit s)"
| init_bit: "stage_of s = Init_Bit \<Longrightarrow> set_busy_bit (pool s) (idx s) True = Inr p \<Longrightarrow>
     server_step s (set_pool p Init_Ts s)"
| init_ts: "stage_of s = Init_Ts \<Longrightarrow>
     server_step s (set_pool (update_worker (pool s) (idx s)
       (\<lambda>w. w\<lparr>client_ts := new_ts s\<rparr>)) Creating s)"
| create: "stage_of s = Creating \<Longrightarrow>
     server_step s (s\<lparr>stage_of := Accepting, pcs := (pcs s)(idx s := Serving)\<rparr>)"
| assert_ok: "stage_of s = Asserting \<Longrightarrow> status_of s (idx s) = THREAD_READY \<Longrightarrow>
     server_step s (s\<lparr>stage_of := Locking\<rparr>)"
| assert_fails: "stage_of s = Asserting \<Longrightarrow> status_of s (idx s) \<noteq> THREAD_READY \<Longrightarrow>
     server_step s (s\<lparr>stage_of := Assert_Abort\<rparr>)"
| lock_args: "stage_of s = Locking \<Longrightarrow> arg_lock s (idx s) = None \<Longrightarrow>
     server_step s (s\<lparr>stage_of := Wake_Args, arg_lock := (arg_lock s)(idx s := Some By_Server)\<rparr>)"
| wake_args: "stage_of s = Wake_Args \<Longrightarrow>
     server_step s (set_pool (update_worker (pool s) (idx s)
       (\<lambda>w. w\<lparr>client_fd := Some (new_fd s), status := THREAD_BUSY\<rparr>)) Wake_Bit s)"
| wake_bit: "stage_of s = Wake_Bit \<Longrightarrow> set_busy_bit (pool s) (idx s) True = Inr p \<Longrightarrow>
     server_step s (set_pool p Wake_Ts s)"
| wake_ts: "stage_of s = Wake_Ts \<Longrightarrow>
     server_step s (set_pool (update_worker (pool s) (idx s)
       (\<lambda>w. w\<lparr>client_ts := new_ts s\<rparr>)) Signalling s)"
| signal: "stage_of s = Signalling \<Longrightarrow>
     server_step s (s\<lparr>stage_of := Unlocking,
       signalled := (if pcs s (idx s) = Waiting then (signalled s)(idx s := True) else signalled s)\<rparr>)"
| unlock_args: "stage_of s = Unlocking \<Longrightarrow>
     server_step s (s\<lparr>stage_of := Accepting, arg_lock := (arg_lock s)(idx s := None)\<rparr>)"

text \<open>
  Worker \<open>i\<close>. \<open>Waiting\<close> is inside \<open>pthread_cond_wait\<close>, which has released the lock; it returns after a
  signal, or for no reason, once it has the lock again, and the status is then checked.
\<close>

inductive worker_step :: "nat \<Rightarrow> handoff \<Rightarrow> handoff \<Rightarrow> bool" for i where
  close_conn: "pcs s i = Serving \<Longrightarrow> worker_step i s (s\<lparr>pcs := (pcs s)(i := Closed)\<rparr>)"
| lock: "pcs s i = Closed \<Longrightarrow> arg_lock s i = None \<Longrightarrow>
     worker_step i s (s\<lparr>pcs := (pcs s)(i := Holding_Lock), arg_lock := (arg_lock s)(i := Some By_Worker)\<rparr>)"
| set_ready: "pcs s i = Holding_Lock \<Longrightarrow>
     worker_step i s (s\<lparr>pcs := (pcs s)(i := Ready_Set),
       pool := update_worker (pool s) i (\<lambda>w. w\<lparr>status := THREAD_READY\<rparr>)\<rparr>)"
| clear_bit: "pcs s i = Ready_Set \<Longrightarrow> set_busy_bit (pool s) i False = Inr p \<Longrightarrow>
     worker_step i s (s\<lparr>pcs := (pcs s)(i := Checking), pool := p\<rparr>)"
| wait: "pcs s i = Checking \<Longrightarrow> status_of s i \<noteq> THREAD_BUSY \<Longrightarrow>
     worker_step i s (s\<lparr>pcs := (pcs s)(i := Waiting), arg_lock := (arg_lock s)(i := None),
       signalled := (signalled s)(i := False)\<rparr>)"
| resume: "pcs s i = Checking \<Longrightarrow> status_of s i = THREAD_BUSY \<Longrightarrow>
     worker_step i s (s\<lparr>pcs := (pcs s)(i := Serving), arg_lock := (arg_lock s)(i := None)\<rparr>)"
| wake: "pcs s i = Waiting \<Longrightarrow> arg_lock s i = None \<Longrightarrow>
     worker_step i s (s\<lparr>pcs := (pcs s)(i := Checking), arg_lock := (arg_lock s)(i := Some By_Worker)\<rparr>)"

inductive handoff_step :: "handoff \<Rightarrow> handoff \<Rightarrow> bool" where
  by_server: "server_step s t \<Longrightarrow> handoff_step s t"
| by_worker: "i < num_workers (pool s) \<Longrightarrow> worker_step i s t \<Longrightarrow> handoff_step s t"

section \<open>The invariant\<close>

text \<open>The stage of the server as worker \<open>i\<close> is concerned: \<open>Accepting\<close> when it deals with another.\<close>

definition stage_at :: "handoff \<Rightarrow> nat \<Rightarrow> stage" where
  "stage_at s i = (if idx s = i \<and> stage_of s \<notin> {Searching, Delay_Overflow} then stage_of s else Accepting)"

text \<open>
  Which combinations of the server's stage, the worker's status, its bit, the holder of its lock and
  the signal can occur at each point of a worker.
\<close>

fun worker_ok :: "wpc \<Rightarrow> stage \<Rightarrow> int \<Rightarrow> bool \<Rightarrow> holder option \<Rightarrow> bool \<Rightarrow> bool" where
  "worker_ok Not_Created g st b lk sg \<longleftrightarrow> lk = None \<and>
     (g \<in> {Accepting, Found, Init_Args} \<and> st = THREAD_AVAILABLE \<and> \<not> b \<or>
      g = Init_Bit \<and> st = THREAD_BUSY \<and> \<not> b \<or>
      g \<in> {Init_Ts, Creating} \<and> st = THREAD_BUSY \<and> b)"
| "worker_ok Serving g st b lk sg \<longleftrightarrow> g = Accepting \<and> st = THREAD_BUSY \<and> b \<and> lk = None"
| "worker_ok Closed g st b lk sg \<longleftrightarrow> g = Accepting \<and> st = THREAD_BUSY \<and> b \<and> lk = None"
| "worker_ok Holding_Lock g st b lk sg \<longleftrightarrow>
     g = Accepting \<and> st = THREAD_BUSY \<and> b \<and> lk = Some By_Worker"
| "worker_ok Ready_Set g st b lk sg \<longleftrightarrow>
     g = Accepting \<and> st = THREAD_READY \<and> b \<and> lk = Some By_Worker"
| "worker_ok Checking g st b lk sg \<longleftrightarrow> lk = Some By_Worker \<and>
     (g \<in> {Accepting, Found, Asserting, Locking} \<and> st = THREAD_READY \<and> \<not> b \<or>
      g = Accepting \<and> st = THREAD_BUSY \<and> b)"
| "worker_ok Waiting g st b lk sg \<longleftrightarrow>
     lk = None \<and> (g \<in> {Accepting, Found, Asserting, Locking} \<and> st = THREAD_READY \<and> \<not> b \<or>
       g = Accepting \<and> st = THREAD_BUSY \<and> b \<and> sg) \<or>
     lk = Some By_Server \<and> (g = Wake_Args \<and> st = THREAD_READY \<and> \<not> b \<or>
       g = Wake_Bit \<and> st = THREAD_BUSY \<and> \<not> b \<or>
       g \<in> {Wake_Ts, Signalling} \<and> st = THREAD_BUSY \<and> b \<or>
       g = Unlocking \<and> st = THREAD_BUSY \<and> b \<and> sg)"

definition bit_of :: "handoff \<Rightarrow> nat \<Rightarrow> bool" where
  "bit_of s i \<longleftrightarrow> int i \<in> mask_flags (threads_status (pool s))"

definition handoff_inv :: "handoff \<Rightarrow> bool" where
  "handoff_inv s \<longleftrightarrow>
     length (workers (pool s)) = num_workers (pool s) \<and> num_workers (pool s) \<le> 32 \<and>
     (stage_of s \<notin> {Accepting, Searching, Delay_Overflow} \<longrightarrow> idx s < num_workers (pool s)) \<and>
     (\<forall>i < num_workers (pool s). worker_ok (pcs s i) (stage_at s i) (status_of s i) (bit_of s i)
        (arg_lock s i) (signalled s i))"

lemma handoff_inv_init: "n \<le> 32 \<Longrightarrow> handoff_inv (init_handoff n clock)"
  by (auto simp: handoff_inv_def init_handoff_def init_workers_def stage_at_def bit_of_def
      c_mask.flags_clear)

definition ok_at :: "handoff \<Rightarrow> nat \<Rightarrow> bool" where
  "ok_at s i \<longleftrightarrow> worker_ok (pcs s i) (stage_at s i) (status_of s i) (bit_of s i) (arg_lock s i) (signalled s i)"

text \<open>A step that touches only worker \<open>i\<close> keeps the invariant if it keeps it at \<open>i\<close>.\<close>

lemma handoff_invI:
  assumes "handoff_inv s"
    and "length (workers (pool t)) = length (workers (pool s))"
    and "num_workers (pool t) = num_workers (pool s)"
    and "stage_of t \<notin> {Accepting, Searching, Delay_Overflow} \<longrightarrow> idx t < num_workers (pool s)"
    and "\<And>j. j < num_workers (pool s) \<Longrightarrow> j \<noteq> i \<Longrightarrow>
      pcs t j = pcs s j \<and> stage_at t j = stage_at s j \<and> status_of t j = status_of s j \<and>
      bit_of t j = bit_of s j \<and> arg_lock t j = arg_lock s j \<and> signalled t j = signalled s j"
    and "i < num_workers (pool s) \<Longrightarrow> ok_at s i \<Longrightarrow> ok_at t i"
  shows "handoff_inv t"
proof -
  have "ok_at t j" if "j < num_workers (pool s)" for j
    using assms(1,5,6) that by (cases "j = i") (auto simp: handoff_inv_def ok_at_def)
  then show ?thesis using assms by (simp add: handoff_inv_def ok_at_def)
qed

lemma worker_ok_Searching: "worker_ok w Accepting st False lk sg \<Longrightarrow> worker_ok w Found st False lk sg"
  by (cases w) auto

lemma worker_ok_server:
  "worker_ok w Found st b lk sg \<Longrightarrow> st = THREAD_AVAILABLE \<Longrightarrow> worker_ok w Init_Args st b lk sg"
  "worker_ok w Found st b lk sg \<Longrightarrow> st = THREAD_READY \<Longrightarrow> worker_ok w Asserting st b lk sg"
  "\<lbrakk>worker_ok w Found st b lk sg; st \<noteq> THREAD_AVAILABLE; st \<noteq> THREAD_READY\<rbrakk> \<Longrightarrow> False"
  "worker_ok w Init_Args st b lk sg \<Longrightarrow> worker_ok w Init_Bit THREAD_BUSY b lk sg"
  "worker_ok w Init_Bit st b lk sg \<Longrightarrow> worker_ok w Init_Ts st True lk sg"
  "worker_ok w Init_Ts st b lk sg \<Longrightarrow> worker_ok w Creating st b lk sg"
  "worker_ok w Creating st b lk sg \<Longrightarrow> worker_ok Serving Accepting st b lk sg"
  "worker_ok w Asserting st b lk sg \<Longrightarrow> st = THREAD_READY"
  "worker_ok w Asserting st b lk sg \<Longrightarrow> worker_ok w Locking st b lk sg"
  "worker_ok w Locking st b None sg \<Longrightarrow> worker_ok w Wake_Args st b (Some By_Server) sg"
  "worker_ok w Wake_Args st b lk sg \<Longrightarrow> worker_ok w Wake_Bit THREAD_BUSY b lk sg"
  "worker_ok w Wake_Bit st b lk sg \<Longrightarrow> worker_ok w Wake_Ts st True lk sg"
  "worker_ok w Wake_Ts st b lk sg \<Longrightarrow> worker_ok w Signalling st b lk sg"
  "worker_ok w Signalling st b lk sg \<Longrightarrow> worker_ok w Unlocking st b lk (w = Waiting \<or> sg)"
  "worker_ok w Unlocking st b lk sg \<Longrightarrow> worker_ok w Accepting st b None sg"
  by (cases w; auto simp: const_defs)+

lemma worker_ok_worker:
  "worker_ok Serving g st b lk sg \<Longrightarrow> worker_ok Closed g st b lk sg"
  "worker_ok Closed g st b lk sg \<Longrightarrow> worker_ok Holding_Lock g st b (Some By_Worker) sg"
  "worker_ok Holding_Lock g st b lk sg \<Longrightarrow> worker_ok Ready_Set g THREAD_READY b lk sg"
  "worker_ok Ready_Set g st b lk sg \<Longrightarrow> worker_ok Checking g st False lk sg"
  "worker_ok Checking g st b lk sg \<Longrightarrow> st \<noteq> THREAD_BUSY \<Longrightarrow> worker_ok Waiting g st b None False"
  "worker_ok Checking g st b lk sg \<Longrightarrow> st = THREAD_BUSY \<Longrightarrow> worker_ok Serving g st b None sg"
  "worker_ok Waiting g st b None sg \<Longrightarrow> worker_ok Checking g st b (Some By_Worker) sg"
  by (auto simp: const_defs)

declare worker_ok.simps [simp del]

lemma is_set_bit_of:
  "is_set (threads_status (pool s)) (int i) = Inr b \<Longrightarrow> i < 32 \<Longrightarrow> bit_of s i = b"
  using c_mask.get_iff_flags [of "int i" "threads_status (pool s)"]
  by (simp add: bit_of_def flag_pos_def)

lemma worker_step_inv:
  assumes "worker_step i s t" "handoff_inv s" "i < num_workers (pool s)"
  shows "handoff_inv t"
proof (rule handoff_invI [OF assms(2), where i = i])
  have i: "i < 32" "i < length (workers (pool s))"
    and x: "stage_of s \<notin> {Accepting, Searching, Delay_Overflow} \<longrightarrow> idx s < num_workers (pool s)"
    and l: "length (workers (pool s)) = num_workers (pool s)"
    using assms(2,3) by (auto simp: handoff_inv_def)
  note sb = set_busy_bit_Inr [OF _ i(1)]
  show "length (workers (pool t)) = length (workers (pool s))"
    "num_workers (pool t) = num_workers (pool s)"
    "stage_of t \<notin> {Accepting, Searching, Delay_Overflow} \<longrightarrow> idx t < num_workers (pool s)"
    using assms(1) x by (cases; simp add: sb)+
  show "pcs t j = pcs s j \<and> stage_at t j = stage_at s j \<and> status_of t j = status_of s j \<and>
      bit_of t j = bit_of s j \<and> arg_lock t j = arg_lock s j \<and> signalled t j = signalled s j"
    if "j < num_workers (pool s)" "j \<noteq> i" for j
    using assms(1) that l by cases (auto simp: sb stage_at_def bit_of_def)
  show "ok_at t i" if "ok_at s i"
    using assms(1) that i(2)
    by cases (auto simp: sb stage_at_def bit_of_def ok_at_def dest: worker_ok_worker)
qed

lemma stage_at_other: "j \<noteq> idx s \<Longrightarrow> stage_at s j = Accepting"
  by (simp add: stage_at_def)

lemma ok_at_idx:
  "handoff_inv s \<Longrightarrow> idx s < num_workers (pool s) \<Longrightarrow> stage_of s \<notin> {Searching, Delay_Overflow} \<Longrightarrow>
   worker_ok (pcs s (idx s)) (stage_of s) (status_of s (idx s)) (bit_of s (idx s))
     (arg_lock s (idx s)) (signalled s (idx s))"
  by (auto simp: handoff_inv_def stage_at_def)

lemma searching_step:
  assumes "server_step s t" "stage_of s \<in> {Accepting, Searching, Delay_Overflow}"
  shows "pool t = pool s" "pcs t = pcs s" "arg_lock t = arg_lock s" "signalled t = signalled s"
    "stage_of t \<in> {Searching, Delay_Overflow} \<or>
       t = s\<lparr>stage_of := Found, backoff := INITIAL_DELAY\<rparr> \<and> stage_of s = Searching \<and>
       idx s < num_workers (pool s) \<and> is_set (threads_status (pool s)) (int (idx s)) = Inr False"
  using assms by (cases; simp)+

lemma server_inv_searching:
  assumes "server_step s t" "handoff_inv s" "stage_of s \<in> {Accepting, Searching, Delay_Overflow}"
  shows "handoff_inv t"
proof -
  note st = searching_step [OF assms(1,3)]
  have s0: "stage_at s j = Accepting" for j using assms(3) by (auto simp: stage_at_def)
  from st(5) show ?thesis
  proof
    assume a: "stage_of t \<in> {Searching, Delay_Overflow}"
    then have "stage_at t j = Accepting" for j by (auto simp: stage_at_def)
    with a assms(2) st s0 show ?thesis by (simp add: handoff_inv_def bit_of_def)
  next
    assume a: "t = s\<lparr>stage_of := Found, backoff := INITIAL_DELAY\<rparr> \<and> stage_of s = Searching \<and>
       idx s < num_workers (pool s) \<and> is_set (threads_status (pool s)) (int (idx s)) = Inr False"
    then have i: "idx s < num_workers (pool s)" "idx s < 32"
      using assms(2) by (auto simp: handoff_inv_def)
    then have b: "\<not> bit_of s (idx s)" using a is_set_bit_of by blast
    have t: "stage_at t j = (if j = idx s then Found else Accepting)" for j
      using a by (auto simp: stage_at_def)
    show ?thesis
    proof (rule handoff_invI [OF assms(2), where i = "idx s"])
      show "ok_at t (idx s)" if "ok_at s (idx s)"
        using that st b t s0 worker_ok_Searching by (simp add: ok_at_def bit_of_def)
    qed (use a i t s0 in \<open>simp_all add: bit_of_def\<close>)
  qed
qed

lemma server_step_frame:
  assumes "server_step s t" "stage_of s \<notin> {Accepting, Searching, Delay_Overflow}" "idx s < 32"
    "length (workers (pool s)) = num_workers (pool s)"
  shows "length (workers (pool t)) = length (workers (pool s))"
    "num_workers (pool t) = num_workers (pool s)" "idx t = idx s"
    "j \<noteq> idx s \<Longrightarrow> pcs t j = pcs s j"
    "j < num_workers (pool s) \<Longrightarrow> j \<noteq> idx s \<Longrightarrow> status_of t j = status_of s j"
    "j \<noteq> idx s \<Longrightarrow> bit_of t j = bit_of s j"
    "j \<noteq> idx s \<Longrightarrow> arg_lock t j = arg_lock s j"
    "j \<noteq> idx s \<Longrightarrow> signalled t j = signalled s j"
    "stage_of t \<notin> {Searching, Delay_Overflow}"
  using assms by (cases; simp add: set_busy_bit_Inr bit_of_def; fail)+

lemma server_inv_handing:
  assumes "server_step s t" "handoff_inv s" "stage_of s \<notin> {Accepting, Searching, Delay_Overflow}"
  shows "handoff_inv t"
proof -
  have l: "length (workers (pool s)) = num_workers (pool s)" and
    i: "idx s < num_workers (pool s)" "idx s < 32" "idx s < length (workers (pool s))"
    using assms(2,3) by (auto simp: handoff_inv_def)
  note fr = server_step_frame [OF assms(1,3) i(2) l]
  note sb = set_busy_bit_Inr [OF _ i(2)] and ok = ok_at_idx [OF assms(2) i(1)]
  show ?thesis
  proof (rule handoff_invI [OF assms(2), where i = "idx s"])
    show "ok_at t (idx s)"
      using assms(1,3) ok i(3)
      by cases (auto simp: sb stage_at_def bit_of_def ok_at_def dest: worker_ok_server)
  qed (simp_all add: fr i stage_at_other)
qed

lemma server_step_inv: "server_step s t \<Longrightarrow> handoff_inv s \<Longrightarrow> handoff_inv t"
  by (cases "stage_of s \<in> {Accepting, Searching, Delay_Overflow}") (auto intro: server_inv_searching server_inv_handing)

lemma handoff_step_inv: "handoff_step s t \<Longrightarrow> handoff_inv s \<Longrightarrow> handoff_inv t"
  by (auto elim!: handoff_step.cases intro: server_step_inv worker_step_inv)

lemma server_step_workers:
  "server_step s t \<Longrightarrow> handoff_inv s \<Longrightarrow> num_workers (pool t) = num_workers (pool s)"
  using searching_step [of s t] server_step_frame(2) [of s t]
  by (cases "stage_of s \<in> {Accepting, Searching, Delay_Overflow}") (auto simp: handoff_inv_def)

lemma worker_step_workers:
  "worker_step i s t \<Longrightarrow> i < 32 \<Longrightarrow> num_workers (pool t) = num_workers (pool s)"
  by (cases rule: worker_step.cases) (auto simp: set_busy_bit_Inr)

lemma handoff_step_workers:
  assumes "handoff_step s t" "handoff_inv s"
  shows "num_workers (pool t) = num_workers (pool s)"
  using assms
  by (auto elim!: handoff_step.cases simp: server_step_workers handoff_inv_def
      intro: worker_step_workers)

text \<open>The states the program can be in.\<close>

definition reachable :: "nat \<Rightarrow> (nat \<Rightarrow> timespec) \<Rightarrow> handoff \<Rightarrow> bool" where
  "reachable n clock s \<longleftrightarrow> handoff_step\<^sup>*\<^sup>* (init_handoff n clock) s"

lemma reachable_init: "reachable n clock (init_handoff n clock)"
  by (simp add: reachable_def)

lemma reachable_step: "reachable n clock s \<Longrightarrow> handoff_step s t \<Longrightarrow> reachable n clock t"
  by (simp add: reachable_def)

lemma reachable_inv:
  assumes "reachable n clock s" "n \<le> 32"
  shows "handoff_inv s \<and> num_workers (pool s) = n"
  using assms(1) unfolding reachable_def
proof (induction rule: rtranclp_induct)
  case base
  then show ?case using assms(2) handoff_inv_init by (simp add: init_handoff_def init_workers_def)
next
  case (step s t)
  then show ?case using handoff_step_inv handoff_step_workers by blast
qed

lemma reachable_ok:
  "reachable n clock s \<Longrightarrow> n \<le> 32 \<Longrightarrow> i < n \<Longrightarrow>
   worker_ok (pcs s i) (stage_at s i) (status_of s i) (bit_of s i) (arg_lock s i) (signalled s i)"
  using reachable_inv by (auto simp: handoff_inv_def)

lemma worker_ok_stage:
  "worker_ok w g st b lk sg \<Longrightarrow> g \<noteq> Assert_Abort \<and> g \<noteq> Drop_Client"
  by (cases w) (auto simp: worker_ok.simps)

text \<open>A server that is not stopped at the lock of a worker, or by the overflow, can take a step.\<close>

lemma server_can_search:
  assumes "handoff_inv s" "stage_of s = Searching"
  shows "\<exists>t. server_step s t"
proof (cases "idx s < num_workers (pool s)")
  case True
  then have "flag_pos (int (idx s))" using assms by (auto simp: handoff_inv_def flag_pos_def)
  then obtain b where "is_set (threads_status (pool s)) (int (idx s)) = Inr b"
    using c_mask.get_total by blast
  then show ?thesis
    using server_step.probe_busy [OF assms(2) True] server_step.probe_idle [OF assms(2) True]
    by (cases b) auto
next
  case False
  then show ?thesis
    using server_step.retry [OF assms(2)] server_step.retry_overflow [OF assms(2)]
    by (cases "2 * backoff s < 2 ^ 31") (auto simp: double_delay_def)
qed

lemma server_can_step:
  assumes "handoff_inv s" "stage_of s \<notin> {Locking, Delay_Overflow}"
  shows "\<exists>t. server_step s t"
proof -
  have sg: "stage_of s \<noteq> Assert_Abort \<and> stage_of s \<noteq> Drop_Client" and
    bit: "stage_of s \<notin> {Accepting, Searching, Delay_Overflow} \<Longrightarrow> idx s < 32"
    using assms(1) ok_at_idx [OF assms(1)] worker_ok_stage by (fastforce simp: handoff_inv_def)+
  show ?thesis
  proof (cases "stage_of s")
    case Searching
    with assms server_can_search show ?thesis by blast
  next
    case Init_Bit
    then show ?thesis using set_busy_bit_ok [of "idx s" "pool s" True] bit server_step.init_bit by fastforce
  next
    case Wake_Bit
    then show ?thesis using set_busy_bit_ok [of "idx s" "pool s" True] bit server_step.wake_bit by fastforce
  next
    case Found
    then show ?thesis
      using server_step.switch_available server_step.switch_ready server_step.switch_default by metis
  next
    case Asserting
    then show ?thesis using server_step.assert_ok server_step.assert_fails by metis
  qed (use assms(2) sg in \<open>auto dest: server_step.intros\<close>)
qed

text \<open>
  A server that is stopped at the lock of a worker meets a worker that is about to wait, which
  releases the lock.
\<close>

lemma locked_worker_waits:
  assumes "handoff_inv s" "stage_of s = Locking"
  shows "(\<exists>t. server_step s t) \<or> (\<exists>u t. worker_step (idx s) s u \<and> server_step u t)"
proof (cases "arg_lock s (idx s)")
  case None
  then show ?thesis using assms(2) server_step.lock_args by blast
next
  case (Some h)
  let ?u = "s\<lparr>pcs := (pcs s)(idx s := Waiting), arg_lock := (arg_lock s)(idx s := None),
       signalled := (signalled s)(idx s := False)\<rparr>"
  have "idx s < num_workers (pool s)" using assms by (simp add: handoff_inv_def)
  with assms Some have "pcs s (idx s) = Checking \<and> status_of s (idx s) \<noteq> THREAD_BUSY"
    using ok_at_idx [of s] by (cases "pcs s (idx s)") (auto simp: worker_ok.simps const_defs)
  then have "worker_step (idx s) s ?u" using worker_step.wait by blast
  moreover have "\<exists>t. server_step ?u t"
    using server_step.lock_args [of ?u] assms(2) by auto
  ultimately show ?thesis by blast
qed

section \<open>A run with one worker\<close>

text \<open>
  The states of a pool with one worker, and the way from the start through the first receiver
  (descriptor 7) to handing over the second (descriptor 9).
\<close>

definition demo_ts :: timespec where
  "demo_ts = \<lparr>tv_sec = 0, tv_nsec = 0\<rparr>"

definition demo ::
  "stage \<Rightarrow> int \<Rightarrow> wpc \<Rightarrow> int \<Rightarrow> int option \<Rightarrow> u64 \<Rightarrow> holder option \<Rightarrow> handoff" where
  "demo g fd w st cfd m lk =
     \<lparr>pool = \<lparr>threads_status = m, num_workers = 1,
        workers = [\<lparr>status = st, client_fd = cfd, thread_index = 0, client_ts = demo_ts\<rparr>]\<rparr>,
      stage_of = g, idx = 0, backoff = INITIAL_DELAY, new_fd = fd, new_ts = demo_ts, pcs = (\<lambda>_. Not_Created)(0 := w),
      arg_lock = (\<lambda>_. None)(0 := lk), signalled = (\<lambda>_. False)\<rparr>"

lemma demo_init: "init_handoff 1 (\<lambda>_. demo_ts) = demo Accepting 0 Not_Created THREAD_AVAILABLE None 0 None"
  by (simp add: init_handoff_def init_workers_def demo_def fun_upd_idem)

lemma is_set_0: "is_set 0 0 = Inr False"
  using c_mask.get_clear [of 0] by (simp add: flag_pos_def)

lemma set_bit_0: "set_bit_mask 0 0 True = Inr 1"
  by (simp add: set_bit_mask_def int_shl1_def)

lemma clear_bit_1: "set_bit_mask 1 0 False = Inr 0"
  by (simp add: set_bit_mask_def int_shl1_def)

lemma demo_busy:
  assumes "c = Not_Created \<and> st = THREAD_AVAILABLE \<or> c = Waiting \<and> st = THREAD_READY"
  shows "server_step\<^sup>*\<^sup>* (demo Accepting fd0 c st cfd 0 None) (demo Found fd c st cfd 0 None)"
proof -
  have "server_step (demo Accepting fd0 c st cfd 0 None) (demo Searching fd c st cfd 0 None)"
    using server_step.accept [of "demo Accepting fd0 c st cfd 0 None" demo_ts fd]
    by (simp add: demo_def)
  moreover have "server_step (demo Searching fd c st cfd 0 None) (demo Found fd c st cfd 0 None)"
    using server_step.probe_idle [of "demo Searching fd c st cfd 0 None"]
    by (simp add: demo_def is_set_0)
  ultimately show ?thesis by auto
qed

lemma demo_start:
  "server_step\<^sup>*\<^sup>* (demo Found fd Not_Created THREAD_AVAILABLE cfd 0 None)
     (demo Accepting fd Serving THREAD_BUSY (Some fd) 1 None)"
proof -
  let ?s = "\<lambda>g w st. demo g fd w st"
  have "server_step (?s Found Not_Created THREAD_AVAILABLE cfd 0 None)
      (?s Init_Args Not_Created THREAD_AVAILABLE cfd 0 None)"
    using server_step.switch_available [of "?s Found Not_Created THREAD_AVAILABLE cfd 0 None"]
    by (simp add: demo_def)
  moreover have "server_step (?s Init_Args Not_Created THREAD_AVAILABLE cfd 0 None)
      (?s Init_Bit Not_Created THREAD_BUSY (Some fd) 0 None)"
    using server_step.init_args [of "?s Init_Args Not_Created THREAD_AVAILABLE cfd 0 None"]
    by (simp add: demo_def update_worker_def)
  moreover have "server_step (?s Init_Bit Not_Created THREAD_BUSY (Some fd) 0 None)
      (?s Init_Ts Not_Created THREAD_BUSY (Some fd) 1 None)"
    using server_step.init_bit [of "?s Init_Bit Not_Created THREAD_BUSY (Some fd) 0 None"]
    by (simp add: demo_def set_busy_bit_def set_bit_0)
  moreover have "server_step (?s Init_Ts Not_Created THREAD_BUSY (Some fd) 1 None)
      (?s Creating Not_Created THREAD_BUSY (Some fd) 1 None)"
    using server_step.init_ts [of "?s Init_Ts Not_Created THREAD_BUSY (Some fd) 1 None"]
    by (simp add: demo_def update_worker_def)
  moreover have "server_step (?s Creating Not_Created THREAD_BUSY (Some fd) 1 None)
      (?s Accepting Serving THREAD_BUSY (Some fd) 1 None)"
    using server_step.create [of "?s Creating Not_Created THREAD_BUSY (Some fd) 1 None"]
    by (simp add: demo_def)
  ultimately show ?thesis by (meson converse_rtranclp_into_rtranclp rtranclp.rtrancl_refl)
qed

lemma demo_release:
  "(worker_step 0)\<^sup>*\<^sup>* (demo g fd Serving THREAD_BUSY cfd 1 None)
     (demo g fd Waiting THREAD_READY cfd 0 None)"
proof -
  have "worker_step 0 (demo g fd Serving THREAD_BUSY cfd 1 None) (demo g fd Closed THREAD_BUSY cfd 1 None)"
    using worker_step.close_conn [of "demo g fd Serving THREAD_BUSY cfd 1 None" 0] by (simp add: demo_def)
  moreover have "worker_step 0 (demo g fd Closed THREAD_BUSY cfd 1 None)
      (demo g fd Holding_Lock THREAD_BUSY cfd 1 (Some By_Worker))"
    using worker_step.lock [of "demo g fd Closed THREAD_BUSY cfd 1 None" 0] by (simp add: demo_def)
  moreover have "worker_step 0 (demo g fd Holding_Lock THREAD_BUSY cfd 1 (Some By_Worker))
      (demo g fd Ready_Set THREAD_READY cfd 1 (Some By_Worker))"
    using worker_step.set_ready [of "demo g fd Holding_Lock THREAD_BUSY cfd 1 (Some By_Worker)" 0]
    by (simp add: demo_def update_worker_def)
  moreover have "worker_step 0 (demo g fd Ready_Set THREAD_READY cfd 1 (Some By_Worker))
      (demo g fd Checking THREAD_READY cfd 0 (Some By_Worker))"
    using worker_step.clear_bit [of "demo g fd Ready_Set THREAD_READY cfd 1 (Some By_Worker)" 0]
    by (simp add: demo_def set_busy_bit_def clear_bit_1)
  moreover have "worker_step 0 (demo g fd Checking THREAD_READY cfd 0 (Some By_Worker))
      (demo g fd Waiting THREAD_READY cfd 0 None)"
    using worker_step.wait [of "demo g fd Checking THREAD_READY cfd 0 (Some By_Worker)" 0]
    by (simp add: demo_def const_defs fun_upd_idem)
  ultimately show ?thesis by (meson converse_rtranclp_into_rtranclp rtranclp.rtrancl_refl)
qed

lemma demo_wake:
  "server_step\<^sup>*\<^sup>* (demo Found fd Waiting THREAD_READY cfd 0 None)
     (demo Wake_Args fd Waiting THREAD_READY cfd 0 (Some By_Server))"
proof -
  have "server_step (demo Found fd Waiting THREAD_READY cfd 0 None)
      (demo Asserting fd Waiting THREAD_READY cfd 0 None)"
    using server_step.switch_ready [of "demo Found fd Waiting THREAD_READY cfd 0 None"] by (simp add: demo_def)
  moreover have "server_step (demo Asserting fd Waiting THREAD_READY cfd 0 None)
      (demo Locking fd Waiting THREAD_READY cfd 0 None)"
    using server_step.assert_ok [of "demo Asserting fd Waiting THREAD_READY cfd 0 None"] by (simp add: demo_def)
  moreover have "server_step (demo Locking fd Waiting THREAD_READY cfd 0 None)
      (demo Wake_Args fd Waiting THREAD_READY cfd 0 (Some By_Server))"
    using server_step.lock_args [of "demo Locking fd Waiting THREAD_READY cfd 0 None"] by (simp add: demo_def)
  ultimately show ?thesis by (meson converse_rtranclp_into_rtranclp rtranclp.rtrancl_refl)
qed

lemma reachable_server:
  "server_step\<^sup>*\<^sup>* s t \<Longrightarrow> reachable n clock s \<Longrightarrow> reachable n clock t"
  by (induction rule: rtranclp_induct) (auto intro: reachable_step by_server)

lemma reachable_worker:
  "(worker_step i)\<^sup>*\<^sup>* s t \<Longrightarrow> reachable n clock s \<Longrightarrow> i < n \<Longrightarrow> n \<le> 32 \<Longrightarrow> reachable n clock t"
  by (induction rule: rtranclp_induct)
     (auto dest: reachable_inv intro: reachable_step by_worker)

lemma demo_reachable:
  "reachable 1 (\<lambda>_. demo_ts) (demo Wake_Args 9 Waiting THREAD_READY (Some 7) 0 (Some By_Server))"
proof -
  have "reachable 1 (\<lambda>_. demo_ts) (demo Found 7 Not_Created THREAD_AVAILABLE None 0 None)"
    using reachable_server [OF demo_busy] reachable_init [of 1 "\<lambda>_. demo_ts"] demo_init by simp
  then have "reachable 1 (\<lambda>_. demo_ts) (demo Accepting 7 Waiting THREAD_READY (Some 7) 0 None)"
    using reachable_worker [OF demo_release, of 1] reachable_server [OF demo_start] by simp
  then show ?thesis
    using reachable_server [OF demo_wake] reachable_server [OF demo_busy, of Waiting THREAD_READY] by blast
qed

section \<open>Safety and progress of the hand-off\<close>

text \<open>
  Property C11. Under every interleaving of the server and up to 32 workers, the assertion of
  \<open>wake_up_thread\<close> never fails and the \<open>default\<close> branch of the server's \<open>switch\<close>, which would lose
  the receiver, is never taken: the status the server reads always agrees with the clear bit that
  made it choose the worker.
\<close>

theorem handoff_never_drops:
  assumes "reachable n clock s" "n \<le> 32"
  shows "stage_of s \<noteq> Assert_Abort \<and> stage_of s \<noteq> Drop_Client"
proof -
  have inv: "handoff_inv s" using reachable_inv assms by blast
  show ?thesis
  proof (cases "stage_of s \<in> {Accepting, Searching, Delay_Overflow}")
    case False
    with inv have "idx s < num_workers (pool s)" by (auto simp: handoff_inv_def)
    from worker_ok_stage [OF ok_at_idx [OF inv this]] False show ?thesis by auto
  qed auto
qed

theorem handoff_never_drops_witness:
  "stage_of (demo Wake_Args 9 Waiting THREAD_READY (Some 7) 0 (Some By_Server)) \<noteq> Assert_Abort"
  using handoff_never_drops [OF demo_reachable] by simp

text \<open>
  Property C13. The descriptor and the start time of a worker change only while the worker does not
  look at them: it has not been created yet, or it is waiting and the server holds its lock.
\<close>

theorem args_change_exclusive:
  assumes "reachable n clock s" "n \<le> 32" "handoff_step s t" "i < n"
    and "client_fd (workers (pool t) ! i) \<noteq> client_fd (workers (pool s) ! i) \<or>
         client_ts (workers (pool t) ! i) \<noteq> client_ts (workers (pool s) ! i)"
  shows "pcs s i = Not_Created \<or> pcs s i = Waiting \<and> arg_lock s i = Some By_Server"
proof -
  have inv: "handoff_inv s" "num_workers (pool s) = n" using reachable_inv assms by blast+
  then have i: "i < length (workers (pool s))" "i < 32" using assms(2,4) by (auto simp: handoff_inv_def)
  have "idx s = i \<and> stage_of s \<in> {Init_Args, Init_Ts, Wake_Args, Wake_Ts}"
    using assms(3,5) i
  proof cases
    case by_server
    then show ?thesis using assms(5) i
      by cases (auto simp: set_busy_bit_def fault_simps split: if_splits)
  next
    case (by_worker j)
    then have "j < 32" using inv assms(2) by simp
    with by_worker(2) show ?thesis using assms(5) i
      by cases (auto simp: set_busy_bit_def fault_simps split: if_splits)
  qed
  with inv assms(4) ok_at_idx [of s] show ?thesis
    by (cases "pcs s i") (auto simp: worker_ok.simps)
qed

theorem args_change_exclusive_witness:
  "pcs (demo Wake_Args 9 Waiting THREAD_READY (Some 7) 0 (Some By_Server)) 0 = Waiting"
proof -
  let ?s = "demo Wake_Args 9 Waiting THREAD_READY (Some 7) 0 (Some By_Server)"
  have "handoff_step ?s (demo Wake_Bit 9 Waiting THREAD_BUSY (Some 9) 0 (Some By_Server))"
    using by_server [OF server_step.wake_args [of ?s]] by (simp add: demo_def update_worker_def)
  from args_change_exclusive [OF demo_reachable _ this, of 0] show ?thesis
    by (simp add: demo_def)
qed

text \<open>
  Property C12. No wake-up is lost: a worker that waits although it has been given a receiver either
  has a signal pending or the server still holds its lock and is about to send the signal.
\<close>

theorem no_lost_wakeup:
  assumes "reachable n clock s" "n \<le> 32" "i < n" "pcs s i = Waiting" "status_of s i = THREAD_BUSY"
  shows "signalled s i \<or>
    idx s = i \<and> stage_of s \<in> {Wake_Bit, Wake_Ts, Signalling} \<and> arg_lock s i = Some By_Server"
  using reachable_ok [OF assms(1,2,3)] assms(4,5)
  by (auto simp: worker_ok.simps stage_at_def const_defs split: if_splits)

theorem no_lost_wakeup_witness:
  "stage_of (demo Wake_Bit 9 Waiting THREAD_BUSY (Some 9) 0 (Some By_Server)) = Wake_Bit \<and>
   reachable 1 (\<lambda>_. demo_ts) (demo Wake_Bit 9 Waiting THREAD_BUSY (Some 9) 0 (Some By_Server)) \<and>
   arg_lock (demo Wake_Bit 9 Waiting THREAD_BUSY (Some 9) 0 (Some By_Server)) 0 = Some By_Server"
proof -
  let ?s = "demo Wake_Args 9 Waiting THREAD_READY (Some 7) 0 (Some By_Server)"
  let ?t = "demo Wake_Bit 9 Waiting THREAD_BUSY (Some 9) 0 (Some By_Server)"
  have "handoff_step ?s ?t"
    using by_server [OF server_step.wake_args [of ?s]] by (simp add: demo_def update_worker_def)
  then have r: "reachable 1 (\<lambda>_. demo_ts) ?t" using reachable_step demo_reachable by blast
  from no_lost_wakeup [OF this, of 0] r show ?thesis by (simp add: demo_def)
qed

text \<open>
  Unless the delay overflows the server is never stuck: in every reachable state it can step, at the latest after one
  step of the worker whose lock it needs (the worker's \<open>pthread_cond_wait\<close>, which releases it).
\<close>

lemma server_never_stuck:
  assumes "reachable n clock s" "n \<le> 32" "stage_of s \<noteq> Delay_Overflow"
  shows "(\<exists>t. server_step s t) \<or> (\<exists>u t. worker_step (idx s) s u \<and> server_step u t)"
  using reachable_inv [OF assms(1,2)] assms(3) server_can_step locked_worker_waits by blast

lemma server_never_stuck_witness:
  "\<exists>u. server_step (demo Wake_Args 9 Waiting THREAD_READY (Some 7) 0 (Some By_Server)) u \<or>
       worker_step 0 (demo Wake_Args 9 Waiting THREAD_READY (Some 7) 0 (Some By_Server)) u"
  using server_never_stuck [OF demo_reachable] by (auto simp: demo_def)

end
