(* ===== verification/Fair_Run.thy ===== *)
theory Fair_Run
  imports Prelude
begin

text \<open>
  Runs of processes under a fair scheduler. A process may move; in some states it is obliged to, which means that it
  is not waiting for the outside world. In a fair run every process that is obliged to move again and again
  moves again and again. The rules for what such runs lead to come first; the locale \<open>fair_processes\<close> is the contract of
  a system of processes.
\<close>

section \<open>Fair runs\<close>

text \<open>\<open>sched k\<close> is the process whose turn is the \<open>k\<close>-th; \<open>None\<close> is a turn in which nothing happens.\<close>

definition fair_run ::
  "('p \<Rightarrow> 's \<Rightarrow> 's \<Rightarrow> bool) \<Rightarrow> ('p \<Rightarrow> 's \<Rightarrow> bool) \<Rightarrow> (nat \<Rightarrow> 'p option) \<Rightarrow> (nat \<Rightarrow> 's) \<Rightarrow> bool" where
  "fair_run move obliged sched f \<longleftrightarrow>
     (\<forall>k. sched k = None \<longrightarrow> f (Suc k) = f k) \<and>
     (\<forall>k p. sched k = Some p \<longrightarrow> move p (f k) (f (Suc k))) \<and>
     (\<forall>p. (\<forall>k. \<exists>j\<ge>k. obliged p (f j)) \<longrightarrow> (\<forall>k. \<exists>j\<ge>k. sched j = Some p))"

lemma fair_run_move: "fair_run move obliged sched f \<Longrightarrow> sched k = Some p \<Longrightarrow> move p (f k) (f (Suc k))"
  by (simp add: fair_run_def)

lemma fair_run_turn: "fair_run move obliged sched f \<Longrightarrow> f (Suc k) = f k \<or> (\<exists>p. move p (f k) (f (Suc k)))"
  by (cases "sched k") (simp add: fair_run_def, metis fair_run_move)

lemma fair_run_again:
  "fair_run move obliged sched f \<Longrightarrow> \<forall>k. \<exists>j\<ge>k. obliged p (f j) \<Longrightarrow> \<exists>j\<ge>k. sched j = Some p"
  by (simp add: fair_run_def)

text \<open>What is left of a fair run is one.\<close>

lemma fair_run_suffix:
  assumes "fair_run move obliged sched f"
  shows "fair_run move obliged (\<lambda>j. sched (k + j)) (\<lambda>j. f (k + j))"
  unfolding fair_run_def
proof (intro conjI allI impI)
  show "f (k + Suc j) = f (k + j)" if "sched (k + j) = None" for j
    using assms that by (simp add: fair_run_def)
  show "move p (f (k + j)) (f (k + Suc j))" if "sched (k + j) = Some p" for j p
    using fair_run_move [OF assms that] by simp
  fix p m assume o: "\<forall>m. \<exists>j\<ge>m. obliged p (f (k + j))"
  have "\<exists>j\<ge>i. obliged p (f j)" for i
  proof -
    from o obtain j where "i \<le> j" "obliged p (f (k + j))" by blast
    then show ?thesis by (intro exI [of _ "k + j"]) simp
  qed
  then obtain j where "k + m \<le> j" "sched j = Some p" using fair_run_again [OF assms] by blast
  then show "\<exists>j\<ge>m. sched (k + j) = Some p" by (intro exI [of _ "j - k"]) auto
qed

definition leads_to :: "(nat \<Rightarrow> 's) \<Rightarrow> ('s \<Rightarrow> bool) \<Rightarrow> ('s \<Rightarrow> bool) \<Rightarrow> bool" where
  "leads_to f P Q \<longleftrightarrow> (\<forall>k. P (f k) \<longrightarrow> (\<exists>j\<ge>k. Q (f j)))"

lemma leads_toI: "(\<And>k. P (f k) \<Longrightarrow> \<exists>j\<ge>k. Q (f j)) \<Longrightarrow> leads_to f P Q"
  by (simp add: leads_to_def)

lemma leads_toD: "leads_to f P Q \<Longrightarrow> P (f k) \<Longrightarrow> \<exists>j\<ge>k. Q (f j)"
  by (simp add: leads_to_def)

lemma leads_to_now: "(\<And>s. P s \<Longrightarrow> Q s) \<Longrightarrow> leads_to f P Q"
  by (auto simp: leads_to_def)

lemma leads_to_trans: "leads_to f P Q \<Longrightarrow> leads_to f Q R \<Longrightarrow> leads_to f P R"
  unfolding leads_to_def by (meson le_trans)

lemma leads_to_cases: "leads_to f P (\<lambda>s. Q s \<or> R s) \<Longrightarrow> leads_to f R Q \<Longrightarrow> leads_to f P Q"
  unfolding leads_to_def by (meson le_trans)

text \<open>A rank that falls, or the goal is reached.\<close>

lemma leads_to_rank:
  fixes r :: "'s \<Rightarrow> nat"
  assumes "\<And>m. leads_to f (\<lambda>s. P s \<and> r s = m) (\<lambda>s. Q s \<or> P s \<and> r s < m)"
  shows "leads_to f P Q"
proof (rule leads_toI)
  fix k assume "P (f k)"
  then show "\<exists>j\<ge>k. Q (f j)"
  proof (induction "r (f k)" arbitrary: k rule: less_induct)
    case less
    from leads_toD [OF assms, of k] less.prems
    obtain j where j: "k \<le> j" "Q (f j) \<or> P (f j) \<and> r (f j) < r (f k)" by auto
    with less.hyps [of j] show ?case by (meson le_trans)
  qed
qed

section \<open>Proof rules\<close>

text \<open>
  In the rules \<open>G\<close> is what is known of every state of the run. What every move keeps until \<open>Q\<close> holds is kept until
  \<open>Q\<close> holds.
\<close>

lemma run_keeps:
  assumes run: "fair_run move obliged sched f" "\<forall>k. G (f k)"
    and keep: "\<And>s t p. G s \<Longrightarrow> G t \<Longrightarrow> P s \<Longrightarrow> move p s t \<Longrightarrow> P t \<or> Q t"
    and "P (f k)" "\<And>j. k \<le> j \<Longrightarrow> j \<le> k + d \<Longrightarrow> \<not> Q (f j)"
  shows "P (f (k + d))"
  using assms(5)
proof (induction d)
  case (Suc d)
  then have P: "P (f (k + d))" by simp
  from fair_run_turn [OF run(1), of "k + d"] show ?case
  proof
    assume "\<exists>p. move p (f (k + d)) (f (Suc (k + d)))"
    with keep [OF _ _ P] run(2) Suc.prems [of "Suc (k + d)"] show ?thesis by auto
  qed (use P in simp)
qed (use assms(4) in simp)

text \<open>
  The rule for strong fairness: moves keep \<open>P\<close> or reach \<open>Q\<close>, a move of the helpful process \<open>h\<close> reaches \<open>Q\<close>, and
  \<open>P\<close> leads to a state in which \<open>h\<close> is obliged to move.
\<close>

lemma strong_fairness:
  assumes run: "fair_run move obliged sched f" "\<forall>k. G (f k)"
    and keep: "\<And>s t p. G s \<Longrightarrow> G t \<Longrightarrow> P s \<Longrightarrow> move p s t \<Longrightarrow> P t \<or> Q t"
    and helps: "\<And>s t. G s \<Longrightarrow> G t \<Longrightarrow> P s \<Longrightarrow> move h s t \<Longrightarrow> Q t"
    and able: "leads_to f P (\<lambda>s. Q s \<or> obliged h s)"
  shows "leads_to f P Q"
proof (rule leads_toI, rule ccontr)
  fix k assume P: "P (f k)" and "\<not> (\<exists>j\<ge>k. Q (f j))"
  then have no: "\<not> Q (f j)" if "k \<le> j" for j using that by blast
  have P: "P (f j)" if "k \<le> j" for j
    using run_keeps [where P = P and Q = Q and k = k and d = "j - k", OF run keep P] no that by simp
  have "\<exists>j\<ge>m. obliged h (f j)" for m
  proof -
    from leads_toD [OF able P, of "max k m"] no
    obtain j where "max k m \<le> j" "obliged h (f j)" by fastforce
    then show ?thesis by (metis max.bounded_iff)
  qed
  then obtain j where j: "k \<le> j" "sched j = Some h" using fair_run_again [OF run(1)] by blast
  then have "move h (f j) (f (Suc j))" using fair_run_move [OF run(1)] by simp
  from helps [OF _ _ P this] run(2) no [of "Suc j"] j(1) show False by simp
qed

text \<open>The rule for weak fairness: \<open>h\<close> is obliged to move as long as \<open>P\<close> holds.\<close>

lemma weak_fairness:
  assumes run: "fair_run move obliged sched f" "\<forall>k. G (f k)"
    and keep: "\<And>s t p. G s \<Longrightarrow> G t \<Longrightarrow> P s \<Longrightarrow> move p s t \<Longrightarrow> P t \<or> Q t"
    and helps: "\<And>s t. G s \<Longrightarrow> G t \<Longrightarrow> P s \<Longrightarrow> move h s t \<Longrightarrow> Q t"
    and able: "\<And>s. G s \<Longrightarrow> P s \<Longrightarrow> obliged h s"
  shows "leads_to f P Q"
  by (rule strong_fairness [OF run keep helps]) (use able run(2) in \<open>auto simp: leads_to_def\<close>)

text \<open>A run whose helpful process depends on a rank.\<close>

lemma ranked_fairness:
  fixes r :: "'s \<Rightarrow> nat"
  assumes run: "fair_run move obliged sched f" "\<forall>k. G (f k)"
    and keep: "\<And>s t p. G s \<Longrightarrow> G t \<Longrightarrow> P s \<Longrightarrow> move p s t \<Longrightarrow> P t \<and> r t \<le> r s \<or> Q t"
    and helps: "\<And>s t. G s \<Longrightarrow> G t \<Longrightarrow> P s \<Longrightarrow> move (h (r s)) s t \<Longrightarrow> P t \<and> r t < r s \<or> Q t"
    and able: "\<And>s. G s \<Longrightarrow> P s \<Longrightarrow> obliged (h (r s)) s"
  shows "leads_to f P Q"
proof (rule leads_to_rank [where r = r])
  fix m
  show "leads_to f (\<lambda>s. P s \<and> r s = m) (\<lambda>s. Q s \<or> P s \<and> r s < m)"
  proof (rule weak_fairness [OF run, where h = "h m"])
    fix s t p assume "G s" "G t" "P s \<and> r s = m" "move p s t"
    then show "(P t \<and> r t = m) \<or> Q t \<or> P t \<and> r t < m" using keep [of s t p] by auto
  qed (use helps able in auto)
qed

text \<open>
  A rank, and a helpful process that others may keep from moving for a while: it is enough that it is able to move
  again and again.
\<close>

lemma ranked_strong_fairness:
  fixes r :: "'s \<Rightarrow> nat"
  assumes run: "fair_run move obliged sched f" "\<forall>k. G (f k)"
    and keep: "\<And>s t p. G s \<Longrightarrow> G t \<Longrightarrow> P s \<Longrightarrow> move p s t \<Longrightarrow> P t \<and> r t \<le> r s \<or> Q t"
    and helps: "\<And>s t. G s \<Longrightarrow> G t \<Longrightarrow> P s \<Longrightarrow> move h s t \<Longrightarrow> P t \<and> r t < r s \<or> Q t"
    and able: "\<And>m. leads_to f (\<lambda>s. P s \<and> r s = m) (\<lambda>s. (Q s \<or> P s \<and> r s < m) \<or> obliged h s)"
  shows "leads_to f P Q"
proof (rule leads_to_rank [where r = r])
  fix m
  show "leads_to f (\<lambda>s. P s \<and> r s = m) (\<lambda>s. Q s \<or> P s \<and> r s < m)"
  proof (rule strong_fairness [OF run _ _ able])
    fix s t p assume "G s" "G t" "P s \<and> r s = m" "move p s t"
    then show "(P t \<and> r t = m) \<or> Q t \<or> P t \<and> r t < m" using keep [of s t p] by auto
  qed (use helps in auto)
qed

section \<open>Processes\<close>

text \<open>What a system of processes promises: an obligation can be met, and every move keeps the invariant.\<close>

locale fair_processes =
  fixes move :: "'p \<Rightarrow> 's \<Rightarrow> 's \<Rightarrow> bool" and obliged :: "'p \<Rightarrow> 's \<Rightarrow> bool" and good :: "'s \<Rightarrow> bool"
  assumes obliged_moves: "good s \<Longrightarrow> obliged p s \<Longrightarrow> \<exists>t. move p s t"
    and move_inv: "good s \<Longrightarrow> move p s t \<Longrightarrow> good t"
begin

lemma run_inv:
  assumes "fair_run move obliged sched f" "good (f 0)"
  shows "\<forall>k. good (f k)"
proof
  show "good (f k)" for k
  proof (induction k)
    case (Suc k)
    then show ?case using fair_run_turn [OF assms(1), of k] move_inv by auto
  qed (use assms in simp)
qed

text \<open>Fair runs exist: every path, within \<open>G\<close>, to a state in which no process is obliged to move is the start
  of one.\<close>

lemma stuck_quiet: "good s \<Longrightarrow> \<forall>p t. \<not> move p s t \<Longrightarrow> \<not> obliged p s"
  using obliged_moves by blast

lemma quiet_run: "\<forall>p. \<not> obliged p s \<Longrightarrow> fair_run move obliged (\<lambda>_. None) (\<lambda>_. s)"
  by (auto simp: fair_run_def)

lemma fair_run_Cons:
  assumes "move p s (f 0)" "fair_run move obliged sched f"
  shows "fair_run move obliged (case_nat (Some p) sched) (case_nat s f)"
  unfolding fair_run_def
proof (intro conjI allI impI)
  fix k assume "case_nat (Some p) sched k = None"
  with assms(2) show "case_nat s f (Suc k) = case_nat s f k" by (cases k) (simp_all add: fair_run_def)
next
  fix k q assume "case_nat (Some p) sched k = Some q"
  with assms show "move q (case_nat s f k) (case_nat s f (Suc k))" by (cases k) (simp_all add: fair_run_def)
next
  fix q k assume q: "\<forall>k. \<exists>j\<ge>k. obliged q (case_nat s f j)"
  have "\<exists>j\<ge>m. obliged q (f j)" for m
  proof -
    from q obtain j where "Suc m \<le> j" "obliged q (case_nat s f j)" by blast
    then show ?thesis by (cases j) auto
  qed
  then obtain j where "k \<le> j" "sched j = Some q" using fair_run_again [OF assms(2)] by blast
  then show "\<exists>j\<ge>k. case_nat (Some p) sched j = Some q" by (intro exI [of _ "Suc j"]) simp
qed

lemma fair_run_path:
  assumes "(\<lambda>s t. (\<exists>p. move p s t) \<and> G t)\<^sup>*\<^sup>* s t" "G s" "\<forall>p. \<not> obliged p t"
  shows "\<exists>sched f. fair_run move obliged sched f \<and> f 0 = s \<and> (\<forall>k. G (f k))"
  using assms(1,2)
proof (induction rule: converse_rtranclp_induct)
  case base
  then show ?case using quiet_run [OF assms(3)] by blast
next
  case (step s u)
  then obtain p sched f where f: "move p s (f 0)" "fair_run move obliged sched f" "\<forall>k. G (f k)" by auto
  have "\<forall>k. G (case_nat s f k)" using f(3) step.prems by (simp split: nat.split)
  with fair_run_Cons [OF f(1,2)] show ?case by (metis nat.case(1))
qed

end

section \<open>Parts of a system\<close>

text \<open>
  A part of a larger system: \<open>part_of_turn m\<close> is the process of the part whose turn a turn of \<open>m\<close> is, if it always is one;
  \<open>lift\<close> is a process of the system that is obliged to move when a process of the part is, and moves for it. A fair run of the system is then
  a fair run of the part.
\<close>

locale fair_part =
  fixes move :: "'p \<Rightarrow> 's \<Rightarrow> 's \<Rightarrow> bool" and obliged :: "'p \<Rightarrow> 's \<Rightarrow> bool" and good :: "'s \<Rightarrow> bool"
    and move' :: "'q \<Rightarrow> 't \<Rightarrow> 't \<Rightarrow> bool" and obliged' :: "'q \<Rightarrow> 't \<Rightarrow> bool"
    and part :: "'s \<Rightarrow> 't" and part_of_turn :: "'p \<Rightarrow> 'q option" and lift :: "'q \<Rightarrow> 'p"
  assumes part_move: "good s \<Longrightarrow> move p s t \<Longrightarrow> part_of_turn p = Some q \<Longrightarrow> move' q (part s) (part t)"
    and part_rest: "good s \<Longrightarrow> move p s t \<Longrightarrow> part t = part s \<or> (\<exists>q. move' q (part s) (part t))"
    and lift_turn: "obliged' q u \<Longrightarrow> part_of_turn (lift q) = Some q"
    and lift_obliged: "good s \<Longrightarrow> obliged' q (part s) \<Longrightarrow> obliged (lift q) s"
begin

lemma part_turn:
  assumes "fair_run move obliged sched f" "good (f k)"
  shows "\<exists>r. (case r of None \<Rightarrow> part (f (Suc k)) = part (f k) | Some q \<Rightarrow> move' q (part (f k)) (part (f (Suc k)))) \<and>
    (\<forall>p q. sched k = Some p \<longrightarrow> part_of_turn p = Some q \<longrightarrow> r = Some q)"
proof (cases "\<exists>p q. sched k = Some p \<and> part_of_turn p = Some q")
  case True
  then obtain p q where q: "sched k = Some p" "part_of_turn p = Some q" by blast
  then have "move' q (part (f k)) (part (f (Suc k)))"
    using part_move [OF assms(2) fair_run_move [OF assms(1)]] by simp
  with q show ?thesis by (intro exI [of _ "Some q"]) simp
next
  case False
  from fair_run_turn [OF assms(1), of k] consider "part (f (Suc k)) = part (f k)"
    | q where "move' q (part (f k)) (part (f (Suc k)))"
    using part_rest [OF assms(2)] by metis
  then show ?thesis
  proof cases
    case 1
    with False show ?thesis by (intro exI [of _ None]) simp
  next
    case (2 q)
    with False show ?thesis by (intro exI [of _ "Some q"]) simp
  qed
qed

lemma fair_run_part:
  assumes "fair_run move obliged sched f" "\<forall>k. good (f k)"
  shows "\<exists>sched'. fair_run move' obliged' sched' (\<lambda>k. part (f k))"
proof -
  have "\<forall>k. \<exists>r. (case r of None \<Rightarrow> part (f (Suc k)) = part (f k) | Some q \<Rightarrow> move' q (part (f k)) (part (f (Suc k)))) \<and>
    (\<forall>p q. sched k = Some p \<longrightarrow> part_of_turn p = Some q \<longrightarrow> r = Some q)"
    using part_turn [OF assms(1)] assms(2) by blast
  then obtain sched' where s: "\<And>k. (case sched' k of None \<Rightarrow> part (f (Suc k)) = part (f k)
        | Some q \<Rightarrow> move' q (part (f k)) (part (f (Suc k))))"
      "\<And>k p q. sched k = Some p \<Longrightarrow> part_of_turn p = Some q \<Longrightarrow> sched' k = Some q"
    by metis
  have "fair_run move' obliged' sched' (\<lambda>k. part (f k))"
    unfolding fair_run_def
  proof (intro conjI allI impI)
    show "part (f (Suc k)) = part (f k)" if "sched' k = None" for k using s(1) [of k] that by simp
    show "move' q (part (f k)) (part (f (Suc k)))" if "sched' k = Some q" for k q using s(1) [of k] that by simp
    fix q k assume o: "\<forall>k. \<exists>j\<ge>k. obliged' q (part (f j))"
    then have "part_of_turn (lift q) = Some q" using lift_turn by blast
    moreover from o have "\<forall>k. \<exists>j\<ge>k. obliged (lift q) (f j)" using lift_obliged assms(2) by blast
    note fair_run_again [OF assms(1) this, of k]
    ultimately show "\<exists>j\<ge>k. sched' j = Some q" using s(2) by blast
  qed
  then show ?thesis by (rule exI [of _ sched'])
qed

end

end
