(* ===== verification/Handoff_Live.thy ===== *)
theory Handoff_Live
  imports Handoff Fair_Run
begin

text \<open>
  The hand-off of \<^theory_text>\<open>Handoff\<close> under a fair scheduler: a receiver that the destination server has accepted is in
  the end served by a worker, with its own descriptor and time stamp, if only some worker becomes free, or the
  doubling of the server's delay overflows.
\<close>

section \<open>Processes and what they are obliged to do\<close>

datatype process = Srv | Wrk nat

fun move :: "process \<Rightarrow> handoff \<Rightarrow> handoff \<Rightarrow> bool" where
  "move Srv s t \<longleftrightarrow> server_step s t"
| "move (Wrk i) s t \<longleftrightarrow> i < num_workers (pool s) \<and> worker_step i s t"

text \<open>
  Accepting the next receiver and the end of a connection are up to the clients, and a wake-up without a signal
  is not due.
\<close>

fun obliged :: "process \<Rightarrow> handoff \<Rightarrow> bool" where
  "obliged Srv s \<longleftrightarrow> stage_of s \<noteq> Accepting \<and> (\<exists>t. server_step s t)"
| "obliged (Wrk i) s \<longleftrightarrow> i < num_workers (pool s) \<and> pcs s i \<noteq> Serving \<and>
     (pcs s i = Waiting \<longrightarrow> signalled s i) \<and> (\<exists>t. worker_step i s t)"

lemma handoff_step_move: "handoff_step s t \<longleftrightarrow> (\<exists>p. move p s t)"
proof
  assume "handoff_step s t"
  then show "\<exists>p. move p s t" by cases (metis move.simps)+
next
  assume "\<exists>p. move p s t"
  then obtain p where "move p s t" ..
  then show "handoff_step s t" by (cases p) (auto intro: handoff_step.intros)
qed

text \<open>
  What the server has written for the receiver it deals with.
\<close>

abbreviation worker_at :: "handoff \<Rightarrow> nat \<Rightarrow> worker" where
  "worker_at s i \<equiv> workers (pool s) ! i"

definition args_written :: "handoff \<Rightarrow> bool" where
  "args_written s \<longleftrightarrow>
     (stage_of s \<in> {Init_Bit, Init_Ts, Creating, Wake_Bit, Wake_Ts, Signalling, Unlocking} \<longrightarrow>
        client_fd (worker_at s (idx s)) = Some (new_fd s)) \<and>
     (stage_of s \<in> {Creating, Signalling, Unlocking} \<longrightarrow> client_ts (worker_at s (idx s)) = new_ts s)"

lemma set_busy_bit_workers: "set_busy_bit p i b = Inr p' \<Longrightarrow> workers p' = workers p"
  by (auto simp: set_busy_bit_def fault_simps)

lemma args_written_step:
  assumes "handoff_step s t" "handoff_inv s" "args_written s"
  shows "args_written t"
  using assms(1)
proof cases
  case by_server
  have "stage_of s \<notin> {Accepting, Searching, Delay_Overflow} \<Longrightarrow> idx s < length (workers (pool s))"
    using assms(2) by (auto simp: handoff_inv_def)
  with by_server assms(3) show ?thesis
    by cases (auto simp: args_written_def set_busy_bit_workers)
next
  case (by_worker i)
  have w: "stage_of t = stage_of s" "idx t = idx s" "new_fd t = new_fd s" "new_ts t = new_ts s"
    using by_worker(2) by (cases; simp)+
  have "client_fd (worker_at t j) = client_fd (worker_at s j) \<and> client_ts (worker_at t j) = client_ts (worker_at s j)"
    if "j < length (workers (pool s))" for j
    using by_worker(2) that by cases (auto simp: set_busy_bit_workers)
  moreover have "stage_of s \<notin> {Accepting, Searching, Delay_Overflow} \<Longrightarrow> idx s < length (workers (pool s))"
    using assms(2) by (auto simp: handoff_inv_def)
  ultimately show ?thesis using assms(3) w by (auto simp: args_written_def)
qed

text \<open>The delay is a power of two; it overflows from \<open>2 ^ 30\<close>, after 30 doublings.\<close>

definition delay_ok :: "handoff \<Rightarrow> bool" where
  "delay_ok s \<longleftrightarrow> (\<exists>r\<le>30. backoff s = 2 ^ r) \<and> (stage_of s = Delay_Overflow \<longrightarrow> backoff s = 2 ^ 30)"

lemma double_delay_power:
  "r \<le> 30 \<Longrightarrow> double_delay (2 ^ r) = (if r = 30 then Inl Int_Overflow else Inr (2 ^ Suc r))"
proof -
  assume "r \<le> 30"
  moreover have "(2::int) ^ Suc r < 2 ^ 31 \<longleftrightarrow> Suc r < 31" by (rule power_strict_increasing_iff) simp
  ultimately show ?thesis by (auto simp: double_delay_def)
qed

lemma delay_ok_step:
  assumes "handoff_step s t" "delay_ok s"
  shows "delay_ok t"
proof -
  obtain r where r: "r \<le> 30" "backoff s = 2 ^ r" using assms(2) by (auto simp: delay_ok_def)
  have "\<exists>r\<le>30. INITIAL_DELAY = 2 ^ r" by (intro exI [of _ 0]) (simp add: INITIAL_DELAY_def)
  moreover from r have "double_delay (backoff s) = Inr d \<Longrightarrow> \<exists>r\<le>30. d = 2 ^ r" for d
    by (auto simp: double_delay_power split: if_splits intro!: exI [of _ "Suc r"])
  moreover from r have "double_delay (backoff s) = Inl Int_Overflow \<Longrightarrow> backoff s = 2 ^ 30"
    by (auto simp: double_delay_power split: if_splits)
  ultimately show ?thesis using assms
    by (auto elim!: handoff_step.cases server_step.cases worker_step.cases simp: delay_ok_def)
qed

definition live_inv :: "handoff \<Rightarrow> bool" where
  "live_inv s \<longleftrightarrow> handoff_inv s \<and> args_written s \<and> delay_ok s"

lemma reachable_live_inv: "reachable n clock s \<Longrightarrow> n \<le> 32 \<Longrightarrow> live_inv s"
  unfolding reachable_def
proof (induction rule: rtranclp_induct)
  case base
  have "delay_ok (init_handoff n clock)"
    by (simp add: delay_ok_def init_handoff_def INITIAL_DELAY_def) (intro exI [of _ 0], simp)
  with base show ?case using handoff_inv_init by (simp add: live_inv_def args_written_def init_handoff_def)
next
  case (step s t)
  then show ?case using handoff_step_inv args_written_step delay_ok_step by (auto simp: live_inv_def)
qed

interpretation hl: fair_processes move obliged live_inv
proof
  fix p s t
  show "live_inv s \<Longrightarrow> obliged p s \<Longrightarrow> \<exists>t. move p s t" by (cases p) auto
  show "live_inv s \<Longrightarrow> move p s t \<Longrightarrow> live_inv t"
    using handoff_step_inv args_written_step delay_ok_step handoff_step_move by (metis live_inv_def)
qed


section \<open>What a move keeps\<close>

lemma worker_keeps:
  "worker_step i s t \<Longrightarrow> stage_of t = stage_of s \<and> idx t = idx s \<and> new_fd t = new_fd s \<and> new_ts t = new_ts s \<and>
   (\<forall>j. j \<noteq> i \<longrightarrow> pcs t j = pcs s j)"
  by (erule worker_step.cases) simp_all

lemma server_keeps:
  "server_step s t \<Longrightarrow> stage_of s \<noteq> Accepting \<Longrightarrow> new_fd t = new_fd s \<and> new_ts t = new_ts s"
  by (erule server_step.cases) simp_all

lemma live_bounds:
  "live_inv s \<Longrightarrow> stage_of s \<notin> {Accepting, Searching, Delay_Overflow} \<Longrightarrow>
   idx s < num_workers (pool s) \<and> idx s < length (workers (pool s)) \<and> idx s < 32"
  by (auto simp: live_inv_def handoff_inv_def)

text \<open>A worker whose turn it is not and that the server does not deal with is left alone.\<close>

lemma others_keep:
  assumes "move p s t" "live_inv s" "i < num_workers (pool s)" "p \<noteq> Wrk i" "stage_at s i = Accepting"
  shows "pcs t i = pcs s i \<and> worker_at t i = worker_at s i \<and> bit_of t i = bit_of s i \<and> arg_lock t i = arg_lock s i"
proof -
  have l: "length (workers (pool s)) = num_workers (pool s)" "num_workers (pool s) \<le> 32"
    using assms(2) by (auto simp: live_inv_def handoff_inv_def)
  show ?thesis
  proof (cases p)
    case Srv
    show ?thesis
    proof (cases "stage_of s \<in> {Accepting, Searching, Delay_Overflow}")
      case True
      with assms(1) Srv show ?thesis using searching_step [of s t] by (simp add: bit_of_def)
    next
      case False
      then have "i \<noteq> idx s" "idx s < 32" using assms(5) live_bounds [OF assms(2)] by (auto simp: stage_at_def)
      with assms(1,3) Srv False l(1) show ?thesis
        using server_step_frame(4,6,7) [of s t i]
        by (auto elim!: server_step.cases simp: set_busy_bit_workers)
    qed
  next
    case (Wrk j)
    then have j: "worker_step j s t" "j < 32" "j \<noteq> i" using assms(1,4) l by auto
    then show ?thesis using l(1) assms(3)
      by cases (auto simp: set_busy_bit_Inr bit_of_def)
  qed
qed

lemma move_workers: "move p s t \<Longrightarrow> live_inv s \<Longrightarrow> num_workers (pool t) = num_workers (pool s)"
  using handoff_step_workers handoff_step_move by (metis live_inv_def)

text \<open>What the invariant says of a worker, by its program counter.\<close>

lemma live_ok:
  "live_inv s \<Longrightarrow> i < num_workers (pool s) \<Longrightarrow>
   worker_ok (pcs s i) (stage_at s i) (status_of s i) (bit_of s i) (arg_lock s i) (signalled s i)"
  by (simp add: live_inv_def handoff_inv_def)

section \<open>A search ends\<close>

definition carries :: "int \<Rightarrow> timespec \<Rightarrow> handoff \<Rightarrow> bool" where
  "carries fd ts s \<longleftrightarrow> stage_of s \<noteq> Accepting \<and> new_fd s = fd \<and> new_ts s = ts"

definition searches :: "int \<Rightarrow> timespec \<Rightarrow> handoff \<Rightarrow> bool" where
  "searches fd ts s \<longleftrightarrow> stage_of s = Searching \<and> carries fd ts s"

definition found :: "int \<Rightarrow> timespec \<Rightarrow> handoff \<Rightarrow> bool" where
  "found fd ts s \<longleftrightarrow> stage_of s = Found \<and> carries fd ts s"

text \<open>How a search ends.\<close>

definition ends :: "int \<Rightarrow> timespec \<Rightarrow> handoff \<Rightarrow> bool" where
  "ends fd ts s \<longleftrightarrow> found fd ts s \<or> stage_of s = Delay_Overflow"

text \<open>A worker that is free or has lost its client.\<close>

definition releasing :: "nat \<Rightarrow> handoff \<Rightarrow> bool" where
  "releasing i s \<longleftrightarrow> i < num_workers (pool s) \<and> pcs s i \<in> {Closed, Holding_Lock, Ready_Set}"

definition idle :: "nat \<Rightarrow> handoff \<Rightarrow> bool" where
  "idle i s \<longleftrightarrow> i < num_workers (pool s) \<and> \<not> bit_of s i"

lemma search_move:
  assumes "move p s t" "searches fd ts s"
  shows "searches fd ts t \<and> (p = Srv \<or> idx t = idx s) \<or>
    ends fd ts t \<and> p = Srv"
proof (cases p)
  case Srv
  then have "server_step s t" using assms(1) by simp
  note st = searching_step(5) [OF this] and keeps = server_keeps [OF this]
  have "stage_of s = Searching" using assms(2) by (simp add: searches_def)
  with st have "stage_of t = Searching \<or> stage_of t = Delay_Overflow \<or> stage_of t = Found" by auto
  with keeps Srv assms(2) show ?thesis by (auto simp: searches_def carries_def found_def ends_def)
next
  case (Wrk j)
  then have "worker_step j s t" using assms(1) by simp
  from worker_keeps [OF this] Wrk assms(2) show ?thesis by (simp add: searches_def carries_def)
qed

lemma releasing_obliged: "live_inv s \<Longrightarrow> releasing i s \<Longrightarrow> obliged (Wrk i) s"
proof -
  assume s: "live_inv s" "releasing i s"
  then have i: "i < num_workers (pool s)" "i < 32" "pcs s i \<in> {Closed, Holding_Lock, Ready_Set}"
    by (auto simp: releasing_def live_inv_def handoff_inv_def)
  obtain p where p: "set_busy_bit (pool s) i False = Inr p" using set_busy_bit_ok [OF i(2)] by blast
  have "pcs s i = Closed \<Longrightarrow> arg_lock s i = None"
    using live_ok [OF s(1) i(1)] by (simp add: worker_ok.simps)
  with i(3) p have "\<exists>t. worker_step i s t" by (elim insertE emptyE) (blast intro: worker_step.intros)+
  with i show ?thesis by auto
qed

definition release_rank :: "wpc \<Rightarrow> nat" where
  "release_rank w = (case w of Closed \<Rightarrow> 3 | Holding_Lock \<Rightarrow> 2 | Ready_Set \<Rightarrow> 1 | _ \<Rightarrow> 0)"

lemma release_move:
  assumes "worker_step i s t" "releasing i s" "live_inv s"
  shows "releasing i t \<and> release_rank (pcs t i) < release_rank (pcs s i) \<or> idle i t"
proof -
  have "i < 32" "num_workers (pool t) = num_workers (pool s)"
    using assms move_workers [of "Wrk i" s t] by (auto simp: releasing_def live_inv_def handoff_inv_def)
  with assms(1,2) show ?thesis
    by cases (auto simp: releasing_def idle_def release_rank_def set_busy_bit_Inr bit_of_def)
qed

lemma releases_to_idle:
  assumes "fair_run move obliged sched f" "\<forall>k. live_inv (f k)"
  shows "leads_to f (\<lambda>s. searches fd ts s \<and> releasing i s) (\<lambda>s. ends fd ts s \<or> searches fd ts s \<and> idle i s)"
proof (rule ranked_fairness [OF assms, where r = "\<lambda>s. release_rank (pcs s i)" and h = "\<lambda>_. Wrk i"])
  fix s t p assume s: "live_inv s" "searches fd ts s \<and> releasing i s" "move p s t"
  show "(searches fd ts t \<and> releasing i t) \<and> release_rank (pcs t i) \<le> release_rank (pcs s i) \<or>
      ends fd ts t \<or> searches fd ts t \<and> idle i t"
  proof (cases "p = Wrk i")
    case True
    with s show ?thesis using search_move [OF s(3)] release_move [of i s t] by (auto intro: less_imp_le)
  next
    case False
    have "pcs t i = pcs s i" using others_keep [OF s(3,1) _ False] s(2)
      by (simp add: releasing_def searches_def stage_at_def)
    with s show ?thesis using search_move [OF s(3)] move_workers [OF s(3,1)] by (auto simp: releasing_def)
  qed
next
  fix s t assume s: "live_inv s" "searches fd ts s \<and> releasing i s" "move (Wrk i) s t"
  then show "(searches fd ts t \<and> releasing i t) \<and> release_rank (pcs t i) < release_rank (pcs s i) \<or>
      ends fd ts t \<or> searches fd ts t \<and> idle i t"
    using search_move [OF s(3)] release_move [of i s t] by auto
qed (use releasing_obliged in blast)

definition search_rank :: "nat \<Rightarrow> handoff \<Rightarrow> nat" where
  "search_rank i s = (if idx s \<le> i then i - idx s else Suc i + (num_workers (pool s) - idx s))"

lemma worker_bits:
  "worker_step j s t \<Longrightarrow> j < 32 \<Longrightarrow> bit_of t i \<Longrightarrow> bit_of s i"
  by (erule worker_step.cases) (auto simp: bit_of_def set_busy_bit_Inr split: if_splits)

lemma search_rank_step:
  assumes "server_step s t" "live_inv s" "searches fd ts s" "idle i s"
  shows "searches fd ts t \<and> idle i t \<and> search_rank i t < search_rank i s \<or> ends fd ts t"
proof -
  have n: "num_workers (pool s) \<le> 32" "i < num_workers (pool s)" "i < 32" "\<not> bit_of s i"
    using assms(2,4) by (auto simp: live_inv_def handoff_inv_def idle_def)
  from assms(1,3) show ?thesis
  proof cases
    case probe_busy
    with n have "bit_of s (idx s)" using is_set_bit_of [OF probe_busy(4)] by simp
    with n(4) have "idx s \<noteq> i" by auto
    with probe_busy assms(3,4) show ?thesis
      by (auto simp: searches_def carries_def idle_def bit_of_def search_rank_def)
  qed (use assms(3,4) in \<open>simp_all add: searches_def ends_def found_def carries_def idle_def bit_of_def search_rank_def\<close>)
qed

lemma idle_to_ends:
  assumes "fair_run move obliged sched f" "\<forall>k. live_inv (f k)"
  shows "leads_to f (\<lambda>s. searches fd ts s \<and> idle i s) (ends fd ts)"
proof (rule ranked_fairness [OF assms, where r = "search_rank i" and h = "\<lambda>_. Srv"])
  fix s t p assume s: "live_inv s" "searches fd ts s \<and> idle i s" "move p s t"
  show "(searches fd ts t \<and> idle i t) \<and> search_rank i t \<le> search_rank i s \<or> ends fd ts t"
  proof (cases p)
    case Srv
    with s search_rank_step [of s t fd ts i] show ?thesis by auto
  next
    case (Wrk j)
    then have j: "worker_step j s t" "j < num_workers (pool s)" using s(3) by simp_all
    then have "j < 32" using s(1) by (auto simp: live_inv_def handoff_inv_def)
    with worker_bits [OF j(1)] worker_keeps [OF j(1)] move_workers [OF s(3,1)] s(2)
    show ?thesis by (auto simp: searches_def carries_def idle_def search_rank_def)
  qed
next
  fix s t assume "live_inv s" "searches fd ts s \<and> idle i s" "move Srv s t"
  then show "(searches fd ts t \<and> idle i t) \<and> search_rank i t < search_rank i s \<or> ends fd ts t"
    using search_rank_step [of s t fd ts i] by simp
next
  fix s assume "live_inv s" "searches fd ts s \<and> idle i s"
  then show "obliged Srv s" using server_can_search [of s] by (simp add: live_inv_def searches_def)
qed

section \<open>A receiver that has been found a worker is handed over\<close>

text \<open>The worker has been told of the receiver and has not looked at it yet.\<close>

definition given :: "nat \<Rightarrow> int \<Rightarrow> timespec \<Rightarrow> handoff \<Rightarrow> bool" where
  "given i fd ts s \<longleftrightarrow> i < num_workers (pool s) \<and> stage_at s i = Accepting \<and>
     pcs s i \<in> {Serving, Checking, Waiting} \<and> status_of s i = THREAD_BUSY \<and>
     client_fd (worker_at s i) = Some fd \<and> client_ts (worker_at s i) = ts"

definition is_given :: "int \<Rightarrow> timespec \<Rightarrow> handoff \<Rightarrow> bool" where
  "is_given fd ts s \<longleftrightarrow> (\<exists>i. given i fd ts s)"

text \<open>The stages between finding the worker and waiting for its lock, and those after that.\<close>

fun stage_rank :: "stage \<Rightarrow> nat" where
  "stage_rank Found = 9"
| "stage_rank Asserting = 8"
| "stage_rank Wake_Args = 6"
| "stage_rank Wake_Bit = 5"
| "stage_rank Init_Args = 4"
| "stage_rank Wake_Ts = 4"
| "stage_rank Init_Bit = 3"
| "stage_rank Signalling = 3"
| "stage_rank Init_Ts = 2"
| "stage_rank Unlocking = 2"
| "stage_rank Creating = 1"
| "stage_rank _ = 0"

definition locks :: "int \<Rightarrow> timespec \<Rightarrow> handoff \<Rightarrow> bool" where
  "locks fd ts s \<longleftrightarrow> stage_of s = Locking \<and> carries fd ts s"

definition writes :: "int \<Rightarrow> timespec \<Rightarrow> handoff \<Rightarrow> bool" where
  "writes fd ts s \<longleftrightarrow> stage_of s \<in> {Found, Asserting, Wake_Args, Wake_Bit, Init_Args, Wake_Ts, Init_Bit, Signalling,
     Init_Ts, Unlocking, Creating} \<and> carries fd ts s"

lemma writes_ok: "live_inv s \<Longrightarrow> stage_of s \<notin> {Accepting, Searching, Delay_Overflow} \<Longrightarrow>
   worker_ok (pcs s (idx s)) (stage_of s) (status_of s (idx s)) (bit_of s (idx s)) (arg_lock s (idx s))
     (signalled s (idx s))"
  using live_ok [of s "idx s"] live_bounds [of s] by (simp add: stage_at_def)

lemma writes_step:
  assumes "server_step s t" "live_inv s" "writes fd ts s"
  shows "writes fd ts t \<and> stage_rank (stage_of t) < stage_rank (stage_of s) \<or>
    locks fd ts t \<and> stage_of s = Asserting \<or> is_given fd ts t"
proof -
  have st: "stage_of s \<notin> {Accepting, Searching, Delay_Overflow, Locking, Assert_Abort, Drop_Client}"
    and c: "new_fd s = fd" "new_ts s = ts" using assms(3) by (auto simp: writes_def carries_def)
  note ok = writes_ok [OF assms(2)] and b = live_bounds [OF assms(2)]
  have aw: "args_written s" using assms(2) by (simp add: live_inv_def)
  from assms(1) st show ?thesis
  proof cases
    case switch_default
    with ok worker_ok_server(3) st show ?thesis by fastforce
  next
    case assert_fails
    with ok worker_ok_server(8) st show ?thesis by fastforce
  next
    case create
    with ok st have "status_of s (idx s) = THREAD_BUSY"
      by (cases "pcs s (idx s)") (auto simp: worker_ok.simps)
    with create aw b c have "given (idx s) fd ts t" by (simp add: given_def args_written_def stage_at_def)
    then show ?thesis by (auto simp: is_given_def)
  next
    case unlock_args
    with ok st have "status_of s (idx s) = THREAD_BUSY \<and> pcs s (idx s) = Waiting"
      by (cases "pcs s (idx s)") (auto simp: worker_ok.simps)
    with unlock_args aw b c have "given (idx s) fd ts t" by (simp add: given_def args_written_def stage_at_def)
    then show ?thesis by (auto simp: is_given_def)
  qed (use c in \<open>simp_all add: writes_def locks_def carries_def\<close>)
qed


lemma writes_move:
  assumes "move p s t" "live_inv s" "writes fd ts s"
  shows "writes fd ts t \<and> (p = Srv \<and> stage_rank (stage_of t) < stage_rank (stage_of s) \<or>
      p \<noteq> Srv \<and> stage_of t = stage_of s) \<or> locks fd ts t \<and> stage_of s = Asserting \<or> is_given fd ts t"
proof (cases p)
  case Srv
  with assms writes_step show ?thesis by simp
next
  case (Wrk j)
  with assms(1) have "worker_step j s t" by simp
  from worker_keeps [OF this] assms(3) Wrk show ?thesis by (simp add: writes_def carries_def)
qed

lemma writes_obliged: "live_inv s \<Longrightarrow> writes fd ts s \<Longrightarrow> obliged Srv s"
  using server_can_step [of s] by (auto simp: writes_def carries_def live_inv_def)

definition late :: "int \<Rightarrow> timespec \<Rightarrow> handoff \<Rightarrow> bool" where
  "late fd ts s \<longleftrightarrow> writes fd ts s \<and> stage_rank (stage_of s) \<le> 6"

lemma writes_to_lock:
  assumes "fair_run move obliged sched f" "\<forall>k. live_inv (f k)"
  shows "leads_to f (writes fd ts) (\<lambda>s. is_given fd ts s \<or> locks fd ts s)"
proof (rule ranked_fairness [OF assms, where r = "\<lambda>s. stage_rank (stage_of s)" and h = "\<lambda>_. Srv"])
  fix s t p assume "live_inv s" "writes fd ts s" "move p s t"
  then show "writes fd ts t \<and> stage_rank (stage_of t) \<le> stage_rank (stage_of s) \<or> is_given fd ts t \<or> locks fd ts t"
    using writes_move [of p s t fd ts] by auto
next
  fix s t assume "live_inv s" "writes fd ts s" "move Srv s t"
  then show "writes fd ts t \<and> stage_rank (stage_of t) < stage_rank (stage_of s) \<or> is_given fd ts t \<or> locks fd ts t"
    using writes_move [of Srv s t fd ts] by auto
qed (use writes_obliged in blast)

lemma late_to_given:
  assumes "fair_run move obliged sched f" "\<forall>k. live_inv (f k)"
  shows "leads_to f (late fd ts) (is_given fd ts)"
proof (rule ranked_fairness [OF assms, where r = "\<lambda>s. stage_rank (stage_of s)" and h = "\<lambda>_. Srv"])
  fix s t p assume "live_inv s" "late fd ts s" "move p s t"
  then show "late fd ts t \<and> stage_rank (stage_of t) \<le> stage_rank (stage_of s) \<or> is_given fd ts t"
    using writes_move [of p s t fd ts] by (auto simp: late_def)
next
  fix s t assume "live_inv s" "late fd ts s" "move Srv s t"
  then show "late fd ts t \<and> stage_rank (stage_of t) < stage_rank (stage_of s) \<or> is_given fd ts t"
    using writes_move [of Srv s t fd ts] by (auto simp: late_def)
qed (use writes_obliged in \<open>auto simp: late_def\<close>)

text \<open>
  The server gets the lock of the worker: a worker that holds it is about to wait and gives it up, and from then on
  the server can have it again and again, however often the worker wakes up for no reason.
\<close>

lemma locks_move:
  assumes "move p s t" "live_inv s" "locks fd ts s"
  shows "p \<noteq> Srv \<and> locks fd ts t \<and> idx t = idx s \<or> p = Srv \<and> late fd ts t"
proof (cases p)
  case Srv
  with assms(1) have "server_step s t" by simp
  then show ?thesis using assms(3) Srv
    by cases (simp_all add: locks_def late_def writes_def carries_def)
next
  case (Wrk j)
  with assms(1) have "worker_step j s t" by simp
  from worker_keeps [OF this] assms(3) Wrk show ?thesis by (simp add: locks_def carries_def)
qed

lemma locks_obliged: "live_inv s \<Longrightarrow> locks fd ts s \<Longrightarrow> arg_lock s (idx s) = None \<Longrightarrow> obliged Srv s"
  using server_step.lock_args [of s] by (auto simp: locks_def)

lemma lock_holder:
  assumes "live_inv s" "locks fd ts s" "arg_lock s (idx s) \<noteq> None"
  shows "pcs s (idx s) = Checking \<and> status_of s (idx s) \<noteq> THREAD_BUSY"
  using writes_ok [OF assms(1)] assms(2,3)
  by (cases "pcs s (idx s)") (auto simp: locks_def worker_ok.simps const_defs)

lemma lock_is_given_up:
  assumes "fair_run move obliged sched f" "\<forall>k. live_inv (f k)"
  shows "leads_to f (\<lambda>s. locks fd ts s \<and> idx s = i \<and> arg_lock s i \<noteq> None) (\<lambda>s. late fd ts s \<or> obliged Srv s)"
proof (rule weak_fairness [OF assms, where h = "Wrk i"])
  fix s t p assume s: "live_inv s" "locks fd ts s \<and> idx s = i \<and> arg_lock s i \<noteq> None" "move p s t"
  have "live_inv t" by (rule hl.move_inv [OF s(1,3)])
  with locks_move [OF s(3,1)] s(2) locks_obliged [of t fd ts]
  show "(locks fd ts t \<and> idx t = i \<and> arg_lock t i \<noteq> None) \<or> late fd ts t \<or> obliged Srv t" by fastforce
next
  fix s t assume s: "live_inv s" "locks fd ts s \<and> idx s = i \<and> arg_lock s i \<noteq> None" "move (Wrk i) s t"
  have "live_inv t" by (rule hl.move_inv [OF s(1,3)])
  moreover have "worker_step i s t" "pcs s i = Checking" "status_of s i \<noteq> THREAD_BUSY"
    using s lock_holder [OF s(1)] by auto
  then have "arg_lock t i = None" by cases simp_all
  ultimately show "late fd ts t \<or> obliged Srv t"
    using locks_move [OF s(3,1)] s(2) locks_obliged [of t fd ts] by auto
next
  fix s assume s: "live_inv s" "locks fd ts s \<and> idx s = i \<and> arg_lock s i \<noteq> None"
  then have "i < num_workers (pool s)" using live_bounds [OF s(1)] by (auto simp: locks_def)
  with s lock_holder [OF s(1), of fd ts] worker_step.wait [of s i] show "obliged (Wrk i) s" by auto
qed

lemma lock_to_late:
  assumes "fair_run move obliged sched f" "\<forall>k. live_inv (f k)"
  shows "leads_to f (locks fd ts) (late fd ts)"
proof (rule strong_fairness [OF assms, where h = Srv])
  show "leads_to f (locks fd ts) (\<lambda>s. late fd ts s \<or> obliged Srv s)"
  proof (rule leads_toI)
    fix k assume l: "locks fd ts (f k)"
    have "live_inv (f k)" using assms(2) by blast
    show "\<exists>j\<ge>k. late fd ts (f j) \<or> obliged Srv (f j)"
    proof (cases "arg_lock (f k) (idx (f k))")
      case None
      with locks_obliged [OF \<open>live_inv (f k)\<close> l] show ?thesis by blast
    next
      case (Some h)
      with leads_toD [OF lock_is_given_up [OF assms, of fd ts "idx (f k)"], of k] l show ?thesis by simp
    qed
  qed
qed (use locks_move in blast)+

lemma found_to_given:
  assumes "fair_run move obliged sched f" "\<forall>k. live_inv (f k)"
  shows "leads_to f (found fd ts) (is_given fd ts)"
proof -
  have "leads_to f (writes fd ts) (is_given fd ts)"
    using writes_to_lock [OF assms] leads_to_trans [OF lock_to_late [OF assms] late_to_given [OF assms]]
    by (rule leads_to_cases)
  moreover have "leads_to f (found fd ts) (writes fd ts)"
    by (rule leads_to_now) (simp add: found_def writes_def)
  ultimately show ?thesis by (rule leads_to_trans [rotated])
qed


section \<open>A worker that has been given a receiver serves it\<close>

definition serves :: "nat \<Rightarrow> int \<Rightarrow> timespec \<Rightarrow> handoff \<Rightarrow> bool" where
  "serves i fd ts s \<longleftrightarrow> i < num_workers (pool s) \<and> pcs s i = Serving \<and>
     client_fd (worker_at s i) = Some fd \<and> client_ts (worker_at s i) = ts"

definition taken_rank :: "wpc \<Rightarrow> nat" where
  "taken_rank w = (case w of Waiting \<Rightarrow> 2 | Checking \<Rightarrow> 1 | _ \<Rightarrow> 0)"

definition untaken :: "nat \<Rightarrow> int \<Rightarrow> timespec \<Rightarrow> handoff \<Rightarrow> bool" where
  "untaken i fd ts s \<longleftrightarrow> given i fd ts s \<and> pcs s i \<noteq> Serving"

lemma untaken_step:
  assumes "worker_step i s t" "live_inv s" "untaken i fd ts s"
  shows "untaken i fd ts t \<and> taken_rank (pcs t i) < taken_rank (pcs s i) \<or> serves i fd ts t"
proof -
  have "i < 32" using assms(2,3) by (auto simp: live_inv_def handoff_inv_def untaken_def given_def)
  from assms(1,3) show ?thesis
    by cases (auto simp: untaken_def given_def serves_def taken_rank_def stage_at_def)
qed

lemma untaken_other:
  assumes "move p s t" "live_inv s" "untaken i fd ts s" "p \<noteq> Wrk i"
  shows "untaken i fd ts t \<and> taken_rank (pcs t i) = taken_rank (pcs s i)"
proof -
  have g: "i < num_workers (pool s)" "stage_at s i = Accepting" "status_of s i = THREAD_BUSY" "pcs s i \<in> {Checking, Waiting}"
    using assms(3) by (auto simp: untaken_def given_def)
  note same = others_keep [OF assms(1,2) g(1) assms(4) g(2)]
  have "live_inv t" by (rule hl.move_inv [OF assms(2,1)])
  have n: "i < num_workers (pool t)" using move_workers [OF assms(1,2)] g(1) by simp
  have "stage_at s i = Accepting \<and> bit_of s i"
    using live_ok [OF assms(2) g(1)] g by (auto simp: worker_ok.simps const_defs)
  moreover have "pcs s i = Waiting \<Longrightarrow> arg_lock s i = None"
    using live_ok [OF assms(2) g(1)] g by (auto simp: worker_ok.simps const_defs)
  ultimately have "stage_at t i = Accepting"
    using same live_ok [OF \<open>live_inv t\<close> n] g by (auto simp: worker_ok.simps const_defs)
  with same n assms(3) show ?thesis by (auto simp: untaken_def given_def)
qed

lemma untaken_obliged:
  assumes "live_inv s" "untaken i fd ts s"
  shows "obliged (Wrk i) s"
proof -
  have g: "i < num_workers (pool s)" "stage_at s i = Accepting" "status_of s i = THREAD_BUSY" "pcs s i \<in> {Checking, Waiting}"
    using assms(2) by (auto simp: untaken_def given_def)
  have "pcs s i = Waiting \<Longrightarrow> arg_lock s i = None \<and> signalled s i"
    using live_ok [OF assms(1) g(1)] g by (auto simp: worker_ok.simps const_defs)
  with g show ?thesis using worker_step.wake [of s i] worker_step.resume [of s i] by auto
qed

lemma given_to_serves:
  assumes "fair_run move obliged sched f" "\<forall>k. live_inv (f k)"
  shows "leads_to f (given i fd ts) (serves i fd ts)"
proof -
  have "leads_to f (untaken i fd ts) (serves i fd ts)"
  proof (rule ranked_fairness [OF assms, where r = "\<lambda>s. taken_rank (pcs s i)" and h = "\<lambda>_. Wrk i"])
    fix s t p assume s: "live_inv s" "untaken i fd ts s" "move p s t"
    then show "untaken i fd ts t \<and> taken_rank (pcs t i) \<le> taken_rank (pcs s i) \<or> serves i fd ts t"
      using untaken_step [of i s t fd ts] untaken_other [of p s t i fd ts] by (cases "p = Wrk i") auto
  qed (use untaken_step untaken_obliged in auto)
  moreover have "leads_to f (given i fd ts) (\<lambda>s. serves i fd ts s \<or> untaken i fd ts s)"
    by (rule leads_to_now) (auto simp: given_def serves_def untaken_def)
  ultimately show ?thesis by (rule leads_to_cases [rotated])
qed

lemma found_to_serves:
  assumes "fair_run move obliged sched f" "\<forall>k. live_inv (f k)"
  shows "leads_to f (found fd ts) (\<lambda>s. \<exists>i. serves i fd ts s)"
proof (rule leads_to_trans [OF found_to_given [OF assms]], rule leads_toI)
  fix k assume "is_given fd ts (f k)"
  then obtain i where "given i fd ts (f k)" by (auto simp: is_given_def)
  from leads_toD [OF given_to_serves [OF assms] this] show "\<exists>j\<ge>k. \<exists>i. serves i fd ts (f j)" by blast
qed

text \<open>A search that meets, now or later, a worker that is free or has lost its client ends.\<close>

lemma search_ends:
  assumes "fair_run move obliged sched f" "\<forall>k. live_inv (f k)" "searches fd ts (f k)"
    and "k \<le> j" "releasing i (f j) \<or> idle i (f j)"
  shows "\<exists>m\<ge>k. ends fd ts (f m)"
proof (rule ccontr)
  assume no: "\<not> ?thesis"
  have "searches fd ts (f (k + (j - k)))"
  proof (rule run_keeps [OF assms(1,2), where Q = "ends fd ts"])
    fix s t p assume "searches fd ts s" "move p s t"
    then show "searches fd ts t \<or> ends fd ts t" using search_move by blast
  qed (use assms(3) no in auto)
  then have s: "searches fd ts (f j)" using assms(4) by simp
  have "leads_to f (\<lambda>s. searches fd ts s \<and> releasing i s) (ends fd ts)"
    using releases_to_idle [OF assms(1,2)] idle_to_ends [OF assms(1,2)] by (rule leads_to_cases)
  then have "\<exists>m\<ge>j. ends fd ts (f m)"
    using leads_toD [OF idle_to_ends [OF assms(1,2), of fd ts i]] leads_toD s assms(5) by blast
  with no assms(4) show False by (meson le_trans)
qed

section \<open>Every receiver is served\<close>

text \<open>
  Under a fair scheduler, a receiver for which the server looks for a worker is in the end served by a
  worker, with its own descriptor and time stamp, provided that at that time or later some worker is free or
  has lost its client: neither the locks, nor wake-ups without a signal, nor the other threads can keep the
  hand-over from happening. Only an overflow of the server's delay can.
\<close>

lemma receiver_eventually_served:
  assumes "fair_run move obliged sched f" "reachable n clock (f 0)" "n \<le> 32"
    and "stage_of (f k) = Searching"
    and "k \<le> j" "i < n" "pcs (f j) i \<in> {Closed, Holding_Lock, Ready_Set} \<or> \<not> bit_of (f j) i"
  shows "(\<exists>m\<ge>k. \<exists>w<n. pcs (f m) w = Serving \<and> client_fd (worker_at (f m) w) = Some (new_fd (f k)) \<and>
    client_ts (worker_at (f m) w) = new_ts (f k)) \<or> (\<exists>m\<ge>k. stage_of (f m) = Delay_Overflow \<and> backoff (f m) = 2 ^ 30)"
proof -
  let ?fd = "new_fd (f k)" and ?ts = "new_ts (f k)"
  have inv: "\<forall>k. live_inv (f k)" by (rule hl.run_inv [OF assms(1) reachable_live_inv [OF assms(2,3)]])
  have n: "num_workers (pool (f m)) = n" for m
  proof (induction m)
    case (Suc m)
    then show ?case
      using fair_run_turn [OF assms(1), of m] move_workers inv by metis
  qed (use reachable_inv [OF assms(2,3)] in simp)
  have "searches ?fd ?ts (f k)" using assms(4) by (simp add: searches_def carries_def)
  moreover have "releasing i (f j) \<or> idle i (f j)" using assms(6,7) n by (auto simp: releasing_def idle_def)
  ultimately obtain m where m: "k \<le> m" "ends ?fd ?ts (f m)"
    using search_ends [OF assms(1) inv _ assms(5)] by blast
  show ?thesis
  proof (cases "found ?fd ?ts (f m)")
    case True
    from leads_toD [OF found_to_serves [OF assms(1) inv] True] m(1) n show ?thesis
      by (auto simp: serves_def)
  next
    case False
    then have "stage_of (f m) = Delay_Overflow" using m(2) by (simp add: ends_def)
    moreover from this have "backoff (f m) = 2 ^ 30" using inv by (simp add: live_inv_def delay_ok_def)
    ultimately show ?thesis using m(1) by blast
  qed
qed

text \<open>Concrete runs, in which the delay does not overflow.\<close>

lemma server_path:
  "server_step\<^sup>*\<^sup>* s t \<Longrightarrow> stage_of t \<noteq> Delay_Overflow \<Longrightarrow>
   (\<lambda>s t. (\<exists>p. move p s t) \<and> stage_of t \<noteq> Delay_Overflow)\<^sup>*\<^sup>* s t"
proof (induction rule: rtranclp_induct)
  case (step t u)
  from step.hyps(2) have "stage_of t \<noteq> Delay_Overflow" by cases simp_all
  moreover have "\<exists>p. move p t u" using step.hyps(2) by (metis move.simps(1))
  ultimately show ?case using step.IH step.prems by (simp add: rtranclp.rtrancl_into_rtrancl)
qed simp

lemma receiver_eventually_served_witness:
  "\<exists>sched f m. fair_run move obliged sched f \<and> f 0 = demo Searching 7 Not_Created THREAD_AVAILABLE None 0 None \<and>
    pcs (f m) 0 = Serving \<and> client_fd (worker_at (f m) 0) = Some 7"
proof -
  let ?s = "demo Searching 7 Not_Created THREAD_AVAILABLE None 0 None"
  have a: "server_step (demo Accepting 0 Not_Created THREAD_AVAILABLE None 0 None) ?s"
    using server_step.accept [of "demo Accepting 0 Not_Created THREAD_AVAILABLE None 0 None" demo_ts 7]
    by (simp add: demo_def)
  have r: "reachable 1 (\<lambda>_. demo_ts) ?s"
    using reachable_server [OF r_into_rtranclp [of server_step, OF a]] reachable_init [of 1] demo_init by metis
  have "server_step ?s (demo Found 7 Not_Created THREAD_AVAILABLE None 0 None)"
    using server_step.probe_idle [of ?s] by (simp add: demo_def is_set_0)
  then have "server_step\<^sup>*\<^sup>* ?s (demo Accepting 7 Serving THREAD_BUSY (Some 7) 1 None)"
    using demo_start by (meson converse_rtranclp_into_rtranclp)
  moreover have "\<forall>p. \<not> obliged p (demo Accepting 7 Serving THREAD_BUSY (Some 7) 1 None)"
  proof
    show "\<not> obliged p (demo Accepting 7 Serving THREAD_BUSY (Some 7) 1 None)" for p
      by (cases p) (simp_all add: demo_def)
  qed
  moreover have "stage_of ?s \<noteq> Delay_Overflow"
      "stage_of (demo Accepting 7 Serving THREAD_BUSY (Some 7) 1 None) \<noteq> Delay_Overflow" by (simp_all add: demo_def)
  ultimately obtain sched f where f: "fair_run move obliged sched f" "f 0 = ?s"
      "\<forall>k. stage_of (f k) \<noteq> Delay_Overflow"
    using hl.fair_run_path [where G = "\<lambda>s. stage_of s \<noteq> Delay_Overflow", OF server_path] by blast
  have "stage_of (f 0) = Searching" "\<not> bit_of (f 0) 0" "new_fd (f 0) = 7"
    using f(2) by (simp_all add: demo_def bit_of_def c_mask.flags_clear)
  with receiver_eventually_served [OF f(1), of 1 "\<lambda>_. demo_ts" 0 0 0] f r show ?thesis by auto
qed

text \<open>The delay does overflow, when a pool stays busy: with one worker, whose receiver stays.\<close>

abbreviation demo_sleeping :: "nat \<Rightarrow> handoff" where
  "demo_sleeping r \<equiv> (demo Searching 9 Serving THREAD_BUSY (Some 7) 1 None)\<lparr>backoff := 2 ^ r\<rparr>"

lemma demo_round:
  "server_step (demo_sleeping r) ((demo_sleeping r)\<lparr>idx := 1\<rparr>)"
  using server_step.probe_busy [of "demo_sleeping r"] c_mask.get_iff_flags [of 0 1]
  by (simp add: demo_def is_set_def int_shl1_def)

lemma delay_can_overflow:
  "\<exists>s. reachable 1 (\<lambda>_. demo_ts) s \<and> stage_of s = Delay_Overflow"
proof -
  have "reachable 1 (\<lambda>_. demo_ts) (demo Found 7 Not_Created THREAD_AVAILABLE None 0 None)"
    using reachable_server [OF demo_busy] reachable_init [of 1 "\<lambda>_. demo_ts"] demo_init by simp
  then have "reachable 1 (\<lambda>_. demo_ts) (demo Accepting 7 Serving THREAD_BUSY (Some 7) 1 None)"
    by (rule reachable_server [OF demo_start])
  moreover have "server_step (demo Accepting 7 Serving THREAD_BUSY (Some 7) 1 None) (demo_sleeping 0)"
    using server_step.accept [of "demo Accepting 7 Serving THREAD_BUSY (Some 7) 1 None" demo_ts 9]
    by (simp add: demo_def INITIAL_DELAY_def)
  ultimately have start: "reachable 1 (\<lambda>_. demo_ts) (demo_sleeping 0)"
    using reachable_step handoff_step.by_server by blast
  have r: "reachable 1 (\<lambda>_. demo_ts) (demo_sleeping r)" if "r \<le> 30" for r
    using that
  proof (induction r)
    case (Suc r)
    then have "double_delay (2 ^ r) = Inr (2 ^ Suc r)" by (simp add: double_delay_power del: power_Suc)
    then have "server_step ((demo_sleeping r)\<lparr>idx := 1\<rparr>) (demo_sleeping (Suc r))"
      using server_step.retry [of "(demo_sleeping r)\<lparr>idx := 1\<rparr>"] by (simp add: demo_def del: power_Suc)
    with Suc demo_round [of r] show ?case using reachable_step handoff_step.by_server by (meson Suc_leD)
  qed (use start in simp)
  let ?s = "(demo_sleeping 30)\<lparr>idx := 1\<rparr>"
  have "reachable 1 (\<lambda>_. demo_ts) ?s" using r [of 30] demo_round reachable_step handoff_step.by_server by blast
  moreover have "server_step ?s (?s\<lparr>stage_of := Delay_Overflow\<rparr>)"
    by (rule server_step.retry_overflow) (simp_all add: demo_def double_delay_def)
  ultimately have "reachable 1 (\<lambda>_. demo_ts) (?s\<lparr>stage_of := Delay_Overflow\<rparr>)"
    using reachable_step handoff_step.by_server by blast
  then show ?thesis by (intro exI [of _ "?s\<lparr>stage_of := Delay_Overflow\<rparr>"]) simp
qed

end
