(* ===== verification/Source_Phases.thy ===== *)
theory Source_Phases
  imports Source_Server
begin

text \<open>
  The loops of \<open>run_src_server\<close> in \<^verbatim>\<open>ws_server.c\<close>, cut at their accesses to shared data, for runs in which other
  threads come in between. Without interruption the phases amount to \<open>accept_loop\<close>.
\<close>

section \<open>The code\<close>

text \<open>
  The server accepts a connection, looks whether it is alive, parses a message, allocates an entry for it, for which
  the clock is read, and appends the entry under \<open>msg_lock\<close>.
\<close>

datatype sphase = S_Accept | S_Alive | S_Parse | S_Init ctmp_msg | S_Insert msg_entry

record slocal =
  sph :: sphase
  ssrc :: source

fun sstep_at :: "sphase \<Rightarrow> (source \<Rightarrow> fault + ctmp_msg option \<times> source) \<Rightarrow> errno + rx_event list \<Rightarrow> timespec \<Rightarrow>
    queue \<Rightarrow> slocal \<Rightarrow> fault + queue \<times> slocal" where
  "sstep_at S_Accept parse conn now q l =
     (case conn of
        Inl e \<Rightarrow> Inl (Exited (errno_code e))
      | Inr evs \<Rightarrow> Inr (q, l\<lparr>ssrc := (ssrc l)\<lparr>rx := evs\<rparr>, sph := S_Alive\<rparr>))"
| "sstep_at S_Alive parse conn now q l =
     Inr (q, l\<lparr>sph := (if is_alive (rx (ssrc l)) then S_Parse else S_Accept)\<rparr>)"
| "sstep_at S_Parse parse conn now q l =
     bindF (parse (ssrc l)) (\<lambda>(r, s).
       Inr (q, l\<lparr>ssrc := s, sph := (case r of Some m \<Rightarrow> S_Init m | None \<Rightarrow> S_Alive)\<rparr>))"
| "sstep_at (S_Init m) parse conn now q l =
     bindF (init_msg_entry now m (ssrc l)) (\<lambda>(e, s). Inr (q, l\<lparr>ssrc := s, sph := S_Insert e\<rparr>))"
| "sstep_at (S_Insert e) parse conn now q l = Inr (TAILQ_INSERT_TAIL q e, l\<lparr>sph := S_Alive\<rparr>)"

definition sstep :: "(source \<Rightarrow> fault + ctmp_msg option \<times> source) \<Rightarrow> errno + rx_event list \<Rightarrow> timespec \<Rightarrow>
    queue \<Rightarrow> slocal \<Rightarrow> fault + queue \<times> slocal" where
  "sstep parse conn now q l = sstep_at (sph l) parse conn now q l"

section \<open>Without interruption\<close>

text \<open>\<open>k\<close> steps, with the connections that are still to come; there may be none to accept.\<close>

fun ssteps :: "nat \<Rightarrow> (source \<Rightarrow> fault + ctmp_msg option \<times> source) \<Rightarrow> (nat \<Rightarrow> timespec) \<Rightarrow>
    (errno + rx_event list) list \<Rightarrow> queue \<Rightarrow> slocal \<Rightarrow>
    fault + (errno + rx_event list) list \<times> queue \<times> slocal" where
  "ssteps 0 parse clock conns q l = Inr (conns, q, l)"
| "ssteps (Suc k) parse clock conns q l =
     (if sph l = S_Accept
      then (case conns of
              [] \<Rightarrow> Inl Would_Block
            | c # cs \<Rightarrow> bindF (sstep parse c (clock (length q)) q l) (\<lambda>(q', l'). ssteps k parse clock cs q' l'))
      else bindF (sstep parse (Inr []) (clock (length q)) q l) (\<lambda>(q', l'). ssteps k parse clock conns q' l'))"

definition src_reaches :: "(source \<Rightarrow> fault + ctmp_msg option \<times> source) \<Rightarrow> (nat \<Rightarrow> timespec) \<Rightarrow>
    (errno + rx_event list) list \<Rightarrow> queue \<Rightarrow> slocal \<Rightarrow>
    fault + (errno + rx_event list) list \<times> queue \<times> slocal \<Rightarrow> bool" where
  "src_reaches parse clock conns q l r \<longleftrightarrow> (\<exists>k. ssteps k parse clock conns q l = r)"

lemma src_here: "src_reaches parse clock conns q l (Inr (conns, q, l))"
  unfolding src_reaches_def by (rule exI [of _ 0]) simp

lemma src_fault:
  "sph l \<noteq> S_Accept \<Longrightarrow> sstep parse (Inr []) (clock (length q)) q l = Inl f \<Longrightarrow>
   src_reaches parse clock conns q l (Inl f)"
  unfolding src_reaches_def by (rule exI [of _ 1]) simp

lemma src_step:
  assumes "sph l \<noteq> S_Accept" "sstep parse (Inr []) (clock (length q)) q l = Inr (q', l')"
    "src_reaches parse clock conns q' l' r"
  shows "src_reaches parse clock conns q l r"
proof -
  from assms(3) obtain k where "ssteps k parse clock conns q' l' = r" by (auto simp: src_reaches_def)
  with assms(1,2) have "ssteps (Suc k) parse clock conns q l = r" by simp
  then show ?thesis unfolding src_reaches_def by blast
qed

lemma src_accept:
  assumes "sph l = S_Accept"
    "src_reaches parse clock cs q (l\<lparr>ssrc := (ssrc l)\<lparr>rx := evs\<rparr>, sph := S_Alive\<rparr>) r"
  shows "src_reaches parse clock (Inr evs # cs) q l r"
proof -
  from assms(2) obtain k where "ssteps k parse clock cs q (l\<lparr>ssrc := (ssrc l)\<lparr>rx := evs\<rparr>, sph := S_Alive\<rparr>) = r"
    by (auto simp: src_reaches_def)
  with assms(1) have "ssteps (Suc k) parse clock (Inr evs # cs) q l = r" by (simp add: sstep_def)
  then show ?thesis unfolding src_reaches_def by blast
qed

lemma ssteps_add:
  "ssteps k parse clock conns q l = Inr (cs, q', l') \<Longrightarrow>
   ssteps (k + j) parse clock conns q l = ssteps j parse clock cs q' l'"
  by (induction k arbitrary: conns q l) (auto simp: fault_simps split: list.splits if_splits)

lemma src_trans:
  "src_reaches parse clock conns q l (Inr (cs, q', l')) \<Longrightarrow> src_reaches parse clock cs q' l' r \<Longrightarrow>
   src_reaches parse clock conns q l r"
  unfolding src_reaches_def using ssteps_add by metis

text \<open>What a loop that returns amounts to, when \<open>conns\<close> are still to come.\<close>

definition src_result :: "(errno + rx_event list) list \<Rightarrow> fault + source \<times> queue \<Rightarrow>
    fault + (errno + rx_event list) list \<times> queue \<times> slocal" where
  "src_result conns r = bindF r (\<lambda>(s, q). Inr (conns, q, \<lparr>sph = S_Accept, ssrc = s\<rparr>))"

context ctmp_parser
begin

lemma phases_of_connection:
  assumes "conn_loop parse clock s q = Some r"
  shows "src_reaches parse clock conns q \<lparr>sph = S_Alive, ssrc = s\<rparr> (src_result conns r)"
  using assms
proof (induction "evs_size (rx s)" arbitrary: s q rule: less_induct)
  case less
  let ?l = "\<lambda>p s. \<lparr>sph = p, ssrc = s\<rparr>"
  show ?case
  proof (cases "is_alive (rx s)")
    case False
    with less.prems have "r = Inr (s, q)" by (simp add: conn_loop_dead)
    with False src_step [OF _ _ src_here, of "?l S_Alive s" parse clock q q "?l S_Accept s"] show ?thesis
      by (simp add: sstep_def src_result_def)
  next
    case True
    have alive: "src_reaches parse clock conns q (?l S_Parse s) r' \<Longrightarrow>
        src_reaches parse clock conns q (?l S_Alive s) r'" for r'
      by (rule src_step [rotated 2]) (simp_all add: sstep_def True)
    show ?thesis
    proof (cases "parse s")
      case (Inl f)
      with less.prems True have "r = Inl f" by (subst (asm) conn_loop.simps) simp
      with Inl alive [OF src_fault] show ?thesis by (simp add: sstep_def src_result_def)
    next
      case (Inr p)
      then obtain x s1 where p: "parse s = Inr (x, s1)" by (cases p) auto
      have lt: "evs_size (rx s1) < evs_size (rx s)" by (rule parse_progress [OF True p])
      show ?thesis
      proof (cases x)
        case None
        with less.prems True p have "conn_loop parse clock s1 q = Some r" by (simp add: conn_loop_None)
        from less.hyps [OF lt this] p None show ?thesis
          by (intro alive, intro src_step [where l = "?l S_Parse s"]) (simp_all add: sstep_def)
      next
        case (Some m)
        have init: "src_reaches parse clock conns q (?l (S_Init m) s1) r' \<Longrightarrow>
            src_reaches parse clock conns q (?l S_Alive s) r'" for r'
          using p Some by (intro alive, intro src_step [where l = "?l S_Parse s"]) (simp_all add: sstep_def)
        show ?thesis
        proof (cases "init_msg_entry (clock (length q)) m s1")
          case (Inl f)
          with less.prems True p Some have "r = Inl f" by (subst (asm) conn_loop.simps) simp
          with Inl init [OF src_fault] show ?thesis by (simp add: sstep_def src_result_def)
        next
          case (Inr y)
          then obtain e s2 where e: "init_msg_entry (clock (length q)) m s1 = Inr (e, s2)" by (cases y) auto
          then have "rx s2 = rx s1" by (auto simp: init_msg_entry_Inr)
          have "conn_loop parse clock s2 (TAILQ_INSERT_TAIL q e) = Some r"
            using less.prems True p Some e by (subst (asm) conn_loop.simps) simp
          from less.hyps [OF _ this] lt \<open>rx s2 = rx s1\<close>
          have "src_reaches parse clock conns (TAILQ_INSERT_TAIL q e) (?l S_Alive s2) (src_result conns r)" by simp
          then have "src_reaches parse clock conns q (?l (S_Insert e) s2) (src_result conns r)"
            by (rule src_step [rotated 2]) (simp_all add: sstep_def)
          then have "src_reaches parse clock conns q (?l (S_Init m) s1) (src_result conns r)"
            using e by (intro src_step [where l = "?l (S_Init m) s1"]) (simp_all add: sstep_def)
          then show ?thesis by (rule init)
        qed
      qed
    qed
  qed
qed

end

text \<open>
  Property C36. The phases of the source server are its loops: run without interruption from its first
  \<open>accept\<close>, they end where \<open>accept_loop\<close> ends, with the same queue, or stop with the same fault.
\<close>

theorem phases_are_accept_loop:
  "\<exists>r. accept_loop (ctmp_parse_func host extended) clock conns s q = Some r \<and>
    src_reaches (ctmp_parse_func host extended) clock conns q \<lparr>sph = S_Accept, ssrc = s\<rparr> (src_result [] r)"
proof (induction conns arbitrary: s q)
  case Nil
  then show ?case using src_here by (fastforce simp: src_result_def)
next
  case (Cons c conns)
  let ?p = "ctmp_parse_func host extended"
  show ?case
  proof (cases c)
    case (Inl e)
    then have "ssteps 1 ?p clock (c # conns) q \<lparr>sph = S_Accept, ssrc = s\<rparr> = Inl (Exited (errno_code e))"
      using Inl by (simp add: sstep_def)
    then have "src_reaches ?p clock (c # conns) q \<lparr>sph = S_Accept, ssrc = s\<rparr> (Inl (Exited (errno_code e)))"
      unfolding src_reaches_def by blast
    with Inl show ?thesis by (simp add: src_result_def)
  next
    case (Inr evs)
    let ?s = "s\<lparr>rx := evs\<rparr>"
    obtain r where r: "conn_loop ?p clock ?s q = Some r" using selected.conn_loop_total by blast
    note this = selected.phases_of_connection [OF r, of conns]
    then have c: "src_reaches ?p clock (c # conns) q \<lparr>sph = S_Accept, ssrc = s\<rparr> (src_result conns r)"
      using Inr src_accept by simp
    show ?thesis
    proof (cases r)
      case f: (Inl f)
      with c r Inr show ?thesis by (simp add: src_result_def)
    next
      case f: (Inr y)
      then obtain s1 q1 where y: "r = Inr (s1, q1)" by (cases y) auto
      with c src_trans Cons.IH [of s1 q1] r Inr show ?thesis by (fastforce simp: src_result_def)
    qed
  qed
qed

end
