(* ===== verification/Proxy.thy ===== *)
theory Proxy
  imports Relay_Spec Handoff_Live Source_Phases
begin

text \<open>
  The whole program: the hand-off of \<^theory_text>\<open>Handoff\<close>, the threads that share the queue of \<^theory_text>\<open>Relay_System\<close> and the
  source server of \<^theory_text>\<open>Source_Phases\<close> as one step relation. The parts meet where the code makes them meet: a
  worker is created by the server's \<open>pthread_create\<close>, closes its client before it takes its lock, and takes its new
  client and time stamp from the arguments the server has written; what the source server appends is what it has parsed.
\<close>

section \<open>The code\<close>

text \<open>
  The last three fields are history: the receivers the server has accepted and those that workers have started to
  serve, by descriptor and time stamp, and the connections of sources.
\<close>

record proxy =
  ho :: handoff
  sy :: system
  so :: slocal
  arrivals :: "(int \<times> timespec) list"
  servings :: "(int \<times> timespec) list"
  uplinks :: "rx_event list list"

definition init_proxy :: "nat \<Rightarrow> (nat \<Rightarrow> timespec) \<Rightarrow> source \<Rightarrow> proxy" where
  "init_proxy n clock src =
     \<lparr>ho = init_handoff n clock, sy = init_system, so = \<lparr>sph = S_Accept, ssrc = src\<rparr>,
      arrivals = [], servings = [], uplinks = []\<rparr>"

text \<open>The receiver in a worker's arguments.\<close>

definition receiver_of :: "worker \<Rightarrow> int \<times> timespec" where
  "receiver_of w = (the (client_fd w), client_ts w)"

text \<open>
  Nothing has been sent to a receiver before its worker starts to serve it; the state of its connection is whatever
  it is at that moment. The guards are those of the threads themselves: that a worker which is created does not run
  yet, or that one which resumes has waited, is not required but follows.
\<close>

inductive proxy_step :: "endian \<Rightarrow> bool \<Rightarrow> int \<Rightarrow> nat \<Rightarrow> proxy \<Rightarrow> proxy \<Rightarrow> bool" for host extended ttl n where
  dst_accept: "stage_of (ho p) = Accepting \<Longrightarrow> server_step (ho p) h \<Longrightarrow>
     proxy_step host extended ttl n p (p\<lparr>ho := h, arrivals := arrivals p @ [(new_fd h, new_ts h)]\<rparr>)"
| dst_server: "stage_of (ho p) \<noteq> Accepting \<Longrightarrow> stage_of (ho p) \<noteq> Creating \<Longrightarrow> server_step (ho p) h \<Longrightarrow>
     proxy_step host extended ttl n p (p\<lparr>ho := h\<rparr>)"
| dst_create: "stage_of (ho p) = Creating \<Longrightarrow> server_step (ho p) h \<Longrightarrow> w = worker_at (ho p) (idx (ho p)) \<Longrightarrow>
     wire cl = [] \<Longrightarrow> perform ttl (Create (idx (ho p)) cl (client_ts w)) (sy p) = Inr s \<Longrightarrow>
     proxy_step host extended ttl n p (p\<lparr>ho := h, sy := s, servings := servings p @ [receiver_of w]\<rparr>)"
| work: "wl (sy p) i = Some l \<Longrightarrow> ph l \<noteq> P_Hangup \<Longrightarrow> allowed host n (Work i) (sy p) \<Longrightarrow>
     perform ttl (Work i) (sy p) = Inr s \<Longrightarrow> proxy_step host extended ttl n p (p\<lparr>sy := s\<rparr>)"
| hang_up: "wl (sy p) i = Some l \<Longrightarrow> ph l = P_Hangup \<Longrightarrow> perform ttl (Work i) (sy p) = Inr s \<Longrightarrow>
     proxy_step host extended ttl n p (p\<lparr>ho := (ho p)\<lparr>pcs := (pcs (ho p))(i := Closed)\<rparr>, sy := s\<rparr>)"
| protocol: "i < n \<Longrightarrow> pcs (ho p) i \<noteq> Serving \<Longrightarrow>
     \<not> (pcs (ho p) i = Checking \<and> status_of (ho p) i = THREAD_BUSY) \<Longrightarrow> worker_step i (ho p) h \<Longrightarrow>
     proxy_step host extended ttl n p (p\<lparr>ho := h\<rparr>)"
| resume: "i < n \<Longrightarrow> pcs (ho p) i = Checking \<Longrightarrow> status_of (ho p) i = THREAD_BUSY \<Longrightarrow> worker_step i (ho p) h \<Longrightarrow>
     w = worker_at (ho p) i \<Longrightarrow> wire cl = [] \<Longrightarrow> perform ttl (Reassign i cl (client_ts w)) (sy p) = Inr s \<Longrightarrow>
     proxy_step host extended ttl n p (p\<lparr>ho := h, sy := s, servings := servings p @ [receiver_of w]\<rparr>)"
| src_accept: "sph (so p) = S_Accept \<Longrightarrow>
     sstep (ctmp_parse_func host extended) (Inr evs) now (sq (sy p)) (so p) = Inr (q, l) \<Longrightarrow>
     proxy_step host extended ttl n p (p\<lparr>so := l, uplinks := uplinks p @ [evs]\<rparr>)"
| src_read: "sph (so p) \<noteq> S_Accept \<Longrightarrow> \<forall>e. sph (so p) \<noteq> S_Insert e \<Longrightarrow>
     sstep (ctmp_parse_func host extended) (Inr []) now (sq (sy p)) (so p) = Inr (q, l) \<Longrightarrow>
     proxy_step host extended ttl n p (p\<lparr>so := l\<rparr>)"
| src_insert: "sph (so p) = S_Insert e \<Longrightarrow> \<not> msg_locked (sy p) \<Longrightarrow>
     sstep (ctmp_parse_func host extended) (Inr []) now (sq (sy p)) (so p) = Inr (q, l) \<Longrightarrow>
     proxy_step host extended ttl n p
       (p\<lparr>so := l, sy := (sy p)\<lparr>sq := q, hist := hist (sy p) @ [(timestamp e, the (msg e))]\<rparr>\<rparr>)"
| cleanup: "perform ttl (Clean now) (sy p) = Inr s \<Longrightarrow> proxy_step host extended ttl n p (p\<lparr>sy := s\<rparr>)"
| connection: "wl (sy p) i \<noteq> None \<Longrightarrow> perform ttl (Connection i rxs txs) (sy p) = Inr s \<Longrightarrow>
     proxy_step host extended ttl n p (p\<lparr>sy := s\<rparr>)"

abbreviation proxy_reachable ::
  "endian \<Rightarrow> bool \<Rightarrow> int \<Rightarrow> nat \<Rightarrow> (nat \<Rightarrow> timespec) \<Rightarrow> source \<Rightarrow> proxy \<Rightarrow> bool" where
  "proxy_reachable host extended ttl n clock src p \<equiv>
     (proxy_step host extended ttl n)\<^sup>*\<^sup>* (init_proxy n clock src) p"

section \<open>The parts fit together\<close>

text \<open>Where a worker is in the hand-off, and where it is in its loop.\<close>

fun coupled :: "wpc \<Rightarrow> timespec \<Rightarrow> wlocal option \<Rightarrow> bool" where
  "coupled Not_Created ts w \<longleftrightarrow> w = None"
| "coupled Serving ts w \<longleftrightarrow> (\<exists>l. w = Some l \<and> ph l \<noteq> P_Wait \<and> wts l = ts)"
| "coupled _ ts w \<longleftrightarrow> (\<exists>l. w = Some l \<and> ph l = P_Wait)"

definition couple :: "nat \<Rightarrow> handoff \<Rightarrow> system \<Rightarrow> bool" where
  "couple n h s \<longleftrightarrow> (\<forall>i<n. coupled (pcs h i) (client_ts (worker_at h i)) (wl s i)) \<and> (\<forall>i\<ge>n. wl s i = None)"

text \<open>What the source server holds.\<close>

definition source_holds :: "endian \<Rightarrow> sphase \<Rightarrow> bool" where
  "source_holds host ps \<longleftrightarrow>
     (case ps of S_Init m \<Rightarrow> wf_msg host m
      | S_Insert e \<Rightarrow> \<exists>m. wf_msg host m \<and> e = new_entry (timestamp e) m
      | _ \<Rightarrow> True)"

definition proxy_inv :: "endian \<Rightarrow> nat \<Rightarrow> proxy \<Rightarrow> bool" where
  "proxy_inv host n p \<longleftrightarrow> live_inv (ho p) \<and> num_workers (pool (ho p)) = n \<and> couple n (ho p) (sy p) \<and>
     source_holds host (sph (so p))"

lemma proxy_inv_init: "n \<le> 32 \<Longrightarrow> proxy_inv host n (init_proxy n clock src)"
proof -
  assume "n \<le> 32"
  then have "live_inv (init_handoff n clock)" using reachable_live_inv reachable_init by blast
  then show ?thesis
    by (simp add: proxy_inv_def init_proxy_def couple_def source_holds_def)
      (simp add: init_handoff_def init_workers_def init_system_def)
qed

lemma server_pcs: "server_step s t \<Longrightarrow> stage_of s \<noteq> Creating \<Longrightarrow> pcs t = pcs s"
  by (erule server_step.cases) simp_all

lemma server_creates: "server_step s t \<Longrightarrow> stage_of s = Creating \<Longrightarrow>
  t = s\<lparr>stage_of := Accepting, pcs := (pcs s)(idx s := Serving)\<rparr>"
  by (erule server_step.cases) simp_all

text \<open>A worker that serves keeps its time stamp, whatever the server does.\<close>

lemma server_coupled:
  assumes "server_step h h'" "live_inv h" "couple n h s" "num_workers (pool h) = n" "stage_of h \<noteq> Creating"
  shows "couple n h' s"
proof -
  have "coupled (pcs h' i) (client_ts (worker_at h' i)) (wl s i)" if "i < n" for i
  proof -
    have i: "i < num_workers (pool h)" using that assms(4) by simp
    have c: "coupled (pcs h i) (client_ts (worker_at h i)) (wl s i)" using assms(3) that by (simp add: couple_def)
    show ?thesis
    proof (cases "pcs h i = Serving")
      case True
      then have "stage_at h i = Accepting" using live_ok [OF assms(2) i] by (simp add: worker_ok.simps)
      then have "worker_at h' i = worker_at h i" using others_keep [of Srv h h' i] assms(1,2) i by simp
      with c server_pcs [OF assms(1,5)] show ?thesis by simp
    next
      case False
      with c server_pcs [OF assms(1,5)] show ?thesis by (cases "pcs h i") simp_all
    qed
  qed
  with assms(3) show ?thesis by (simp add: couple_def)
qed

lemma couple_update:
  assumes "couple n h s" "i < n" "coupled (pcs h' i) (client_ts (worker_at h' i)) (wl s' i)"
    and "\<And>j. j \<noteq> i \<Longrightarrow> pcs h' j = pcs h j \<and> wl s' j = wl s j \<and>
      (j < n \<longrightarrow> client_ts (worker_at h' j) = client_ts (worker_at h j))"
  shows "couple n h' s'"
proof -
  have "coupled (pcs h' j) (client_ts (worker_at h' j)) (wl s' j)" if "j < n" for j
    using assms that by (cases "j = i") (auto simp: couple_def)
  moreover have "wl s' j = None" if "n \<le> j" for j
    using assms(1,2,4) that by (cases "j = i") (auto simp: couple_def)
  ultimately show ?thesis by (simp add: couple_def)
qed

lemma worker_args_kept:
  "worker_step i s t \<Longrightarrow> j < length (workers (pool s)) \<Longrightarrow>
   client_ts (worker_at t j) = client_ts (worker_at s j) \<and> client_fd (worker_at t j) = client_fd (worker_at s j)"
  by (erule worker_step.cases) (auto simp: set_busy_bit_workers)

lemma wstep_phase:
  "wstep i q l = Inr (q', l') \<Longrightarrow> wts l' = wts l \<and> ph l \<noteq> P_Wait \<and> (ph l' = P_Wait \<longleftrightarrow> ph l = P_Hangup)"
proof (cases "ph l = P_Header")
  case True
  assume "wstep i q l = Inr (q', l')"
  with True obtain m where "(case send_msg (header m) (wcl l) of (res, cl) \<Rightarrow>
      if res < 0 then Inr (q, l\<lparr>wcl := cl, bsent := res, ph := P_Mark\<rparr>)
      else Inr (q, l\<lparr>wcl := cl, ph := P_Data m\<rparr>)) = (Inr (q', l') :: fault + queue \<times> wlocal)"
    by (auto simp: wstep_def fault_simps split: option.splits)
  with True show ?thesis by (auto split: prod.splits if_splits)
qed (cases "ph l"; auto simp: wstep_def fault_simps split: option.splits if_splits prod.splits)

lemma couple_slot: "couple n h s \<Longrightarrow> wl s i = Some l \<Longrightarrow> i < n"
  unfolding couple_def by (metis not_less option.distinct(1))

lemma couple_serving:
  assumes "couple n h s" "wl s i = Some l" "ph l \<noteq> P_Wait"
  shows "i < n \<and> pcs h i = Serving \<and> wts l = client_ts (worker_at h i)"
proof -
  have i: "i < n" by (rule couple_slot [OF assms(1,2)])
  then have "coupled (pcs h i) (client_ts (worker_at h i)) (Some l)" using assms(1,2) by (metis couple_def)
  with i assms(3) show ?thesis by (cases "pcs h i") auto
qed

lemma couple_waiting:
  assumes "couple n h s" "i < n" "pcs h i \<notin> {Not_Created, Serving}"
  shows "\<exists>l. wl s i = Some l \<and> ph l = P_Wait"
proof -
  have "coupled (pcs h i) (client_ts (worker_at h i)) (wl s i)" using assms(1,2) by (simp add: couple_def)
  with assms(3) show ?thesis by (cases "pcs h i") auto
qed

lemma worked:
  "wl s i = Some l \<Longrightarrow> perform ttl (Work i) s = Inr t \<Longrightarrow>
   \<exists>q l'. wstep (int i) (sq s) l = Inr (q, l') \<and> t = set_worker i l' (s\<lparr>sq := q\<rparr>)"
  by (auto simp: fault_simps)

text \<open>The steps of the hand-off and of the threads, each in the terms of the other.\<close>

lemma created_slot:
  assumes "proxy_inv host n p" "stage_of (ho p) = Creating"
  shows "idx (ho p) < n \<and> wl (sy p) (idx (ho p)) = None"
proof -
  have inv: "live_inv (ho p)" "num_workers (pool (ho p)) = n" "couple n (ho p) (sy p)"
    using assms(1) by (simp_all add: proxy_inv_def)
  have i: "idx (ho p) < n" using live_bounds [OF inv(1)] assms(2) inv(2) by simp
  have "pcs (ho p) (idx (ho p)) = Not_Created"
    using writes_ok [OF inv(1)] assms(2) by (cases "pcs (ho p) (idx (ho p))") (auto simp: worker_ok.simps)
  moreover have "coupled (pcs (ho p) (idx (ho p))) (client_ts (worker_at (ho p) (idx (ho p)))) (wl (sy p) (idx (ho p)))"
    using inv(3) i by (simp add: couple_def)
  ultimately show ?thesis using i by simp
qed

lemma resumed_slot:
  assumes "proxy_inv host n p" "i < n" "pcs (ho p) i = Checking"
  shows "\<exists>l. wl (sy p) i = Some l \<and> ph l = P_Wait"
  using couple_waiting [of n "ho p" "sy p" i] assms by (simp add: proxy_inv_def)

text \<open>A worker that hangs up is serving: closing the connection is a step of the hand-off.\<close>

lemma hang_up_step:
  assumes "proxy_inv host n p" "wl (sy p) i = Some l" "ph l = P_Hangup"
  shows "i < n \<and> worker_step i (ho p) ((ho p)\<lparr>pcs := (pcs (ho p))(i := Closed)\<rparr>)"
  using couple_serving [of n "ho p" "sy p" i l] assms worker_step.close_conn [of "ho p" i]
  by (simp add: proxy_inv_def)

lemma proxy_handoff:
  assumes "proxy_step host extended ttl n p q" "proxy_inv host n p"
  shows "ho q = ho p \<or> handoff_step (ho p) (ho q)"
  using assms(1)
proof cases
  case (hang_up i l s)
  with hang_up_step [OF assms(2)] assms(2) show ?thesis
    by (auto simp: proxy_inv_def intro: handoff_step.by_worker)
qed (use assms(2) in \<open>auto simp: proxy_inv_def intro: handoff_step.intros\<close>)

lemma insert_is_publish:
  assumes "e = new_entry (timestamp e) m" "sph l = S_Insert e" "sstep parse c now (sq s) l = Inr (q, l')"
  shows "l' = l\<lparr>sph := S_Alive\<rparr> \<and>
    Inr (s\<lparr>sq := q, hist := hist s @ [(timestamp e, the (msg e))]\<rparr>) = perform ttl (Publish (timestamp e) m) s"
proof -
  have "msg e = Some m" using assms(1) by (metis msg_entry.select_convs(2) new_entry_def)
  with assms show ?thesis by (simp add: sstep_def)
qed

lemma proxy_system:
  assumes "proxy_step host extended ttl n p q" "proxy_inv host n p"
  shows "sy q = sy p \<or> sys_step host ttl n (sy p) (sy q)"
  using assms(1)
proof cases
  case (dst_create h w cl s)
  with created_slot [OF assms(2)] sys_step.act [of host n "Create (idx (ho p)) cl (client_ts w)" "sy p" ttl s]
  show ?thesis by simp
next
  case (work i l s)
  then show ?thesis using sys_step.act [of host n "Work i" "sy p" ttl s] by simp
next
  case (hang_up i l s)
  then show ?thesis using sys_step.act [of host n "Work i" "sy p" ttl s] by (simp add: needs_lock_def)
next
  case (resume i h w cl s)
  obtain l where "wl (sy p) i = Some l" "ph l = P_Wait" using resumed_slot [OF assms(2) resume(2,3)] by blast
  with resume show ?thesis
    using sys_step.act [of host n "Reassign i cl (client_ts w)" "sy p" ttl s] by auto
next
  case (src_insert e now q' l)
  with assms(2) obtain m where m: "wf_msg host m" "e = new_entry (timestamp e) m"
    by (auto simp: proxy_inv_def source_holds_def)
  from insert_is_publish [OF m(2) src_insert(2,4), of ttl] m(1) src_insert(1,3)
    sys_step.act [of host n "Publish (timestamp e) m" "sy p" ttl]
  show ?thesis by simp
next
  case (cleanup now s)
  then show ?thesis using sys_step.act [of host n "Clean now" "sy p" ttl s] by simp
next
  case (connection i rxs txs s)
  then show ?thesis using sys_step.act [of host n "Connection i rxs txs" "sy p" ttl s] by simp
qed simp_all

section \<open>The invariant is kept\<close>

lemma couple_wl: "wl s' = wl s \<Longrightarrow> couple n h s' \<longleftrightarrow> couple n h s"
  by (simp add: couple_def)

lemma couple_worked:
  assumes "couple n h s" "wl s i = Some l" "perform ttl (Work i) s = Inr t"
    and "h' = (if ph l = P_Hangup then h\<lparr>pcs := (pcs h)(i := Closed)\<rparr> else h)"
  shows "couple n h' t"
proof -
  obtain q l' where w: "wstep (int i) (sq s) l = Inr (q, l')" "t = set_worker i l' (s\<lparr>sq := q\<rparr>)"
    using worked [OF assms(2,3)] by blast
  note ph = wstep_phase [OF w(1)]
  then have i: "i < n" "pcs h i = Serving" "wts l = client_ts (worker_at h i)"
    using couple_serving [OF assms(1,2)] by auto
  show ?thesis
    by (rule couple_update [OF assms(1) i(1)]) (use ph i w assms(4) in \<open>auto simp: set_worker_def\<close>)
qed

lemma protocol_pcs:
  "worker_step i s t \<Longrightarrow> pcs s i \<noteq> Serving \<Longrightarrow> \<not> (pcs s i = Checking \<and> status_of s i = THREAD_BUSY) \<Longrightarrow>
   pcs t i \<notin> {Not_Created, Serving} \<and> pcs s i \<noteq> Not_Created"
  by (erule worker_step.cases) auto

lemma resume_step:
  "worker_step i s t \<Longrightarrow> pcs s i = Checking \<Longrightarrow> status_of s i = THREAD_BUSY \<Longrightarrow>
   t = s\<lparr>pcs := (pcs s)(i := Serving), arg_lock := (arg_lock s)(i := None)\<rparr>"
  by (erule worker_step.cases) auto

lemma couple_protocol:
  assumes "couple n h s" "i < n" "worker_step i h h'" "n \<le> length (workers (pool h))"
    and "pcs h i \<noteq> Serving" "\<not> (pcs h i = Checking \<and> status_of h i = THREAD_BUSY)"
  shows "couple n h' s"
proof -
  have p: "pcs h' i \<notin> {Not_Created, Serving}" "pcs h i \<noteq> Not_Created"
    using protocol_pcs [OF assms(3,5,6)] by auto
  then obtain l where "wl s i = Some l" "ph l = P_Wait"
    using couple_waiting [OF assms(1,2)] assms(5) by blast
  with p have "coupled (pcs h' i) (client_ts (worker_at h' i)) (wl s i)" by (cases "pcs h' i") auto
  then show ?thesis
    by (rule couple_update [OF assms(1,2)])
      (use worker_keeps [OF assms(3)] worker_args_kept [OF assms(3)] assms(4) in auto)
qed

lemma source_keeps:
  assumes "sstep (ctmp_parse_func host extended) conn now q l = Inr (q', l')" "source_holds host (sph l)"
  shows "source_holds host (sph l')"
  using assms selected.parse_sound [of host extended "ssrc l"]
  by (cases "sph l")
    (auto simp: sstep_def source_holds_def fault_simps new_entry_def init_msg_entry_Inr
      split: sum.splits option.splits)

lemma clean_wl: "perform ttl (Clean now) s = Inr t \<Longrightarrow> wl t = wl s"
  by (auto simp: fault_simps)

lemma connection_phase:
  assumes "couple n h s" "perform ttl (Connection i rxs txs) s = Inr t"
  shows "couple n h t"
proof (cases "wl s i")
  case (Some l)
  then have t: "t = set_worker i (l\<lparr>wcl := (wcl l)\<lparr>crx := rxs, tx := txs\<rparr>\<rparr>) s" using assms(2) by simp
  have i: "i < n" by (rule couple_slot [OF assms(1) Some])
  have "coupled (pcs h i) (client_ts (worker_at h i)) (Some l)" using assms(1) i Some by (metis couple_def)
  then have "coupled (pcs h i) (client_ts (worker_at h i)) (wl t i)"
    using t by (cases "pcs h i") (auto simp: set_worker_def)
  then show ?thesis by (rule couple_update [OF assms(1) i]) (simp add: t set_worker_def)
qed (use assms in simp)

lemma couple_assigned:
  assumes "couple n h s" "i < n" "wl t = (wl s)(i := Some l)" "ph l \<noteq> P_Wait" "wts l = client_ts (worker_at h i)"
    and "pool h' = pool h" "pcs h' = (pcs h)(i := Serving)"
  shows "couple n h' t"
  by (rule couple_update [OF assms(1,2)]) (use assms(3-7) in auto)

lemma proxy_couple:
  assumes "proxy_step host extended ttl n p q" "proxy_inv host n p"
  shows "couple n (ho q) (sy q)"
proof -
  have inv: "live_inv (ho p)" "num_workers (pool (ho p)) = n" "couple n (ho p) (sy p)"
    using assms(2) by (simp_all add: proxy_inv_def)
  then have l: "n \<le> length (workers (pool (ho p)))" by (simp add: live_inv_def handoff_inv_def)
  from assms(1) show ?thesis
  proof cases
    case (dst_accept h)
    then show ?thesis using server_coupled [OF dst_accept(3) inv(1,3,2)] by simp
  next
    case (dst_server h)
    then show ?thesis using server_coupled [OF dst_server(4) inv(1,3,2)] by simp
  next
    case (dst_create h w cl s)
    note slot = created_slot [OF assms(2) dst_create(2)] and h = server_creates [OF dst_create(3,2)]
    show ?thesis
      by (rule couple_assigned [OF inv(3), where i = "idx (ho p)" and l = "init_local cl (client_ts w)"])
        (use slot h dst_create in \<open>auto simp: set_worker_def join_def init_local_def\<close>)
  next
    case (work i l s)
    then show ?thesis using couple_worked [OF inv(3) work(2,5), of "ho p"] by simp
  next
    case (hang_up i l s)
    then show ?thesis using couple_worked [OF inv(3) hang_up(2,4) refl] by simp
  next
    case (protocol i h)
    then show ?thesis using couple_protocol [OF inv(3) protocol(2,5) l protocol(3,4)] by simp
  next
    case (resume i h w cl s)
    obtain l where l: "wl (sy p) i = Some l" using resumed_slot [OF assms(2) resume(2,3)] by blast
    note h = resume_step [OF resume(5,3,4)]
    show ?thesis
      by (rule couple_assigned [OF inv(3) resume(2), where l = "assign cl (client_ts w) l"])
        (use l h resume in \<open>auto simp: set_worker_def join_def assign_def\<close>)
  next
    case (cleanup now s)
    then show ?thesis using couple_wl [OF clean_wl [OF cleanup(2)]] inv(3) by simp
  next
    case (connection i rxs txs s)
    then show ?thesis using connection_phase [OF inv(3)] by simp
  next
    case (src_insert e now q' l)
    then show ?thesis using inv(3) by (simp add: couple_def)
  qed (use inv(3) in simp_all)
qed

lemma proxy_inv_step:
  assumes "proxy_step host extended ttl n p q" "proxy_inv host n p"
  shows "proxy_inv host n q"
proof -
  have inv: "live_inv (ho p)" "num_workers (pool (ho p)) = n" using assms(2) by (simp_all add: proxy_inv_def)
  have "live_inv (ho q) \<and> num_workers (pool (ho q)) = n"
    using proxy_handoff [OF assms] inv handoff_step_inv args_written_step delay_ok_step handoff_step_workers
    by (auto simp: live_inv_def)
  moreover have "source_holds host (sph (so q))"
    using assms(1) by cases (use assms(2) source_keeps in \<open>auto simp: proxy_inv_def\<close>)
  ultimately show ?thesis using proxy_couple [OF assms] by (simp add: proxy_inv_def)
qed

interpretation to_handoff: simulation "proxy_step host extended ttl n" handoff_step "proxy_inv host n" ho
  for host extended ttl n
proof
  fix p q assume "proxy_inv host n p" "proxy_step host extended ttl n p q"
  then show "proxy_inv host n q" "handoff_step\<^sup>*\<^sup>* (ho p) (ho q)"
    using proxy_inv_step proxy_handoff by (blast, metis r_into_rtranclp rtranclp.rtrancl_refl)
qed

interpretation to_threads: simulation "proxy_step host extended ttl n" "sys_step host ttl n" "proxy_inv host n" sy
  for host extended ttl n
proof
  fix p q assume "proxy_inv host n p" "proxy_step host extended ttl n p q"
  then show "proxy_inv host n q" "(sys_step host ttl n)\<^sup>*\<^sup>* (sy p) (sy q)"
    using proxy_inv_step proxy_system by (blast, metis r_into_rtranclp rtranclp.rtrancl_refl)
qed

end
