(* ===== verification/Proxy_Receivers.thy ===== *)
theory Proxy_Receivers
  imports Proxy "HOL-Library.Multiset"
begin

text \<open>
  The receivers in the whole program of \<^theory_text>\<open>Proxy\<close>: where each of them is from \<open>accept\<close> until a worker serves it, as a
  multiset that no step changes, and whom a worker serves.
\<close>

section \<open>No receiver is lost\<close>

text \<open>A receiver in the hands of the server, from \<open>accept\<close> to the signal; in those of a worker that has not resumed yet.\<close>

definition at_server :: "handoff \<Rightarrow> (int \<times> timespec) multiset" where
  "at_server h = (if stage_of h \<in> {Accepting, Unlocking} then {#} else {#(new_fd h, new_ts h)#})"

definition at_worker :: "handoff \<Rightarrow> nat \<Rightarrow> (int \<times> timespec) multiset" where
  "at_worker h i =
     (if pcs h i \<in> {Waiting, Checking} \<and> status_of h i = THREAD_BUSY \<and> stage_at h i \<in> {Accepting, Unlocking}
      then {#receiver_of (worker_at h i)#} else {#})"

definition underway :: "nat \<Rightarrow> handoff \<Rightarrow> (int \<times> timespec) multiset" where
  "underway n h = at_server h + (\<Sum>i<n. at_worker h i)"

lemma sum_at_worker:
  assumes "i < n" "\<And>j. j < n \<Longrightarrow> j \<noteq> i \<Longrightarrow> at_worker h' j = at_worker h j"
  shows "(\<Sum>j<n. at_worker h' j) + at_worker h i = (\<Sum>j<n. at_worker h j) + at_worker h' i"
proof -
  have "(\<Sum>j\<in>{..<n} - {i}. at_worker h' j) = (\<Sum>j\<in>{..<n} - {i}. at_worker h j)"
    by (rule sum.cong) (use assms(2) in auto)
  then show ?thesis using assms(1) by (simp add: sum.remove [of "{..<n}" i])
qed

text \<open>A step of the server in terms of the worker it deals with.\<close>

lemma at_worker_other:
  assumes "server_step h h'" "live_inv h" "j < num_workers (pool h)" "j \<noteq> idx h'" "stage_of h \<noteq> Creating"
    "stage_at h j = Accepting"
  shows "at_worker h' j = at_worker h j"
  using others_keep [of Srv h h' j] assms by (simp add: at_worker_def stage_at_def)

lemma busy_bit:
  "live_inv h \<Longrightarrow> i < num_workers (pool h) \<Longrightarrow> at_worker h i \<noteq> {#} \<Longrightarrow> bit_of h i"
  using live_ok [of h i] by (auto simp: at_worker_def worker_ok.simps const_defs split: if_splits)

lemma searching_underway:
  assumes "server_step h h'" "live_inv h" "num_workers (pool h) = n" "stage_of h \<in> {Accepting, Searching, Delay_Overflow}"
  shows "(\<Sum>j<n. at_worker h' j) = (\<Sum>j<n. at_worker h j)"
proof (rule sum.cong [OF refl])
  fix j assume "j \<in> {..<n}"
  then have j: "j < num_workers (pool h)" using assms(3) by simp
  note st = searching_step [OF assms(1,4)]
  show "at_worker h' j = at_worker h j"
  proof (cases "stage_of h' \<in> {Searching, Delay_Overflow}")
    case True
    with st(1,2) assms(4) show ?thesis by (auto simp: at_worker_def stage_at_def)
  next
    case False
    with st(5) have h': "h' = h\<lparr>stage_of := Found, backoff := INITIAL_DELAY\<rparr>" "stage_of h = Searching"
      "is_set (threads_status (pool h)) (int (idx h)) = Inr False" by auto
    show ?thesis
    proof (cases "j = idx h")
      case True
      have "j < 32" using assms(2) j by (auto simp: live_inv_def handoff_inv_def)
      then have "\<not> bit_of h j" using h'(3) True is_set_bit_of [of h j False] by simp
      then have "at_worker h j = {#}" using busy_bit [OF assms(2) j] by blast
      with h' True show ?thesis by (simp add: at_worker_def stage_at_def)
    qed (use h' in \<open>simp add: at_worker_def stage_at_def\<close>)
  qed
qed

lemma handing_underway:
  assumes "server_step h h'" "live_inv h" "stage_of h \<notin> {Accepting, Searching, Delay_Overflow, Creating}"
  shows "at_server h' + at_worker h' (idx h) = at_server h + at_worker h (idx h)"
proof -
  have i: "idx h < length (workers (pool h))" "idx h < 32" using live_bounds [OF assms(2)] assms(3) by auto
  have ok: "worker_ok (pcs h (idx h)) (stage_of h) (status_of h (idx h)) (bit_of h (idx h)) (arg_lock h (idx h))
     (signalled h (idx h))" using writes_ok [OF assms(2)] assms(3) by simp
  have aw: "args_written h" using assms(2) by (simp add: live_inv_def)
  from assms(1,3) show ?thesis
  proof cases
    case signal
    with ok have "pcs h (idx h) = Waiting \<and> status_of h (idx h) = THREAD_BUSY"
      by (cases "pcs h (idx h)") (auto simp: worker_ok.simps)
    with signal aw show ?thesis
      by (simp add: at_server_def at_worker_def stage_at_def args_written_def receiver_of_def)
  next
    case switch_default
    with ok worker_ok_server(3) show ?thesis by fastforce
  next
    case assert_fails
    with ok worker_ok_server(8) show ?thesis by fastforce
  qed (use i in \<open>simp_all add: at_server_def at_worker_def stage_at_def\<close>)
qed

lemma exchange:
  fixes a :: "'a multiset"
  assumes "a' + w' = a + w" "s' + w = s + w'"
  shows "a' + s' = a + s"
proof -
  have "(a' + s') + (w + w') = (a' + w') + (s' + w)" by (simp add: ac_simps)
  also have "\<dots> = (a + s) + (w + w')" by (simp add: assms ac_simps)
  finally show ?thesis by simp
qed

lemma server_underway:
  assumes "server_step h h'" "live_inv h" "num_workers (pool h) = n" "stage_of h \<notin> {Accepting, Creating}"
  shows "underway n h' = underway n h"
proof (cases "stage_of h \<in> {Searching, Delay_Overflow}")
  case True
  with searching_step(5) [OF assms(1)] server_keeps [OF assms(1)] searching_underway [OF assms(1-3)]
  show ?thesis by (auto simp: underway_def at_server_def)
next
  case False
  with assms(4) have st: "stage_of h \<notin> {Accepting, Searching, Delay_Overflow, Creating}" by simp
  have i: "idx h < n" "idx h < 32" using live_bounds [OF assms(2)] st assms(3) by auto
  have "length (workers (pool h)) = num_workers (pool h)" using assms(2) by (simp add: live_inv_def handoff_inv_def)
  then have "idx h' = idx h" using server_step_frame(3) [OF assms(1) _ i(2)] st by simp
  then have "at_worker h' j = at_worker h j" if "j < n" "j \<noteq> idx h" for j
    using at_worker_other [OF assms(1,2)] that assms(3) st by (simp add: stage_at_def)
  then have "(\<Sum>j<n. at_worker h' j) + at_worker h (idx h) = (\<Sum>j<n. at_worker h j) + at_worker h' (idx h)"
    by (rule sum_at_worker [OF i(1)])
  then show ?thesis
    unfolding underway_def by (rule exchange [OF handing_underway [OF assms(1,2) st]])
qed


lemma create_underway:
  assumes "server_step h h'" "live_inv h" "num_workers (pool h) = n" "stage_of h = Creating"
  shows "underway n h = add_mset (receiver_of (worker_at h (idx h))) (underway n h')"
proof -
  have h': "h' = h\<lparr>stage_of := Accepting, pcs := (pcs h)(idx h := Serving)\<rparr>"
    by (rule server_creates [OF assms(1,4)])
  have "at_worker h' j = at_worker h j" for j
    using h' assms(4) by (simp add: at_worker_def stage_at_def)
  moreover have "args_written h" using assms(2) by (simp add: live_inv_def)
  ultimately show ?thesis
    using assms(4) h' by (simp add: underway_def at_server_def args_written_def receiver_of_def)
qed

lemma worker_elsewhere:
  assumes "worker_step i h h'" "live_inv h" "i < num_workers (pool h)"
  shows "at_server h' = at_server h" "j < num_workers (pool h) \<Longrightarrow> j \<noteq> i \<Longrightarrow> at_worker h' j = at_worker h j"
proof -
  note keeps = worker_keeps [OF assms(1)]
  show "at_server h' = at_server h" using keeps by (simp add: at_server_def)
  assume j: "j < num_workers (pool h)" "j \<noteq> i"
  have l: "length (workers (pool h)) = num_workers (pool h)" "i < 32"
    using assms(2,3) by (auto simp: live_inv_def handoff_inv_def)
  have "worker_at h' j = worker_at h j"
    using assms(1) j l by cases (auto simp: set_busy_bit_Inr)
  then show "at_worker h' j = at_worker h j" using keeps j(2) by (simp add: at_worker_def stage_at_def)
qed

lemma protocol_at_worker:
  assumes "worker_step i h h'" "live_inv h" "i < num_workers (pool h)"
    and "\<not> (pcs h i = Checking \<and> status_of h i = THREAD_BUSY)"
  shows "at_worker h' i = at_worker h i"
proof -
  have l: "i < length (workers (pool h))" "i < 32" using assms(2,3) by (auto simp: live_inv_def handoff_inv_def)
  note ok = live_ok [OF assms(2,3)]
  from assms(1) show ?thesis
  proof cases
    case (clear_bit p)
    with ok have "status_of h i \<noteq> THREAD_BUSY" by (simp add: worker_ok.simps const_defs)
    with clear_bit show ?thesis by (simp add: at_worker_def set_busy_bit_workers)
  qed (use assms(4) in \<open>simp_all add: at_worker_def stage_at_def\<close>)
qed

lemma protocol_underway:
  assumes "worker_step i h h'" "live_inv h" "i < num_workers (pool h)" "num_workers (pool h) = n"
    and "\<not> (pcs h i = Checking \<and> status_of h i = THREAD_BUSY)"
  shows "underway n h' = underway n h"
proof -
  have "at_worker h' j = at_worker h j" if "j < n" for j
    using worker_elsewhere(2) [OF assms(1-3)] protocol_at_worker [OF assms(1-3,5)] that assms(4) by (cases "j = i") auto
  then show ?thesis using worker_elsewhere(1) [OF assms(1-3)] by (simp add: underway_def)
qed

lemma resume_underway:
  assumes "worker_step i h h'" "live_inv h" "i < n" "num_workers (pool h) = n"
    and "pcs h i = Checking" "status_of h i = THREAD_BUSY"
  shows "underway n h = add_mset (receiver_of (worker_at h i)) (underway n h')"
proof -
  have i: "i < num_workers (pool h)" using assms(3,4) by simp
  have h': "h' = h\<lparr>pcs := (pcs h)(i := Serving), arg_lock := (arg_lock h)(i := None)\<rparr>"
    by (rule resume_step [OF assms(1,5,6)])
  have "stage_at h i = Accepting"
    using live_ok [OF assms(2) i] assms(5,6) by (simp add: worker_ok.simps const_defs)
  then have w: "at_worker h i = {#receiver_of (worker_at h i)#}" "at_worker h' i = {#}"
    using h' assms(5,6) by (simp_all add: at_worker_def)
  have "(\<Sum>j<n. at_worker h' j) + at_worker h i = (\<Sum>j<n. at_worker h j) + at_worker h' i"
    by (rule sum_at_worker [OF assms(3)]) (use worker_elsewhere(2) [OF assms(1,2) i] assms(4) in auto)
  with w worker_elsewhere(1) [OF assms(1,2) i] show ?thesis by (simp add: underway_def)
qed

lemma close_underway:
  assumes "worker_step i h h'" "live_inv h" "i < num_workers (pool h)" "num_workers (pool h) = n" "pcs h i = Serving"
  shows "underway n h' = underway n h"
  using protocol_underway [OF assms(1-4)] assms(5) by simp

definition conserved :: "nat \<Rightarrow> proxy \<Rightarrow> bool" where
  "conserved n p \<longleftrightarrow> mset (arrivals p) = mset (servings p) + underway n (ho p)"

lemma accept_underway:
  assumes "server_step h h'" "live_inv h" "num_workers (pool h) = n" "stage_of h = Accepting"
  shows "underway n h' = add_mset (new_fd h', new_ts h') (underway n h)"
proof -
  have "stage_of h' = Searching" using assms(1,4) by (auto elim: server_step.cases)
  with searching_underway [OF assms(1-3)] assms(4) show ?thesis by (simp add: underway_def at_server_def)
qed

lemma conserved_step:
  assumes "proxy_step host extended ttl n p q" "proxy_inv host n p" "conserved n p"
  shows "conserved n q"
proof -
  have inv: "live_inv (ho p)" "num_workers (pool (ho p)) = n" using assms(2) by (simp_all add: proxy_inv_def)
  from assms(1) show ?thesis
  proof cases
    case (dst_accept h)
    then show ?thesis using accept_underway [OF _ inv] assms(3) by (simp add: conserved_def)
  next
    case (dst_server h)
    then show ?thesis using server_underway [OF _ inv] assms(3) by (simp add: conserved_def)
  next
    case (dst_create h w cl s)
    then show ?thesis using create_underway [OF _ inv] assms(3) by (simp add: conserved_def)
  next
    case (hang_up i l s)
    from hang_up_step [OF assms(2) hang_up(2,3)] inv have c: "worker_step i (ho p) (ho q)" "i < num_workers (pool (ho p))"
      using hang_up(1) by simp_all
    have "underway n (ho q) = underway n (ho p)"
      by (rule close_underway [OF c(1) inv(1) c(2) inv(2)])
        (use couple_serving [of n "ho p" "sy p" i l] assms(2) hang_up(2,3) in \<open>simp add: proxy_inv_def\<close>)
    with hang_up(1) assms(3) show ?thesis by (simp add: conserved_def)
  next
    case (protocol i h)
    then show ?thesis using protocol_underway [OF protocol(5) inv(1) _ inv(2) protocol(4)] inv(2) assms(3)
      by (simp add: conserved_def)
  next
    case (resume i h w cl s)
    then show ?thesis using resume_underway [OF resume(5) inv(1) resume(2) inv(2) resume(3,4)] assms(3)
      by (simp add: conserved_def)
  qed (use assms(3) in \<open>simp_all add: conserved_def\<close>)
qed

section \<open>Who is served\<close>

definition served_by :: "nat \<Rightarrow> handoff \<Rightarrow> (int \<times> timespec) set \<Rightarrow> bool" where
  "served_by n h X \<longleftrightarrow> (\<forall>i<n. pcs h i = Serving \<longrightarrow> receiver_of (worker_at h i) \<in> X)"

lemma served_by_server:
  assumes "server_step h h'" "live_inv h" "num_workers (pool h) = n" "stage_of h \<noteq> Creating" "served_by n h X"
  shows "served_by n h' X"
  unfolding served_by_def
proof (intro allI impI)
  fix i assume i: "i < n" "pcs h' i = Serving"
  with server_pcs [OF assms(1,4)] have s: "pcs h i = Serving" by simp
  have n: "i < num_workers (pool h)" using i(1) assms(3) by simp
  have "stage_at h i = Accepting" using live_ok [OF assms(2) n] s by (simp add: worker_ok.simps)
  with others_keep [of Srv h h' i] assms(1,2) n have "worker_at h' i = worker_at h i" by simp
  with s i(1) assms(5) show "receiver_of (worker_at h' i) \<in> X" by (simp add: served_by_def)
qed

lemma served_by_worker:
  assumes "worker_step i h h'" "n \<le> length (workers (pool h))" "served_by n h X"
    and "pcs h' i = Serving \<longrightarrow> receiver_of (worker_at h i) \<in> X"
  shows "served_by n h' X"
  unfolding served_by_def
proof (intro allI impI)
  fix j assume j: "j < n" "pcs h' j = Serving"
  have "receiver_of (worker_at h' j) = receiver_of (worker_at h j)"
    using worker_args_kept [OF assms(1)] j(1) assms(2) by (simp add: receiver_of_def)
  with j assms(3,4) worker_keeps [OF assms(1)] show "receiver_of (worker_at h' j) \<in> X"
    by (cases "j = i") (auto simp: served_by_def)
qed

lemma served_by_mono: "served_by n h X \<Longrightarrow> X \<subseteq> Y \<Longrightarrow> served_by n h Y"
  by (auto simp: served_by_def)

lemma served_by_step:
  assumes "proxy_step host extended ttl n p q" "proxy_inv host n p" "served_by n (ho p) (set (servings p))"
  shows "served_by n (ho q) (set (servings q))"
proof -
  have inv: "live_inv (ho p)" "num_workers (pool (ho p)) = n" using assms(2) by (simp_all add: proxy_inv_def)
  then have l: "n \<le> length (workers (pool (ho p)))" by (simp add: live_inv_def handoff_inv_def)
  from assms(1) show ?thesis
  proof cases
    case (dst_accept h)
    then show ?thesis using served_by_server [OF _ inv] assms(3) by simp
  next
    case (dst_server h)
    then show ?thesis using served_by_server [OF _ inv] assms(3) by simp
  next
    case (dst_create h w cl s)
    with assms(3) server_creates [OF dst_create(3,2)] show ?thesis by (auto simp: served_by_def)
  next
    case (hang_up i l s)
    with assms(3) show ?thesis by (simp add: served_by_def)
  next
    case (protocol i h)
    then show ?thesis
      using served_by_worker [OF protocol(5) l assms(3)] protocol_pcs [OF protocol(5,3,4)] by simp
  next
    case (resume i h w cl s)
    then show ?thesis
      using served_by_worker [OF resume(5) l served_by_mono [OF assms(3)], of "set (servings q)"] by auto
  qed (use assms(3) in simp_all)
qed

end
