(* ===== verification/Proxy_Published.thy ===== *)
theory Proxy_Published
  imports Proxy
begin

text \<open>
  What the source server publishes in the whole program of \<^theory_text>\<open>Proxy\<close>, step by step: the messages that its
  connections carry, in order.
\<close>

section \<open>What has been published\<close>

text \<open>The messages a connection carries, and those the source server has read or is still to read of the present one.\<close>

definition carried :: "endian \<Rightarrow> bool \<Rightarrow> rx_event list \<Rightarrow> ctmp_msg list" where
  "carried host extended evs = deframe host (accepted host extended) (stream_bytes evs)"

definition in_source :: "sphase \<Rightarrow> ctmp_msg list" where
  "in_source ps = (case ps of S_Init m \<Rightarrow> [m] | S_Insert e \<Rightarrow> [the (msg e)] | _ \<Rightarrow> [])"

definition to_read :: "endian \<Rightarrow> bool \<Rightarrow> slocal \<Rightarrow> ctmp_msg list" where
  "to_read host extended l = (if sph l = S_Accept then [] else carried host extended (rx (ssrc l)))"

definition script_size :: "rx_event list list \<Rightarrow> nat" where
  "script_size U = sum_list (map evs_size U)"

text \<open>The connections are clean and there is memory for what they carry.\<close>

definition benign :: "nat \<Rightarrow> rx_event list list \<Rightarrow> bool" where
  "benign b U \<longleftrightarrow> (\<forall>evs \<in> set U. clean evs) \<and> 4 * script_size U \<le> b"

lemma benign_append: "benign b (U @ [evs]) \<Longrightarrow> benign b U \<and> clean evs"
  by (simp add: benign_def script_size_def)

text \<open>What the source server has left to allocate is enough for what is left to read.\<close>

definition source_rest :: "nat \<Rightarrow> rx_event list list \<Rightarrow> slocal \<Rightarrow> bool" where
  "source_rest b U l \<longleftrightarrow>
     (sph l \<noteq> S_Accept \<longrightarrow> clean (rx (ssrc l))) \<and>
     (sph l = S_Parse \<longrightarrow> is_alive (rx (ssrc l))) \<and>
     b + (if sph l = S_Accept then 0 else 4 * evs_size (rx (ssrc l))) + (case sph l of S_Init m \<Rightarrow> 2 | _ \<Rightarrow> 0)
       \<le> budget (ssrc l) + 4 * script_size U"

definition source_inv :: "endian \<Rightarrow> bool \<Rightarrow> nat \<Rightarrow> rx_event list list \<Rightarrow> ctmp_msg list \<Rightarrow> slocal \<Rightarrow> bool" where
  "source_inv host extended b U ms l \<longleftrightarrow> source_rest b U l \<and>
     concat (map (carried host extended) U) = ms @ in_source (sph l) @ to_read host extended l"

lemma deframe_step:
  "deframe host acc bs = (case fst (frame_step host acc bs) of None \<Rightarrow> [] | Some m \<Rightarrow> [m]) @
     deframe host acc (snd (frame_step host acc bs))"
proof (cases "bs = []")
  case True
  then show ?thesis by (simp add: frame_step_def HEADER_LENGTH_def deframe.simps [of _ _ "[]"])
next
  case False
  then show ?thesis by (subst deframe.simps) simp
qed

lemma carried_dead: "\<not> is_alive evs \<Longrightarrow> carried host extended evs = []"
  using stream_bytes_dead by (simp add: carried_def deframe.simps [of _ _ "[]"])

lemma alive_size: "is_alive evs \<Longrightarrow> 0 < evs_size evs"
  by (cases evs) simp_all

text \<open>One parse of a clean connection takes one message, or none, off what is left to read.\<close>

lemma parse_carried:
  assumes "ctmp_parse_func host extended s = Inr (r, s')" "clean (rx s)" "2 \<le> budget s"
  shows "clean (rx s') \<and> carried host extended (rx s) =
    (case r of None \<Rightarrow> [] | Some m \<Rightarrow> [m]) @ carried host extended (rx s')"
proof -
  let ?acc = "accepted host extended"
  obtain s1 where "ctmp_parse_func host extended s = Inr (fst (frame_step host ?acc (stream_bytes (rx s))), s1)"
      "stream_bytes (rx s1) = snd (frame_step host ?acc (stream_bytes (rx s)))" "clean (rx s1)"
    using selected.parse_step [OF assms(3,2)] by blast
  with assms(1) deframe_step [of host ?acc "stream_bytes (rx s)"] show ?thesis by (simp add: carried_def)
qed

lemma source_inv_parse:
  assumes "source_inv host extended b U ms l" "benign b U" "sph l = S_Parse"
    and "ctmp_parse_func host extended (ssrc l) = Inr (r, s)"
  shows "source_inv host extended b U ms (l\<lparr>ssrc := s, sph := (case r of Some m \<Rightarrow> S_Init m | None \<Rightarrow> S_Alive)\<rparr>)"
proof -
  have l: "clean (rx (ssrc l))" "is_alive (rx (ssrc l))"
      "b + 4 * evs_size (rx (ssrc l)) \<le> budget (ssrc l) + 4 * script_size U"
      "concat (map (carried host extended) U) = ms @ carried host extended (rx (ssrc l))"
    using assms(1,3) by (simp_all add: source_inv_def source_rest_def to_read_def in_source_def)
  have "4 * script_size U \<le> b" using assms(2) by (simp add: benign_def)
  with l(3) alive_size [OF l(2)] have "2 \<le> budget (ssrc l)" by linarith
  from parse_carried [OF assms(4) l(1) this] have c: "clean (rx s)" "carried host extended (rx (ssrc l)) =
      (case r of None \<Rightarrow> [] | Some m \<Rightarrow> [m]) @ carried host extended (rx s)" by blast+
  have "evs_size (rx s) < evs_size (rx (ssrc l))" by (rule selected.parse_progress [OF l(2) assms(4)])
  moreover have "budget (ssrc l) \<le> budget s + 2" using selected.parse_heap [OF assms(4)] by simp
  ultimately have "b + 4 * evs_size (rx s) + 2 \<le> budget s + 4 * script_size U" using l(3) by linarith
  with c l(4) show ?thesis
    by (cases r) (simp_all add: source_inv_def source_rest_def to_read_def in_source_def)
qed

lemma source_inv_init:
  assumes "source_inv host extended b U ms l" "sph l = S_Init m" "init_msg_entry now m (ssrc l) = Inr (e, s)"
  shows "source_inv host extended b U ms (l\<lparr>ssrc := s, sph := S_Insert e\<rparr>)"
proof -
  have s: "s = alloc (alloc (ssrc l))" "e = \<lparr>timestamp = now, msg = Some m, sent = Some 0\<rparr>" "2 \<le> budget (ssrc l)"
    using assms(3) by (simp_all add: init_msg_entry_Inr)
  with assms(1,2) show ?thesis
    by (auto simp: source_inv_def source_rest_def to_read_def in_source_def)
qed

lemma source_inv_accept:
  assumes "source_inv host extended b U ms l" "sph l = S_Accept" "clean evs"
  shows "source_inv host extended b (U @ [evs]) ms (l\<lparr>ssrc := (ssrc l)\<lparr>rx := evs\<rparr>, sph := S_Alive\<rparr>)"
  using assms
  by (simp add: source_inv_def source_rest_def to_read_def in_source_def script_size_def)

lemma source_inv_alive:
  assumes "source_inv host extended b U ms l" "sph l = S_Alive"
  shows "source_inv host extended b U ms (l\<lparr>sph := (if is_alive (rx (ssrc l)) then S_Parse else S_Accept)\<rparr>)"
  using assms carried_dead
  by (auto simp: source_inv_def source_rest_def to_read_def in_source_def)

lemma source_inv_insert:
  assumes "source_inv host extended b U ms l" "sph l = S_Insert e"
  shows "source_inv host extended b U (ms @ [the (msg e)]) (l\<lparr>sph := S_Alive\<rparr>)"
  using assms by (simp add: source_inv_def source_rest_def to_read_def in_source_def)

lemma source_inv_read:
  assumes "source_inv host extended b U ms l" "benign b U" "sph l \<noteq> S_Accept" "\<forall>e. sph l \<noteq> S_Insert e"
    and "sstep (ctmp_parse_func host extended) conn now q l = Inr (q', l')"
  shows "source_inv host extended b U ms l'"
proof (cases "sph l")
  case S_Alive
  with assms(5) source_inv_alive [OF assms(1)] show ?thesis by (simp add: sstep_def)
next
  case S_Parse
  with assms(5) obtain r s where "ctmp_parse_func host extended (ssrc l) = Inr (r, s)"
      "l' = l\<lparr>ssrc := s, sph := (case r of Some m \<Rightarrow> S_Init m | None \<Rightarrow> S_Alive)\<rparr>"
    by (auto simp: sstep_def fault_simps)
  with source_inv_parse [OF assms(1,2) S_Parse] show ?thesis by simp
next
  case (S_Init m)
  with assms(5) obtain e s where "init_msg_entry now m (ssrc l) = Inr (e, s)" "l' = l\<lparr>ssrc := s, sph := S_Insert e\<rparr>"
    by (auto simp: sstep_def fault_simps)
  with source_inv_init [OF assms(1) S_Init] show ?thesis by simp
qed (use assms(3,4) in simp_all)

text \<open>The invariant of the whole program, for connections that are benign.\<close>

definition published_inv :: "endian \<Rightarrow> bool \<Rightarrow> nat \<Rightarrow> proxy \<Rightarrow> bool" where
  "published_inv host extended b p \<longleftrightarrow>
     (benign b (uplinks p) \<longrightarrow> source_inv host extended b (uplinks p) (map snd (hist (sy p))) (so p))"

lemma hist_elsewhere:
  "perform ttl a s = Inr t \<Longrightarrow> (\<forall>ts m. a \<noteq> Publish ts m) \<Longrightarrow> hist t = hist s"
  by (cases a) (auto simp: fault_simps set_worker_def join_def split: option.splits)

lemma published_inv_step:
  assumes "proxy_step host extended ttl n p q" "published_inv host extended b p"
  shows "published_inv host extended b q"
  using assms(1)
proof cases
  case (src_accept evs now q' l)
  then have "l = (so p)\<lparr>ssrc := (ssrc (so p))\<lparr>rx := evs\<rparr>, sph := S_Alive\<rparr>" by (simp add: sstep_def)
  with src_accept assms(2) source_inv_accept benign_append show ?thesis
    by (fastforce simp: published_inv_def)
next
  case (src_read now q' l)
  then show ?thesis using assms(2) source_inv_read by (simp add: published_inv_def) blast
next
  case (src_insert e now q' l)
  then have "l = (so p)\<lparr>sph := S_Alive\<rparr>" by (simp add: sstep_def)
  with src_insert assms(2) source_inv_insert show ?thesis by (simp add: published_inv_def)
qed (use assms(2) hist_elsewhere in \<open>fastforce simp: published_inv_def\<close>)+

end
