(* ===== verification/Relay_Results.thy ===== *)
theory Relay_Results
  imports Relay_Spec
begin

text \<open>
  The properties of the threads of \<^theory_text>\<open>Relay_System\<close> together, each with an instance on a concrete schedule:
  what receivers are sent, when workers fault, and the schedules on which the program goes wrong.
\<close>

section \<open>Concrete schedules\<close>

definition quiet_client :: client where
  "quiet_client = \<lparr>crx = [Pending], tx = [], wire = []\<rparr>"

text \<open>A message that arrives at second 5 and a receiver that connected at second 3, while it is sent the message.\<close>

definition demo_run :: "action list" where
  "demo_run = [Publish (t_sec 5) sample_msg, Create 0 quiet_client (t_sec 3)] @ replicate 5 (Work 0)"

lemmas run_simps =
  wstep_def cstep_def entry_at_def entry_ptr_def get_msg_entry_def wait_until_def TAILQ_FIRST_def
  TAILQ_NEXT_def TAILQ_INSERT_TAIL_def set_worker_def join_def assign_def init_local_def init_cleanup_def
  init_system_def new_entry_def msg_locked_def set_sent_def is_sent_def free_msg_data_def

lemma first_flag [simp]: "is_set 0 0 = Inr False" "set_bit_mask 0 0 True = Inr 1" "set_bit_mask 1 0 False = Inr 0"
  "set_bit_mask 0 0 False = Inr 0"
  by code_simp+

text \<open>The state after a schedule that can be run.\<close>

definition demo_after :: "action list \<Rightarrow> system" where
  "demo_after as =
     (case run_schedule Little 5 1 as init_system of Some (Inr s) \<Rightarrow> s | _ \<Rightarrow> init_system)"

lemma demo_after_reachable: "sys_reachable Little 5 1 (demo_after as)"
  by (auto simp: demo_after_def split: option.split sum.split intro: run_schedule_steps)

lemma replicate_4_5: "replicate 4 x = [x, x, x, x]" "replicate 5 x = [x, x, x, x, x]"
  by (simp_all add: numeral_eq_Suc)

lemma healthy_quiet: "healthy quiet_client" "wire quiet_client = []"
  by (simp_all add: healthy_def quiet_client_def tx_clean_def)

lemmas demo_simps = demo_after_def demo_run_def quiet_client_def t_sec_def send_msg_idle wf_sample_msg
  compare_times_def replicate_4_5 run_simps

text \<open>
  The worker before it takes the message, while it sends it, after it has sent it, and when the message is
  freed while it sends it.
\<close>

lemma demo_before: "demo_after [Publish (t_sec 5) sample_msg, Create 0 quiet_client (t_sec 3)] =
  \<lparr>sq = [new_entry (t_sec 5) sample_msg], wl = (\<lambda>_. None)(0 := Some (init_local quiet_client (t_sec 3))),
   kl = init_cleanup, hist = [(t_sec 5, sample_msg)], jpos = (\<lambda>_. 0), jbase = (\<lambda>_. [])\<rparr>"
  by (simp add: demo_simps fun_upd_idem)

lemma demo_sending: "demo_after demo_run =
  \<lparr>sq = [new_entry (t_sec 5) sample_msg],
   wl = (\<lambda>_. None)(0 := Some \<lparr>ph = P_Data sample_msg, cur = Some 0, prv = None, nxt = None, bsent = 0,
     wcl = quiet_client\<lparr>wire := header sample_msg\<rparr>, wts = t_sec 3\<rparr>),
   kl = init_cleanup, hist = [(t_sec 5, sample_msg)], jpos = (\<lambda>_. 0), jbase = (\<lambda>_. [])\<rparr>"
  by (simp add: demo_simps fun_upd_idem)

lemma demo_done: "demo_after (demo_run @ replicate 4 (Work 0)) =
  \<lparr>sq = [(new_entry (t_sec 5) sample_msg)\<lparr>sent := Some 1\<rparr>],
   wl = (\<lambda>_. None)(0 := Some \<lparr>ph = P_Get, cur = None, prv = Some 0, nxt = None, bsent = 0,
     wcl = quiet_client\<lparr>wire := [0xCC, 0, 0, 2, 0, 0, 0, 0, 7, 9]\<rparr>, wts = t_sec 3\<rparr>),
   kl = init_cleanup, hist = [(t_sec 5, sample_msg)], jpos = (\<lambda>_. 0), jbase = (\<lambda>_. [])\<rparr>"
  by (simp add: demo_simps fun_upd_idem sample_msg_def wf_sample_msg [unfolded sample_msg_def])

lemma demo_freed: "demo_after (demo_run @ replicate 4 (Clean (t_sec 99))) =
  \<lparr>sq = [\<lparr>timestamp = t_sec 5, msg = None, sent = None\<rparr>],
   wl = (\<lambda>_. None)(0 := Some \<lparr>ph = P_Data sample_msg, cur = Some 0, prv = None, nxt = None, bsent = 0,
     wcl = quiet_client\<lparr>wire := header sample_msg\<rparr>, wts = t_sec 3\<rparr>),
   kl = \<lparr>kph = C_Next, kcur = Some 0, kprv = None\<rparr>,
   hist = [(t_sec 5, sample_msg)], jpos = (\<lambda>_. 0), jbase = (\<lambda>_. [])\<rparr>"
  by (simp add: demo_simps fun_upd_idem expired_def add_secs_def)

lemma reachable_slot:
  assumes "sys_reachable host ttl n s" "n \<le> 32" "wl s i = Some l"
  shows "i < n" "flag_pos (int i)" "hist_ok host (hist s) (sq s)" "length (hist s) = length (sq s)"
    "worker_inv (ph l) (hist s) (sq s) (int i) (jpos s i) (jbase s i) l"
proof -
  have inv: "sys_inv host n s" by (rule reachable_sys_inv [OF assms(1,2)])
  then have "slot_inv n s i" by (simp add: sys_inv_def)
  with assms(2,3) show "i < n" "flag_pos (int i)"
    "worker_inv (ph l) (hist s) (sq s) (int i) (jpos s i) (jbase s i) l"
    by (auto simp: slot_inv_def flag_pos_def)
  show "hist_ok host (hist s) (sq s)" "length (hist s) = length (sq s)"
    using inv sys_inv_length by (auto simp: sys_inv_def)
qed

lemma worker_inv_pointers:
  assumes "worker_inv P H q i k0 w0 l" "cur l = Some c \<or> prv l = Some c \<and> P = P_Get \<or> nxt l = Some c"
  shows "c < length q"
  using assms by (cases P) (auto simp: cursor_in_def on_entry_def on_leaving_def)

section \<open>Properties\<close>

text \<open>
  Property C7. In every interleaving of the source server, all workers with any number of successive
  receivers, the cleanup worker and changes of the connections, every receiver has at every moment been
  sent, in order and without gaps or repetitions, the messages it is entitled to from the position at
  which it joined, and possibly a first part of one more.
\<close>

theorem receivers_stream:
  assumes "sys_reachable host ttl n s" and "n \<le> 32" and "wl s i = Some l"
  shows "\<exists>k u. jpos s i \<le> k \<and> k \<le> length (hist s) \<and>
    prefix u (entitled (hist s) (wts l) k (Suc k)) \<and>
    wire (wcl l) = jbase s i @ entitled (hist s) (wts l) (jpos s i) k @ u"
  by (rule slot_stream [OF reachable_sys_inv [OF assms(1,2)] assms(3)])

theorem receivers_stream_witness:
  "\<exists>k u. k \<le> 1 \<and> prefix u (entitled [(t_sec 5, sample_msg)] (t_sec 3) k (Suc k)) \<and>
    header sample_msg = entitled [(t_sec 5, sample_msg)] (t_sec 3) 0 k @ u"
  using receivers_stream [OF demo_after_reachable [of demo_run], of 0] by (simp add: demo_sending quiet_client_def)

text \<open>
  Property C9. A worker that waits for the next message has sent its receiver everything the receiver is
  entitled to from the position at which it joined, whatever the other threads have done.
\<close>

theorem waiting_worker_is_up_to_date:
  assumes "sys_reachable host ttl n s" and "n \<le> 32" and "wl s i = Some l" and "ph l = P_Get"
    and "wstep (int i) (sq s) l = Inl Would_Block"
  shows "wire (wcl l) = jbase s i @ entitled (hist s) (wts l) (jpos s i) (length (hist s))"
proof -
  note r = reachable_slot [OF assms(1-3)]
  have "gpos l = length (sq s)"
    using wstep_fault [OF r(3,2,5) assms(5)] assms(4) by simp
  with r(4,5) assms(4) show ?thesis by (simp add: stands_def)
qed

theorem waiting_worker_is_up_to_date_witness:
  "[0xCC, 0, 0, 2, 0, 0, 0, 0, 7, 9] = entitled [(t_sec 5, sample_msg)] (t_sec 3) 0 1"
  using waiting_worker_is_up_to_date [OF demo_after_reachable [of "demo_run @ replicate 4 (Work 0)"], of 0]
  by (simp add: demo_done quiet_client_def wstep_def get_msg_entry_def wait_until_def TAILQ_NEXT_def)

text \<open>
  While the entries from its position on are not freed, a worker whose receiver is alive and
  accepts data can bring it up to date by its own steps alone, from the top of its loop in any state the
  system can be in.
\<close>

lemma receiver_can_catch_up:
  assumes "sys_reachable host ttl n s" and "n \<le> 32" and "wl s i = Some l" and "ph l = P_Get"
    and "\<not> msg_locked s" and "healthy (wcl l)" and "\<not> bsent l < 0" and "rest_intact (gpos l) (sq s)"
  shows "\<exists>t l'. (sys_step host ttl n)\<^sup>*\<^sup>* s t \<and> wl t i = Some l' \<and> hist t = hist s \<and>
    wire (wcl l') = jbase s i @ entitled (hist s) (wts l) (jpos s i) (length (hist s))"
  by (rule catch_up [OF assms(2) reachable_sys_inv [OF assms(1,2)] assms(3-8)])

lemma receiver_can_catch_up_witness:
  "\<exists>t l. sys_reachable Little 5 1 t \<and> wl t 0 = Some l \<and> wire (wcl l) = [0xCC, 0, 0, 2, 0, 0, 0, 0, 7, 9]"
proof -
  let ?s = "demo_after [Publish (t_sec 5) sample_msg, Create 0 quiet_client (t_sec 3)]"
  have "t_sec 3 < t_sec 5" by (simp add: compare_times_iff_less [symmetric] compare_times_def t_sec_def)
  then have e: "entitled [(t_sec 5, sample_msg)] (t_sec 3) 0 (Suc 0) = msg_bytes sample_msg"
    by (simp add: entitled_Suc)
  obtain t l where "(sys_step Little 5 1)\<^sup>*\<^sup>* ?s t" "wl t 0 = Some l"
      "wire (wcl l) = [] @ msg_bytes sample_msg"
    using receiver_can_catch_up [OF demo_after_reachable, of
        "[Publish (t_sec 5) sample_msg, Create 0 quiet_client (t_sec 3)]" 0] e
    by (auto simp: demo_before init_local_def msg_locked_def init_cleanup_def healthy_quiet
        rest_intact_def new_entry_def)
  with rtranclp_trans [OF demo_after_reachable] msg_bytes_sample show ?thesis by fastforce
qed

text \<open>
  Property C8. The system of threads refines the abstract relay: every run is, as far as the log and what
  the receivers have been sent is concerned, a run of a relay that appends messages, serves each receiver
  from one position of the log on, and sends each the next bytes of its stream.
\<close>

theorem system_refines_relay:
  assumes "sys_reachable host ttl n s" and "n \<le> 32"
  shows "relay_step\<^sup>*\<^sup>* (relay_of init_system) (relay_of s)"
  using relay_sim.simulated [OF assms(1)] assms(2) sys_inv_init by blast

theorem system_refines_relay_witness:
  "relay_step\<^sup>*\<^sup>* \<lparr>log = [], recv = (\<lambda>_. None)\<rparr>
    \<lparr>log = [(t_sec 5, sample_msg)], recv = (\<lambda>_. None)(0 := Some
      \<lparr>r_ts = t_sec 3, r_from = 0, r_out = [0xCC, 0, 0, 2, 0, 0, 0, 0]\<rparr>)\<rparr>"
proof -
  have "relay_of init_system = \<lparr>log = [], recv = (\<lambda>_. None)\<rparr>"
    by (simp add: relay_of_def init_system_def)
  moreover have "relay_of (demo_after demo_run) = \<lparr>log = [(t_sec 5, sample_msg)], recv = (\<lambda>_. None)(0 := Some
      \<lparr>r_ts = t_sec 3, r_from = 0, r_out = [0xCC, 0, 0, 2, 0, 0, 0, 0]\<rparr>)\<rparr>"
    by (auto simp: relay_of_def demo_sending fun_eq_iff quiet_client_def sample_msg_def)
  ultimately show ?thesis using system_refines_relay [OF demo_after_reachable [of demo_run]] by simp
qed

text \<open>
  Property C10. In every interleaving a worker stops for three reasons only: it waits for a message, it waits
  for a receiver, or it uses the data of an entry that the cleanup worker has freed. In particular it
  never leaves the queue and never uses an undefined shift, and without expired entries it never faults.
\<close>

theorem worker_faults_only_on_freed_data:
  assumes "sys_reachable host ttl n s" and "n \<le> 32" and "wl s i = Some l"
    and "wstep (int i) (sq s) l = Inl f"
  shows "f = Would_Block \<and> (ph l = P_Wait \<or> ph l = P_Get \<and> gpos l = length (sq s)) \<or>
    f \<in> {Null_Deref, Use_After_Free} \<and> uses_data (ph l) \<and>
    (\<exists>c. cur l = Some c \<and> c < length (sq s) \<and> sent (sq s ! c) = None)"
  by (rule wstep_fault [OF reachable_slot(3,2,5) [OF assms(1-3)] assms(4)])

theorem worker_faults_only_on_freed_data_witness:
  "\<exists>l. wl (demo_after (demo_run @ replicate 4 (Clean (t_sec 99)))) 0 = Some l \<and>
    (\<exists>c. cur l = Some c \<and> sent (sq (demo_after (demo_run @ replicate 4 (Clean (t_sec 99)))) ! c) = None)"
  using worker_faults_only_on_freed_data [OF demo_after_reachable [of "demo_run @ replicate 4 (Clean (t_sec 99))"], of 0]
  by (simp add: demo_freed wstep_def entry_at_def)

text \<open>
  Property C19. The state stays well-formed in every interleaving: every pointer of a worker and of the
  cleanup worker is to an entry of the queue, every entry holds the well-formed message it was created with
  or none, an entry without a message has no mask, and only workers that exist are in a mask.
\<close>

theorem reachable_well_formed:
  assumes "sys_reachable host ttl n s" and "n \<le> 32"
  shows "(\<forall>j < length (sq s). entry_ok host (hist s ! j) (sq s ! j) \<and>
      (\<forall>i. int i \<in> sent_flags (sq s ! j) \<longrightarrow> i < n \<and> wl s i \<noteq> None)) \<and>
    (\<forall>i l c. wl s i = Some l \<longrightarrow> (cur l = Some c \<or> prv l = Some c \<and> ph l = P_Get \<or> nxt l = Some c) \<longrightarrow> c < length (sq s)) \<and>
    (\<forall>c. kcur (kl s) = Some c \<or> kprv (kl s) = Some c \<longrightarrow> c < length (sq s))"
proof -
  have inv: "sys_inv host n s" by (rule reachable_sys_inv [OF assms])
  then have h: "hist_ok host (hist s) (sq s)" "cleanup_inv (sq s) (kl s)" and sl: "slot_inv n s i" for i
    by (simp_all add: sys_inv_def)
  have "i < n \<and> wl s i \<noteq> None" if "j < length (sq s)" "int i \<in> sent_flags (sq s ! j)" for i j
    using sl [of i] that by (auto simp: slot_inv_def unmarked_def split: option.splits)
  moreover have "c < length (sq s)"
    if l: "wl s i = Some l" "cur l = Some c \<or> prv l = Some c \<and> ph l = P_Get \<or> nxt l = Some c" for i l c
    using worker_inv_pointers [of "ph l" "hist s" "sq s" "int i" "jpos s i" "jbase s i" l c] sl [of i] l
    by (simp add: slot_inv_def)
  moreover have "c < length (sq s)" if "kcur (kl s) = Some c \<or> kprv (kl s) = Some c" for c
    using h(2) that by (auto simp: cleanup_inv_def kcursor_in_def)
  ultimately show ?thesis using hist_ok_at [OF h(1)] by blast
qed

theorem reachable_well_formed_witness:
  "entry_ok Little (hist (demo_after demo_run) ! 0) (sq (demo_after demo_run) ! 0)"
  using reachable_well_formed [OF demo_after_reachable [of demo_run]] by (simp add: demo_sending)

text \<open>
  Property C21. Freeing races with sending: for every message whose time to live passes while its worker has
  sent the header and not yet the data, there is an order of the steps in which the worker then uses the
  freed message, although it checked the entry before.
\<close>

theorem freed_while_sending:
  assumes "wf_msg host m" and "cts < ts" and "add_secs ts ttl < now" and "is_alive (crx cl)"
    and "send_msg (header m) cl = (0, cl')"
  shows "run_schedule host ttl 1
    ([Publish ts m, Create 0 cl cts] @ replicate 5 (Work 0) @ replicate 4 (Clean now) @ [Work 0])
    init_system = Some (Inl Use_After_Free)"
  using assms
  by (simp add: run_simps replicate_4_5 compare_times_iff_less expired_def)

theorem freed_while_sending_witness:
  "run_schedule Little 5 1
    ([Publish (t_sec 5) sample_msg, Create 0 quiet_client (t_sec 3)] @ replicate 5 (Work 0) @
      replicate 4 (Clean (t_sec 99)) @ [Work 0]) init_system = Some (Inl Use_After_Free)"
  by (rule freed_while_sending [OF wf_sample_msg, where cl' = "quiet_client\<lparr>wire := header sample_msg\<rparr>"])
    (simp_all add: compare_times_iff_less [symmetric] compare_times_def t_sec_def add_secs_def
      quiet_client_def send_msg_idle)

text \<open>What a worker's receiver is, as long as the worker is not given another.\<close>

lemma perform_same_receiver:
  assumes "allowed host n a s" "perform ttl a s = Inr t" "wl s i = Some l" "\<forall>cl ts. a \<noteq> Reassign i cl ts"
  shows "jpos t i = jpos s i \<and> jbase t i = jbase s i \<and> (\<exists>l'. wl t i = Some l' \<and> wts l' = wts l)"
proof (cases a)
  case (Reassign j cl ts)
  with assms show ?thesis using performed_Reassign [of host n j cl ts s ttl t]
    by (auto simp: set_worker_def join_def)
next
  case (Work j)
  with assms show ?thesis
    using performed_Work [of host n j s ttl t] wstep_wire by (fastforce simp: set_worker_def)
next
  case (Connection j rxs txs)
  with assms show ?thesis by (cases "wl s j") (auto simp: set_worker_def)
qed (use assms in \<open>auto simp: set_worker_def join_def fault_simps\<close>)

lemma run_same_receiver:
  assumes "run_schedule host ttl n as s = Some (Inr t)" "wl s i = Some l"
    and "\<forall>cl ts. Reassign i cl ts \<notin> set as"
  shows "jpos t i = jpos s i \<and> jbase t i = jbase s i \<and> (\<exists>l'. wl t i = Some l' \<and> wts l' = wts l)"
  using assms
proof (induction as arbitrary: s l)
  case (Cons a as)
  then obtain u where u: "allowed host n a s" "perform ttl a s = Inr u"
      "run_schedule host ttl n as u = Some (Inr t)"
    by (auto split: if_splits sum.splits)
  have "\<forall>cl ts. a \<noteq> Reassign i cl ts" using Cons.prems(3) by auto
  from perform_same_receiver [OF u(1,2) Cons.prems(2) this] obtain l1 where
    "jpos u i = jpos s i" "jbase u i = jbase s i" "wl u i = Some l1" "wts l1 = wts l" by blast
  with Cons.IH [OF u(3)] Cons.prems(3) show ?case by auto
qed simp

text \<open>
  Property C22. A receiver that had to wait for a worker is served from the place in the queue where the
  worker's former receiver left off, not from the moment it connected: whatever happens until the worker is
  given another receiver, it is sent nothing from before that place, although its time stamp may be
  earlier than those of messages there.
\<close>

theorem receiver_served_from_workers_place:
  assumes "sys_reachable host ttl n s" and "n \<le> 32" and "wl s i = Some l" and "ph l = P_Wait"
    and "run_schedule host ttl n (Reassign i cl ts # as) s = Some (Inr t)"
    and "\<forall>cl ts. Reassign i cl ts \<notin> set as"
  shows "\<exists>l' out. wl t i = Some l' \<and> wire (wcl l') = wire cl @ out \<and>
    prefix out (entitled (hist t) ts (npos l) (length (hist t)))"
proof -
  let ?s = "set_worker i (assign cl ts l) (join i (npos l) cl s)"
  have run: "run_schedule host ttl n as ?s = Some (Inr t)" using assms(3-5) by simp
  have w: "wl ?s i = Some (assign cl ts l)" "jpos ?s i = npos l" "jbase ?s i = wire cl" "wts (assign cl ts l) = ts"
    by (simp_all add: set_worker_def join_def assign_def)
  from run_same_receiver [OF run w(1) assms(6)] w obtain l' where
    l': "jpos t i = npos l" "jbase t i = wire cl" "wl t i = Some l'" "wts l' = ts" by auto
  have "sys_reachable host ttl n t"
    using rtranclp_trans [OF assms(1) run_schedule_steps [OF assms(5)]] .
  from slot_prefix [OF reachable_sys_inv [OF this assms(2)] l'(3)] l' show ?thesis by auto
qed

lemma replicate_3: "replicate 3 x = [x, x, x]"
  by (simp add: numeral_eq_Suc)

text \<open>
  The receiver of \<open>demo_run\<close> is sent the message; when the next message arrives its connection is gone, and
  the worker is given a receiver that connected at second 4, before either message.
\<close>

definition gone :: "action list" where
  "gone = demo_run @ replicate 4 (Work 0) @
     [Connection 0 [] [], Publish (t_sec 7) sample_msg] @ replicate 3 (Work 0)"

lemma demo_gone: "demo_after gone =
  \<lparr>sq = [(new_entry (t_sec 5) sample_msg)\<lparr>sent := Some 1\<rparr>, new_entry (t_sec 7) sample_msg],
   wl = (\<lambda>_. None)(0 := Some \<lparr>ph = P_Wait, cur = Some 1, prv = Some 0, nxt = None, bsent = 0,
     wcl = \<lparr>crx = [], tx = [], wire = [0xCC, 0, 0, 2, 0, 0, 0, 0, 7, 9]\<rparr>, wts = t_sec 3\<rparr>),
   kl = init_cleanup, hist = [(t_sec 5, sample_msg), (t_sec 7, sample_msg)], jpos = (\<lambda>_. 0), jbase = (\<lambda>_. [])\<rparr>"
  by (simp add: gone_def replicate_3 demo_simps fun_upd_idem sample_msg_def wf_sample_msg [unfolded sample_msg_def])

theorem receiver_served_from_workers_place_witness:
  "\<exists>t l'. run_schedule Little 5 1 (Reassign 0 quiet_client (t_sec 4) # replicate 3 (Work 0)) (demo_after gone) =
      Some (Inr t) \<and> map fst (hist t) = [t_sec 5, t_sec 7] \<and> wl t 0 = Some l' \<and>
    wstep 0 (sq t) l' = Inl Would_Block \<and> wire (wcl l') = []"
proof -
  let ?as = "replicate 3 (Work 0)"
  obtain t l' where t: "run_schedule Little 5 1 (Reassign 0 quiet_client (t_sec 4) # ?as) (demo_after gone) =
      Some (Inr t)" "hist t = hist (demo_after gone)" "wl t 0 = Some l'" "wstep 0 (sq t) l' = Inl Would_Block"
    unfolding demo_gone by (simp add: replicate_3 run_simps npos_def)
  have n: "npos \<lparr>ph = P_Wait, cur = Some 1, prv = Some 0, nxt = None, bsent = 0,
     wcl = \<lparr>crx = [], tx = [], wire = [0xCC, 0, 0, 2, 0, 0, 0, 0, 7, 9]\<rparr>, wts = t_sec 3\<rparr> = 2"
    by (simp add: npos_def)
  have "wire (wcl l') = []"
    using receiver_served_from_workers_place [OF demo_after_reachable [of gone] _ _ _ t(1)] t(2,3) n
    by (simp add: demo_gone healthy_quiet)
  with t show ?thesis by (auto simp: demo_gone)
qed

end
