(* ===== verification/Proxy_Results.thy ===== *)
theory Proxy_Results
  imports Proxy_Receivers Proxy_Published Relay_Results
begin

text \<open>
  The properties of the whole program of \<^theory_text>\<open>Proxy\<close>, each with an instance on a concrete run: one receiver, one worker
  and a source that sends one message in three segments.
\<close>

section \<open>All of it together\<close>

lemma jbase_elsewhere:
  "perform ttl a s = Inr t \<Longrightarrow> (case a of Create i cl ts \<Rightarrow> wire cl = [] | Reassign i cl ts \<Rightarrow> wire cl = [] | _ \<Rightarrow> True) \<Longrightarrow>
   \<forall>i. jbase s i = [] \<Longrightarrow> jbase t i = []"
  by (cases a) (auto simp: fault_simps set_worker_def join_def split: option.splits)

lemma no_base_step:
  assumes "proxy_step host extended ttl n p q" "\<forall>i. jbase (sy p) i = []"
  shows "\<forall>i. jbase (sy q) i = []"
  using assms(1)
proof cases
  case (dst_create h w cl s)
  with jbase_elsewhere [OF dst_create(6)] assms(2) show ?thesis by simp
next
  case (work i l s)
  with jbase_elsewhere [OF work(5)] assms(2) show ?thesis by simp
next
  case (hang_up i l s)
  with jbase_elsewhere [OF hang_up(4)] assms(2) show ?thesis by simp
next
  case (resume i h w cl s)
  with jbase_elsewhere [OF resume(8)] assms(2) show ?thesis by simp
next
  case (cleanup now s)
  with jbase_elsewhere [OF cleanup(2)] assms(2) show ?thesis by simp
next
  case (connection i rxs txs s)
  with jbase_elsewhere [OF connection(3)] assms(2) show ?thesis by simp
qed (use assms(2) in simp_all)

lemma proxy_facts:
  assumes "proxy_reachable host extended ttl n clock src p" "n \<le> 32"
  shows "proxy_inv host n p \<and> conserved n p \<and> published_inv host extended (budget src) p \<and>
    served_by n (ho p) (set (servings p)) \<and> (\<forall>i. jbase (sy p) i = [])"
  using assms(1)
proof (induction rule: rtranclp_induct)
  case base
  have "proxy_inv host n (init_proxy n clock src)" by (rule proxy_inv_init [OF assms(2)])
  then show ?case
    by (simp add: conserved_def underway_def at_server_def at_worker_def served_by_def published_inv_def
        source_inv_def source_rest_def to_read_def in_source_def script_size_def
        init_proxy_def init_handoff_def init_system_def)
next
  case (step p q)
  then show ?case
    using proxy_inv_step conserved_step published_inv_step served_by_step no_base_step by metis
qed

lemma proxy_threads:
  "proxy_reachable host extended ttl n clock src p \<Longrightarrow> n \<le> 32 \<Longrightarrow> sys_reachable host ttl n (sy p)"
  using to_threads.simulated [OF _ proxy_inv_init, of host extended ttl n clock src p] by (simp add: init_proxy_def)

lemma proxy_ho:
  "proxy_reachable host extended ttl n clock src p \<Longrightarrow> n \<le> 32 \<Longrightarrow> reachable n clock (ho p)"
  using to_handoff.simulated [OF _ proxy_inv_init, of host extended ttl n clock src p]
  by (simp add: init_proxy_def reachable_def)

section \<open>A run with one worker and one message\<close>

text \<open>The source server, or a worker, takes steps on its own.\<close>

fun drive_source :: "nat \<Rightarrow> timespec \<Rightarrow> proxy \<Rightarrow> proxy option" where
  "drive_source 0 now p = Some p"
| "drive_source (Suc k) now p =
     (case sph (so p) of
        S_Accept \<Rightarrow> None
      | S_Insert e \<Rightarrow>
          if msg_locked (sy p) then None
          else drive_source k now (p\<lparr>so := (so p)\<lparr>sph := S_Alive\<rparr>, sy := (sy p)\<lparr>
            sq := TAILQ_INSERT_TAIL (sq (sy p)) e, hist := hist (sy p) @ [(timestamp e, the (msg e))]\<rparr>\<rparr>)
      | _ \<Rightarrow> (case sstep (ctmp_parse_func Little False) (Inr []) now (sq (sy p)) (so p) of
                Inl f \<Rightarrow> None
              | Inr (q, l) \<Rightarrow> drive_source k now (p\<lparr>so := l\<rparr>)))"

fun drive_worker :: "nat \<Rightarrow> int \<Rightarrow> nat \<Rightarrow> proxy \<Rightarrow> proxy option" where
  "drive_worker 0 ttl i p = Some p"
| "drive_worker (Suc k) ttl i p =
     (case wl (sy p) i of
        None \<Rightarrow> None
      | Some l \<Rightarrow>
          if ph l = P_Hangup \<or> \<not> allowed Little 1 (Work i) (sy p) then None
          else (case perform ttl (Work i) (sy p) of
                  Inl f \<Rightarrow> None
                | Inr s \<Rightarrow> drive_worker k ttl i (p\<lparr>sy := s\<rparr>)))"

lemma drive_worker_steps:
  "drive_worker k ttl i p = Some q \<Longrightarrow> (proxy_step Little extended ttl 1)\<^sup>*\<^sup>* p q"
proof (induction k arbitrary: p)
  case (Suc k)
  then obtain l s where "wl (sy p) i = Some l" "ph l \<noteq> P_Hangup" "allowed Little 1 (Work i) (sy p)"
      "perform ttl (Work i) (sy p) = Inr s" and q: "drive_worker k ttl i (p\<lparr>sy := s\<rparr>) = Some q"
    by (auto split: option.splits if_splits sum.splits simp del: perform.simps allowed.simps)
  from proxy_step.work [OF this(1-4)] Suc.IH [OF q] show ?case by (rule converse_rtranclp_into_rtranclp)
qed simp

lemma drive_source_steps:
  "drive_source k now p = Some q \<Longrightarrow> (proxy_step Little False ttl n)\<^sup>*\<^sup>* p q"
proof (induction k arbitrary: p)
  case (Suc k)
  have reads: "?case" if "sph (so p) \<noteq> S_Accept" "\<forall>e. sph (so p) \<noteq> S_Insert e"
    "sstep (ctmp_parse_func Little False) (Inr []) now (sq (sy p)) (so p) = Inr (q', l)"
    "drive_source k now (p\<lparr>so := l\<rparr>) = Some q" for q' l
    using proxy_step.src_read [OF that(1-3)] Suc.IH [OF that(4)] by (rule converse_rtranclp_into_rtranclp)
  show ?case
  proof (cases "sph (so p)")
    case (S_Insert e)
    let ?p = "p\<lparr>so := (so p)\<lparr>sph := S_Alive\<rparr>, sy := (sy p)\<lparr>
        sq := TAILQ_INSERT_TAIL (sq (sy p)) e, hist := hist (sy p) @ [(timestamp e, the (msg e))]\<rparr>\<rparr>"
    have "\<not> msg_locked (sy p)" and q: "drive_source k now ?p = Some q"
      using Suc.prems S_Insert by (auto split: if_splits)
    then have "proxy_step Little False ttl n p ?p"
      using proxy_step.src_insert [OF S_Insert, of Little False now "TAILQ_INSERT_TAIL (sq (sy p)) e"] S_Insert
      by (simp add: sstep_def)
    with Suc.IH [OF q] show ?thesis by (simp add: converse_rtranclp_into_rtranclp)
  qed (use Suc.prems reads in \<open>auto split: sum.splits\<close>)
qed simp


definition dealing_step :: "handoff \<Rightarrow> handoff \<Rightarrow> bool" where
  "dealing_step s t \<longleftrightarrow> server_step s t \<and> stage_of s \<noteq> Accepting \<and> stage_of s \<noteq> Creating"

lemma dst_path:
  assumes "dealing_step\<^sup>*\<^sup>* (ho p) h"
  shows "(proxy_step host extended ttl n)\<^sup>*\<^sup>* p (p\<lparr>ho := h\<rparr>)"
  using assms
proof (induction rule: rtranclp_induct)
  case (step g h)
  have "proxy_step host extended ttl n (p\<lparr>ho := g\<rparr>) (p\<lparr>ho := g, ho := h\<rparr>)"
    using proxy_step.dst_server [of "p\<lparr>ho := g\<rparr>" h] step(2) by (simp add: dealing_step_def)
  with step(3) show ?case by simp
qed simp

text \<open>The first receiver, up to the creation of its worker.\<close>

lemma demo_dealing:
  "dealing_step\<^sup>*\<^sup>*
     (demo Searching 7 Not_Created THREAD_AVAILABLE None 0 None)
     (demo Creating 7 Not_Created THREAD_BUSY (Some 7) 1 None)"
proof -
  let ?s = "\<lambda>g st cfd m. demo g 7 Not_Created st cfd m None"
  have "dealing_step (?s Searching THREAD_AVAILABLE None 0) (?s Found THREAD_AVAILABLE None 0)"
    using server_step.probe_idle [of "?s Searching THREAD_AVAILABLE None 0"] by (simp add: dealing_step_def demo_def is_set_0)
  moreover have "dealing_step (?s Found THREAD_AVAILABLE None 0) (?s Init_Args THREAD_AVAILABLE None 0)"
    using server_step.switch_available [of "?s Found THREAD_AVAILABLE None 0"] by (simp add: dealing_step_def demo_def)
  moreover have "dealing_step (?s Init_Args THREAD_AVAILABLE None 0) (?s Init_Bit THREAD_BUSY (Some 7) 0)"
    using server_step.init_args [of "?s Init_Args THREAD_AVAILABLE None 0"] by (simp add: dealing_step_def demo_def update_worker_def)
  moreover have "dealing_step (?s Init_Bit THREAD_BUSY (Some 7) 0) (?s Init_Ts THREAD_BUSY (Some 7) 1)"
    using server_step.init_bit [of "?s Init_Bit THREAD_BUSY (Some 7) 0"]
    by (simp add: dealing_step_def demo_def set_busy_bit_def set_bit_0)
  moreover have "dealing_step (?s Init_Ts THREAD_BUSY (Some 7) 1) (?s Creating THREAD_BUSY (Some 7) 1)"
    using server_step.init_ts [of "?s Init_Ts THREAD_BUSY (Some 7) 1"] by (simp add: dealing_step_def demo_def update_worker_def)
  ultimately show ?thesis by (meson converse_rtranclp_into_rtranclp rtranclp.rtrancl_refl)
qed

definition demo_bytes :: "rx_event list" where
  "demo_bytes = [Chunk [0xCC], Err EINTR, Chunk [0, 0, 2, 0, 0, 0, 0, 7], Pending, Chunk [9]]"

definition demo_memory :: source where
  "demo_memory = \<lparr>rx = [], diags = [], live = 0, budget = 99\<rparr>"

lemma demo_parse: "ctmp_parse_func Little False (demo_memory\<lparr>rx := demo_bytes\<rparr>) =
  Inr (Some sample_msg, demo_memory\<lparr>live := 2, budget := 97\<rparr>)"
  by code_simp

lemma demo_carried: "carried Little False demo_bytes = [sample_msg]"
  by code_simp

text \<open>The states of the run: with the receiver at the server, with its worker created, and at the end.\<close>

definition demo_proxy :: "handoff \<Rightarrow> system \<Rightarrow> slocal \<Rightarrow> (int \<times> timespec) list \<Rightarrow> rx_event list list \<Rightarrow> proxy" where
  "demo_proxy h s l done U = \<lparr>ho = h, sy = s, so = l, arrivals = [(7, demo_ts)], servings = done, uplinks = U\<rparr>"

definition demo_joined :: system where
  "demo_joined = init_system\<lparr>wl := (\<lambda>_. None)(0 := Some (init_local quiet_client demo_ts))\<rparr>"

definition demo_end :: system where
  "demo_end =
     \<lparr>sq = [(new_entry (t_sec 5) sample_msg)\<lparr>sent := Some 1\<rparr>],
      wl = (\<lambda>_. None)(0 := Some \<lparr>ph = P_Get, cur = None, prv = Some 0, nxt = None, bsent = 0,
        wcl = quiet_client\<lparr>wire := [0xCC, 0, 0, 2, 0, 0, 0, 0, 7, 9]\<rparr>, wts = demo_ts\<rparr>),
      kl = init_cleanup, hist = [(t_sec 5, sample_msg)], jpos = (\<lambda>_. 0), jbase = (\<lambda>_. [])\<rparr>"

abbreviation demo_idle :: "nat \<Rightarrow> nat \<Rightarrow> slocal" where
  "demo_idle lv b \<equiv> \<lparr>sph = S_Accept, ssrc = demo_memory\<lparr>live := lv, budget := b\<rparr>\<rparr>"

abbreviation demo_step :: "proxy \<Rightarrow> proxy \<Rightarrow> bool" where
  "demo_step \<equiv> proxy_step Little False 5 1"

abbreviation demo_searching :: proxy where
  "demo_searching \<equiv> demo_proxy (demo Searching 7 Not_Created THREAD_AVAILABLE None 0 None) init_system (demo_idle 0 99) [] []"

lemma demo_accepted: "demo_step (init_proxy 1 (\<lambda>_. demo_ts) demo_memory) demo_searching"
proof -
  have "server_step (demo Accepting 0 Not_Created THREAD_AVAILABLE None 0 None)
      (demo Searching 7 Not_Created THREAD_AVAILABLE None 0 None)"
    using server_step.accept [of "demo Accepting 0 Not_Created THREAD_AVAILABLE None 0 None" demo_ts 7]
    by (simp add: demo_def)
  then have "demo_step \<lparr>ho = demo Accepting 0 Not_Created THREAD_AVAILABLE None 0 None, sy = init_system,
      so = demo_idle 0 99, arrivals = [], servings = [], uplinks = []\<rparr> demo_searching"
    using proxy_step.dst_accept [of "\<lparr>ho = demo Accepting 0 Not_Created THREAD_AVAILABLE None 0 None, sy = init_system,
      so = demo_idle 0 99, arrivals = [], servings = [], uplinks = []\<rparr>"]
    by (fastforce simp: demo_proxy_def demo_def)
  moreover have "init_proxy 1 (\<lambda>_. demo_ts) demo_memory = \<lparr>ho = demo Accepting 0 Not_Created THREAD_AVAILABLE None 0 None,
      sy = init_system, so = demo_idle 0 99, arrivals = [], servings = [], uplinks = []\<rparr>"
    unfolding init_proxy_def demo_init by (simp add: demo_memory_def)
  ultimately show ?thesis by simp
qed

lemma demo_dealt:
  "demo_step\<^sup>*\<^sup>* demo_searching
     (demo_proxy (demo Creating 7 Not_Created THREAD_BUSY (Some 7) 1 None) init_system (demo_idle 0 99) [] [])"
  using dst_path [of demo_searching] demo_dealing by (simp add: demo_proxy_def)

lemma demo_arrived:
  "demo_step\<^sup>*\<^sup>* (init_proxy 1 (\<lambda>_. demo_ts) demo_memory)
     (demo_proxy (demo Creating 7 Not_Created THREAD_BUSY (Some 7) 1 None) init_system (demo_idle 0 99) [] [])"
  using demo_accepted demo_dealt by (rule converse_rtranclp_into_rtranclp)

lemma demo_created:
  "demo_step
     (demo_proxy (demo Creating 7 Not_Created THREAD_BUSY (Some 7) 1 None) init_system (demo_idle 0 99) [] [])
     (demo_proxy (demo Accepting 7 Serving THREAD_BUSY (Some 7) 1 None) demo_joined (demo_idle 0 99) [(7, demo_ts)] [])"
proof -
  let ?h = "demo Creating 7 Not_Created THREAD_BUSY (Some 7) 1 None"
  let ?p = "demo_proxy ?h init_system (demo_idle 0 99) [] []"
  have "server_step ?h (demo Accepting 7 Serving THREAD_BUSY (Some 7) 1 None)"
    using server_step.create [of ?h] by (simp add: demo_def)
  moreover have "perform 5 (Create 0 quiet_client demo_ts) init_system = Inr demo_joined"
    by (simp add: demo_joined_def init_system_def set_worker_def join_def quiet_client_def fun_upd_idem)
  ultimately show ?thesis
    using proxy_step.dst_create [of ?p "demo Accepting 7 Serving THREAD_BUSY (Some 7) 1 None"
        "worker_at ?h 0" quiet_client 5 demo_joined Little False 1]
    by (simp add: demo_proxy_def receiver_of_def quiet_client_def demo_def del: perform.simps)
qed

definition demo_queued :: system where
  "demo_queued = demo_joined\<lparr>sq := [new_entry (t_sec 5) sample_msg], hist := [(t_sec 5, sample_msg)]\<rparr>"

abbreviation demo_serving :: "system \<Rightarrow> slocal \<Rightarrow> rx_event list list \<Rightarrow> proxy" where
  "demo_serving s l U \<equiv> demo_proxy (demo Accepting 7 Serving THREAD_BUSY (Some 7) 1 None) s l [(7, demo_ts)] U"

lemma demo_reads:
  "demo_step\<^sup>*\<^sup>* (demo_serving demo_joined (demo_idle 0 99) []) (demo_serving demo_queued (demo_idle 4 95) [demo_bytes])"
proof -
  let ?l = "\<lparr>sph = S_Alive, ssrc = demo_memory\<lparr>rx := demo_bytes\<rparr>\<rparr>"
  have "demo_step (demo_serving demo_joined (demo_idle 0 99) []) (demo_serving demo_joined ?l [demo_bytes])"
    using proxy_step.src_accept [of "demo_serving demo_joined (demo_idle 0 99) []" Little False demo_bytes]
    by (fastforce simp: demo_proxy_def sstep_def demo_memory_def)
  moreover have "drive_source 5 (t_sec 5) (demo_serving demo_joined ?l [demo_bytes]) =
      Some (demo_serving demo_queued (demo_idle 4 95) [demo_bytes])"
    using demo_parse
    by (simp add: numeral_eq_Suc demo_proxy_def sstep_def demo_memory_def demo_bytes_def demo_queued_def demo_joined_def
        init_msg_entry_def malloc_or_exit_def msg_locked_def init_system_def init_cleanup_def TAILQ_INSERT_TAIL_def
        new_entry_def)
  ultimately show ?thesis using drive_source_steps converse_rtranclp_into_rtranclp by metis
qed

lemma demo_sends:
  "demo_step\<^sup>*\<^sup>* (demo_serving demo_queued (demo_idle 4 95) [demo_bytes]) (demo_serving demo_end (demo_idle 4 95) [demo_bytes])"
proof -
  have "drive_worker (Suc (Suc (Suc (Suc (Suc (Suc (Suc (Suc (Suc 0))))))))) 5 0 (demo_serving demo_queued (demo_idle 4 95) [demo_bytes]) =
      Some (demo_serving demo_end (demo_idle 4 95) [demo_bytes])"
    by (simp add: demo_proxy_def demo_queued_def demo_joined_def demo_end_def demo_ts_def demo_simps fun_upd_idem
       sample_msg_def wf_sample_msg [unfolded sample_msg_def])
  then show ?thesis by (rule drive_worker_steps)
qed

lemma demo_proxy_reachable:
  "proxy_reachable Little False 5 1 (\<lambda>_. demo_ts) demo_memory (demo_serving demo_end (demo_idle 4 95) [demo_bytes])"
  by (rule rtranclp_trans [OF rtranclp.rtrancl_into_rtrancl [OF demo_arrived demo_created]
        rtranclp_trans [OF demo_reads demo_sends]])

section \<open>Properties\<close>

text \<open>
  Property C6. The threads fit together: every run of the whole program is a run of the hand-off and a run of the
  threads that share the queue. So a worker is created only once, closes its client only while it serves it,
  is given its next client only while it waits, and only well-formed messages are published, although no step of
  the program requires any of this.
\<close>

theorem proxy_refines_parts:
  assumes "proxy_reachable host extended ttl n clock src p" "n \<le> 32"
  shows "reachable n clock (ho p) \<and> sys_reachable host ttl n (sy p)"
  using proxy_ho [OF assms] proxy_threads [OF assms] by blast

theorem proxy_refines_parts_witness:
  "reachable 1 (\<lambda>_. demo_ts) (demo Accepting 7 Serving THREAD_BUSY (Some 7) 1 None) \<and> sys_reachable Little 5 1 demo_end"
  using proxy_refines_parts [OF demo_proxy_reachable] by (simp add: demo_proxy_def)


text \<open>
  Property C3. No receiver is lost, served twice or mixed up: in every state of the whole program the receivers
  that have been accepted, each with its descriptor and its own time stamp, are those that workers have started to
  serve, the one the server is dealing with, and those that workers have been given and not yet looked at.
\<close>

theorem receivers_conserved:
  assumes "proxy_reachable host extended ttl n clock src p" "n \<le> 32"
  shows "mset (arrivals p) = mset (servings p) + at_server (ho p) + (\<Sum>i<n. at_worker (ho p) i)"
  using proxy_facts [OF assms] by (simp add: conserved_def underway_def add.assoc)

theorem receivers_conserved_witness:
  "proxy_reachable Little False 5 1 (\<lambda>_. demo_ts) demo_memory
     (demo_proxy (demo Creating 7 Not_Created THREAD_BUSY (Some 7) 1 None) init_system (demo_idle 0 99) [] []) \<and>
   {#(7, demo_ts)#} = at_server (demo Creating 7 Not_Created THREAD_BUSY (Some 7) 1 None) +
     at_worker (demo Creating 7 Not_Created THREAD_BUSY (Some 7) 1 None) 0"
  using receivers_conserved [OF demo_arrived] demo_arrived by (simp add: demo_proxy_def)

end
