(* ===== verification/Relay_Live.thy ===== *)
theory Relay_Live
  imports Relay_Results Fair_Run
begin

text \<open>
  The threads of \<^theory_text>\<open>Relay_System\<close> under a fair scheduler: a worker whose receiver stays alive and accepts data sends
  it, in the end, every message that it is entitled to and that is published by then, whatever the other threads do, as
  long as no entry is freed while the worker is on it. The worker shares \<open>msg_lock\<close> with the cleanup worker, which may
  hold the lock whenever the worker wants it; that it releases the lock, and that the scheduler does not always prefer it,
  is enough.
\<close>

section \<open>Threads and what they are obliged to do\<close>

datatype thread = T_Worker nat | T_Cleaner | T_Other

fun sys_move :: "endian \<Rightarrow> int \<Rightarrow> nat \<Rightarrow> thread \<Rightarrow> system \<Rightarrow> system \<Rightarrow> bool" where
  "sys_move host ttl n (T_Worker i) s t \<longleftrightarrow> allowed host n (Work i) s \<and> perform ttl (Work i) s = Inr t"
| "sys_move host ttl n T_Cleaner s t \<longleftrightarrow> (\<exists>now. perform ttl (Clean now) s = Inr t)"
| "sys_move host ttl n T_Other s t \<longleftrightarrow>
     (\<exists>a. (\<forall>i. a \<noteq> Work i) \<and> (\<forall>now. a \<noteq> Clean now) \<and> allowed host n a s \<and> perform ttl a s = Inr t)"

text \<open>
  The workers are obliged to step whenever they can, the cleanup worker while it holds \<open>msg_lock\<close>; nothing is asked of
  the others.
\<close>

fun sys_obliged :: "endian \<Rightarrow> int \<Rightarrow> nat \<Rightarrow> thread \<Rightarrow> system \<Rightarrow> bool" where
  "sys_obliged host ttl n (T_Worker i) s \<longleftrightarrow> (\<exists>t. sys_move host ttl n (T_Worker i) s t)"
| "sys_obliged host ttl n T_Cleaner s \<longleftrightarrow> msg_locked s \<and> (\<exists>t. sys_move host ttl n T_Cleaner s t)"
| "sys_obliged host ttl n T_Other s \<longleftrightarrow> False"

lemma sys_move_step: "sys_move host ttl n p s t \<Longrightarrow> sys_step host ttl n s t"
proof (cases p)
  case T_Cleaner
  moreover assume "sys_move host ttl n p s t"
  ultimately obtain now where "perform ttl (Clean now) s = Inr t" by (simp del: perform.simps) blast
  then show ?thesis by (intro sys_step.act [where a = "Clean now"]) simp_all
qed (auto intro: sys_step.act simp del: allowed.simps perform.simps)

interpretation sl: fair_processes "sys_move host ttl n" "sys_obliged host ttl n"
  "\<lambda>s. n \<le> 32 \<and> sys_inv host n s" for host ttl n
proof
  fix p s t
  show "sys_obliged host ttl n p s \<Longrightarrow> \<exists>t. sys_move host ttl n p s t"
    by (cases p) (simp_all del: sys_move.simps)
  show "n \<le> 32 \<and> sys_inv host n s \<Longrightarrow> sys_move host ttl n p s t \<Longrightarrow> n \<le> 32 \<and> sys_inv host n t"
    using sys_inv_step sys_move_step by blast
qed

section \<open>Where a worker is\<close>

definition place :: "wlocal \<Rightarrow> nat" where
  "place l =
     (case ph l of
        P_Get \<Rightarrow> gpos l | P_Advance \<Rightarrow> npos l | P_Reset \<Rightarrow> npos l | P_Write \<Rightarrow> npos l
      | _ \<Rightarrow> (case cur l of Some c \<Rightarrow> c | None \<Rightarrow> 0))"

text \<open>How far a phase is from the next place.\<close>

fun offset :: "phase \<Rightarrow> nat" where
  "offset P_Reset = 15"
| "offset P_Write = 14"
| "offset P_Advance = 13"
| "offset P_Get = 12"
| "offset P_Alive = 11"
| "offset P_Time = 10"
| "offset P_Flag = 9"
| "offset P_Header = 8"
| "offset (P_Data m) = 7"
| "offset P_Mark = 6"
| "offset P_Next = 5"
| "offset _ = 0"

definition on_track :: "wlocal \<Rightarrow> bool" where
  "on_track l \<longleftrightarrow> ph l \<noteq> P_Hangup \<and> ph l \<noteq> P_Wait \<and> \<not> bsent l < 0"

lemma send_ok: "healthy c \<Longrightarrow> send_msg buf c = (res, c') \<Longrightarrow> res = 0"
  using send_msg_clean [of c buf] by (auto simp: healthy_def)

lemma track_step:
  assumes "wstep i q l = Inr (q', l')" "worker_inv (ph l) H q i k0 w0 l" "on_track l" "healthy (wcl l)"
  shows "on_track l' \<and>
    (place l' = place l \<and> offset (ph l') < offset (ph l) \<or> place l' = Suc (place l) \<and> ph l = P_Next \<and> ph l' = P_Advance)"
proof (cases "ph l")
  case P_Get
  with assms have "get_msg_entry q (cur l) (prv l) False = (if gpos l < length q then Inr (gpos l) else Inl Would_Block)"
    by (simp add: gpos_get)
  with P_Get assms show ?thesis
    by (auto simp: wstep_def on_track_def place_def fault_simps split: if_splits)
next
  case P_Header
  with assms(1) obtain c m where c: "cur l = Some c" "c < length q" "msg (q ! c) = Some m"
    by (auto simp: wstep_def fault_simps entry_at_Inr split: option.splits)
  obtain r cl where r: "send_msg (header m) (wcl l) = (r, cl)" by fastforce
  with c P_Header assms(1) have "l' = (if r < 0 then l\<lparr>wcl := cl, bsent := r, ph := P_Mark\<rparr> else l\<lparr>wcl := cl, ph := P_Data m\<rparr>)"
    by (auto simp: wstep_def entry_at_def)
  with c(1) r P_Header assms(3) send_ok [OF assms(4) r] show ?thesis by (auto simp: on_track_def place_def)
next
  case (P_Data m)
  with assms(1) obtain c buf r cl where "cur l = Some c" "send_msg buf (wcl l) = (r, cl)"
      "l' = l\<lparr>wcl := cl, bsent := r, ph := P_Mark\<rparr>"
    by (auto simp: wstep_def fault_simps entry_at_Inr split: option.splits prod.splits if_splits)
  with P_Data assms(3) send_ok [OF assms(4)] show ?thesis by (auto simp: on_track_def place_def)
next
  case P_Next
  with assms(1,3) obtain c where "cur l = Some c" "l' = l\<lparr>nxt := TAILQ_NEXT q c, ph := P_Advance\<rparr>"
    by (auto simp: wstep_def fault_simps entry_at_Inr on_track_def)
  with P_Next assms(3) show ?thesis by (auto simp: on_track_def place_def npos_def TAILQ_NEXT_def)
next
  case P_Advance
  with assms show ?thesis
    by (auto simp: wstep_def on_track_def place_def npos_def gpos_def on_leaving_def split: option.splits)
next
  case P_Reset
  with assms(1,3) show ?thesis
    by (auto simp: wstep_def on_track_def place_def fault_simps entry_at_Inr split: if_splits)
next
  case P_Write
  with assms(1,3) show ?thesis
    by (auto simp: wstep_def on_track_def place_def fault_simps entry_at_Inr)
qed (use assms in \<open>auto simp: wstep_def on_track_def place_def fault_simps entry_at_Inr healthy_def split: if_splits\<close>)

lemma place_stands:
  assumes "worker_inv (ph l) H q i k0 w0 l" "on_track l"
  shows "\<exists>u. wire (wcl l) = w0 @ entitled H (wts l) k0 (place l) @ u \<and> k0 \<le> place l \<and> place l \<le> length q"
  using assms
  by (cases "ph l") (auto simp: place_def on_track_def on_entry_def on_leaving_def stands_def)


section \<open>Moves of the other threads\<close>

lemma cstep_length: "cstep ttl now q k = Inr (q', k') \<Longrightarrow> length q' = length q"
  by (cases "kph k") (auto simp: cstep_def fault_simps)

lemma wstep_length: "wstep i q l = Inr (q', l') \<Longrightarrow> length q' = length q"
  using wstep_queue [of i q l q' l'] by auto

definition same_control :: "wlocal \<Rightarrow> wlocal \<Rightarrow> bool" where
  "same_control l l' \<longleftrightarrow> ph l' = ph l \<and> cur l' = cur l \<and> prv l' = prv l \<and> nxt l' = nxt l \<and>
     bsent l' = bsent l \<and> wts l' = wts l"

lemma same_control_place: "same_control l l' \<Longrightarrow> place l' = place l \<and> on_track l' = on_track l"
proof -
  assume c: "same_control l l'"
  then have "gpos l' = gpos l" "npos l' = npos l" by (simp_all add: same_control_def gpos_def npos_def split: option.splits)
  with c show ?thesis by (cases "ph l") (simp_all add: same_control_def place_def on_track_def)
qed

lemma other_moves:
  assumes "sys_move host ttl n p s t" "p \<noteq> T_Worker i" "wl s i = Some l" "ph l \<noteq> P_Wait"
  shows "length (sq s) \<le> length (sq t) \<and> jpos t i = jpos s i \<and> jbase t i = jbase s i \<and>
    (\<exists>l'. wl t i = Some l' \<and> same_control l l')"
proof (cases p)
  case (T_Worker j)
  with assms obtain lj q l' where "wstep (int j) (sq s) lj = Inr (q, l')" "t = set_worker j l' (s\<lparr>sq := q\<rparr>)" "j \<noteq> i"
    by (auto dest!: performed_Work simp del: perform.simps allowed.simps)
  with wstep_length assms(3) show ?thesis by (auto simp: set_worker_def same_control_def)
next
  case T_Cleaner
  with assms(1) obtain now where "perform ttl (Clean now) s = Inr t" by auto
  with assms(3) cstep_length show ?thesis by (auto simp: fault_simps same_control_def)
next
  case T_Other
  with assms(1) obtain a where a: "\<forall>i. a \<noteq> Work i" "\<forall>now. a \<noteq> Clean now" "allowed host n a s" "perform ttl a s = Inr t"
    by auto
  then show ?thesis
  proof (cases a)
    case (Reassign j cl ts)
    with a assms(3,4) show ?thesis
      by (cases "j = i") (auto simp: set_worker_def join_def same_control_def split: option.splits)
  next
    case (Connection j rxs txs)
    with a assms(3) show ?thesis by (auto simp: set_worker_def same_control_def split: option.splits)
  qed (use a assms(3) in \<open>auto simp: fault_simps set_worker_def join_def same_control_def TAILQ_INSERT_TAIL_def\<close>)
qed

section \<open>Progress\<close>

text \<open>
  What is asked of the environment of worker \<open>i\<close>: its receiver is alive and accepts data, and an entry before place
  \<open>K\<close> that the worker is on has not been freed.
\<close>

definition fair_weather :: "endian \<Rightarrow> nat \<Rightarrow> nat \<Rightarrow> nat \<Rightarrow> system \<Rightarrow> bool" where
  "fair_weather host n i K s \<longleftrightarrow> n \<le> 32 \<and> sys_inv host n s \<and>
     (\<forall>l. wl s i = Some l \<longrightarrow> healthy (wcl l) \<and> (\<forall>c<K. cur l = Some c \<longrightarrow> sent (sq s ! c) \<noteq> None))"

text \<open>Worker \<open>i\<close> is on its way to place \<open>K\<close> with the receiver that connected at \<open>ts\<close>, or has got there.\<close>

definition serving :: "nat \<Rightarrow> timespec \<Rightarrow> nat \<Rightarrow> byte list \<Rightarrow> system \<Rightarrow> wlocal \<Rightarrow> bool" where
  "serving i ts k0 w0 s l \<longleftrightarrow> wl s i = Some l \<and> on_track l \<and> wts l = ts \<and> jpos s i = k0 \<and> jbase s i = w0"

definition on_way :: "nat \<Rightarrow> timespec \<Rightarrow> nat \<Rightarrow> byte list \<Rightarrow> nat \<Rightarrow> system \<Rightarrow> bool" where
  "on_way i ts k0 w0 K s \<longleftrightarrow> K \<le> length (sq s) \<and> (\<exists>l. serving i ts k0 w0 s l \<and> place l < K)"

definition arrived :: "nat \<Rightarrow> timespec \<Rightarrow> nat \<Rightarrow> byte list \<Rightarrow> nat \<Rightarrow> system \<Rightarrow> bool" where
  "arrived i ts k0 w0 K s \<longleftrightarrow> K \<le> length (sq s) \<and> (\<exists>l. serving i ts k0 w0 s l \<and> K \<le> place l)"

definition way_rank :: "nat \<Rightarrow> nat \<Rightarrow> system \<Rightarrow> nat" where
  "way_rank i K s = (case wl s i of Some l \<Rightarrow> (K - place l) * 16 + offset (ph l) | None \<Rightarrow> 0)"

lemma weather_slot:
  assumes "fair_weather host n i K s" "wl s i = Some l"
  shows "flag_pos (int i)" "hist_ok host (hist s) (sq s)" "healthy (wcl l)"
    "worker_inv (ph l) (hist s) (sq s) (int i) (jpos s i) (jbase s i) l"
proof -
  have inv: "sys_inv host n s" "n \<le> 32" using assms(1) by (auto simp: fair_weather_def)
  have "slot_inv n s i" using inv(1) by (simp add: sys_inv_def)
  with assms(2) inv(2) show "flag_pos (int i)"
    "worker_inv (ph l) (hist s) (sq s) (int i) (jpos s i) (jbase s i) l"
    by (auto simp: slot_inv_def flag_pos_def)
  show "hist_ok host (hist s) (sq s)" using inv(1) by (simp add: sys_inv_def)
  show "healthy (wcl l)" using assms by (simp add: fair_weather_def)
qed

lemma data_place:
  "worker_inv (ph l) H q i k0 w0 l \<Longrightarrow> uses_data (ph l) \<Longrightarrow> cur l = Some c \<Longrightarrow> c \<le> place l"
  by (cases "ph l") (auto simp: place_def on_leaving_def)

text \<open>Unless the cleanup worker holds \<open>msg_lock\<close>, the worker can take its next step.\<close>

lemma way_obliged:
  assumes "fair_weather host n i K s" "on_way i ts k0 w0 K s" "\<not> msg_locked s"
  shows "sys_obliged host ttl n (T_Worker i) s"
proof -
  obtain l where l: "wl s i = Some l" "on_track l" "place l < K" "K \<le> length (sq s)"
    using assms(2) by (auto simp: on_way_def serving_def)
  note w = weather_slot [OF assms(1) l(1)]
  have "\<exists>q l'. wstep (int i) (sq s) l = Inr (q, l')"
  proof (cases "wstep (int i) (sq s) l")
    case (Inl f)
    have "sent (sq s ! c) \<noteq> None" if "cur l = Some c" "c \<le> place l" for c
      using assms(1) l(1,3) that by (simp add: fair_weather_def)
    with wstep_fault [OF w(2,1,4) Inl] data_place [OF w(4)] l show ?thesis by (auto simp: on_track_def place_def)
  qed auto
  then obtain q l' where "perform ttl (Work i) s = Inr (set_worker i l' (s\<lparr>sq := q\<rparr>))" using l(1) by auto
  moreover have "allowed host n (Work i) s" using l(1) assms(3) by simp
  ultimately show ?thesis unfolding sys_obliged.simps sys_move.simps by blast
qed

text \<open>The cleanup worker can release the lock.\<close>

lemma cleaner_obliged:
  assumes "sys_inv host n s" "msg_locked s"
  shows "sys_obliged host ttl n T_Cleaner s"
proof -
  have "cleanup_inv (sq s) (kl s)" using assms(1) by (simp add: sys_inv_def)
  from cstep_total [OF this] assms(2) obtain q k where "cstep ttl undefined (sq s) (kl s) = Inr (q, k)"
    by (fastforce simp: msg_locked_def)
  then have "perform ttl (Clean undefined) s = Inr (s\<lparr>sq := q, kl := k\<rparr>)" by simp
  with assms(2) show ?thesis unfolding sys_obliged.simps sys_move.simps by blast
qed

lemma cleaner_releases: "sys_move host ttl n T_Cleaner s t \<Longrightarrow> msg_locked s \<Longrightarrow> \<not> msg_locked t"
  by (auto simp: msg_locked_def cstep_def fault_simps)

lemma way_worker:
  assumes "sys_move host ttl n (T_Worker i) s t" "fair_weather host n i K s" "on_way i ts k0 w0 K s"
  shows "on_way i ts k0 w0 K t \<and> way_rank i K t < way_rank i K s \<or> arrived i ts k0 w0 K t"
proof -
  obtain l where l: "wl s i = Some l" "on_track l" "place l < K" "K \<le> length (sq s)" "wts l = ts"
      "jpos s i = k0" "jbase s i = w0"
    using assms(3) by (auto simp: on_way_def serving_def)
  obtain q l' where t: "wstep (int i) (sq s) l = Inr (q, l')" "t = set_worker i l' (s\<lparr>sq := q\<rparr>)"
    using assms(1) l(1) by (auto dest!: performed_Work simp del: perform.simps allowed.simps)
  note w = weather_slot [OF assms(2) l(1)]
  have "wts l' = ts" using wstep_wire [OF t(1)] l(5) by simp
  with track_step [OF t(1) w(4) l(2) w(3)] l t wstep_length [OF t(1)] show ?thesis
    by (auto simp: on_way_def arrived_def serving_def way_rank_def set_worker_def)
qed

lemma way_other:
  assumes "sys_move host ttl n p s t" "p \<noteq> T_Worker i" "on_way i ts k0 w0 K s"
  shows "on_way i ts k0 w0 K t \<and> way_rank i K t = way_rank i K s"
proof -
  obtain l where l: "wl s i = Some l" "on_track l" "place l < K" "K \<le> length (sq s)" "wts l = ts"
      "jpos s i = k0" "jbase s i = w0"
    using assms(3) by (auto simp: on_way_def serving_def)
  then have "ph l \<noteq> P_Wait" by (simp add: on_track_def)
  from other_moves [OF assms(1,2) l(1) this] obtain l' where
    t: "length (sq s) \<le> length (sq t)" "jpos t i = k0" "jbase t i = w0" "wl t i = Some l'" "same_control l l'"
    using l(6,7) by auto
  have "place l' = place l" "on_track l'" using same_control_place [OF t(5)] l(2) by simp_all
  moreover have "wts l' = ts" "ph l' = ph l" using t(5) l(5) by (simp_all add: same_control_def)
  ultimately show ?thesis using t l by (simp add: on_way_def serving_def way_rank_def)
qed

lemma way_moves:
  assumes "sys_move host ttl n p s t" "fair_weather host n i K s" "on_way i ts k0 w0 K s"
  shows "on_way i ts k0 w0 K t \<and> way_rank i K t \<le> way_rank i K s \<or> arrived i ts k0 w0 K t"
  using assms way_worker [of host ttl n i s t K ts k0 w0] way_other [of host ttl n p s t i ts k0 w0 K]
  by (cases "p = T_Worker i") auto

text \<open>Again and again the worker is able to move.\<close>

lemma way_able:
  assumes "fair_run (sys_move host ttl n) (sys_obliged host ttl n) sched f" "\<forall>k. fair_weather host n i K (f k)"
  shows "leads_to f (\<lambda>s. on_way i ts k0 w0 K s \<and> way_rank i K s = m)
    (\<lambda>s. (arrived i ts k0 w0 K s \<or> on_way i ts k0 w0 K s \<and> way_rank i K s < m) \<or> sys_obliged host ttl n (T_Worker i) s)"
    (is "leads_to f ?P ?Q")
proof (rule leads_to_cases)
  show "leads_to f ?P (\<lambda>s. ?Q s \<or> ?P s \<and> msg_locked s)"
  proof (rule leads_toI)
    fix k assume "?P (f k)"
    with way_obliged assms(2) have "?Q (f k) \<or> ?P (f k) \<and> msg_locked (f k)" by blast
    then show "\<exists>j\<ge>k. ?Q (f j) \<or> ?P (f j) \<and> msg_locked (f j)" by blast
  qed
  show "leads_to f (\<lambda>s. ?P s \<and> msg_locked s) ?Q"
  proof (rule weak_fairness [OF assms, where h = T_Cleaner])
    fix s t p assume s: "fair_weather host n i K s" "fair_weather host n i K t" "?P s \<and> msg_locked s"
    assume move: "sys_move host ttl n p s t"
    from way_moves [OF this s(1)] s(3) have "?P t \<or> ?Q t" by auto
    then show "(?P t \<and> msg_locked t) \<or> ?Q t" using way_obliged [OF s(2)] by blast
  next
    fix s t assume s: "fair_weather host n i K s" "fair_weather host n i K t" "?P s \<and> msg_locked s"
    assume move: "sys_move host ttl n T_Cleaner s t"
    from way_moves [OF this s(1)] s(3) have "?P t \<or> ?Q t" by auto
    with cleaner_releases [OF move] s(3) show "?Q t" using way_obliged [OF s(2)] by blast
  qed (use cleaner_obliged in \<open>auto simp: fair_weather_def\<close>)
qed

lemma way_to_arrived:
  assumes "fair_run (sys_move host ttl n) (sys_obliged host ttl n) sched f" "\<forall>k. fair_weather host n i K (f k)"
  shows "leads_to f (on_way i ts k0 w0 K) (arrived i ts k0 w0 K)"
  by (rule ranked_strong_fairness [OF assms _ _ way_able [OF assms]], rule way_moves, assumption+)
    (rule way_worker)

lemma step_hist: "sys_step host ttl n s t \<Longrightarrow> prefix (hist s) (hist t)"
proof (elim sys_stepE)
  fix a assume "allowed host n a s" "perform ttl a s = Inr t"
  then show "prefix (hist s) (hist t)"
    by (cases a) (auto simp: set_worker_def join_def fault_simps split: option.splits)
qed

lemma run_hist_prefix:
  assumes "fair_run (sys_move host ttl n) (sys_obliged host ttl n) sched f" "k \<le> j"
  shows "prefix (hist (f k)) (hist (f j))"
  using assms(2)
proof (induction rule: dec_induct)
  case (step m)
  then show ?case
    using fair_run_turn [OF assms(1), of m] sys_move_step step_hist prefix_order.trans by metis
qed simp

text \<open>What a worker has sent when it has got to a place, in terms of an earlier history.\<close>

lemma sent_by_place:
  assumes "fair_weather host n i K' s" "wl s i = Some l" "on_track l" "K \<le> place l" "jpos s i \<le> K"
    and "prefix H (hist s)" "K \<le> length H"
  shows "\<exists>bs. wire (wcl l) = jbase s i @ entitled H (wts l) (jpos s i) K @ bs"
proof -
  obtain u where u: "wire (wcl l) = jbase s i @ entitled (hist s) (wts l) (jpos s i) (place l) @ u"
    using place_stands [OF weather_slot(4) [OF assms(1,2)] assms(3)] by blast
  obtain X where "hist s = H @ X" using assms(6) by (auto simp: prefix_def)
  then have "entitled (hist s) (wts l) (jpos s i) K = entitled H (wts l) (jpos s i) K" using assms(7) by simp
  with u entitled_split [OF assms(5,4), of "hist s" "wts l"] show ?thesis by auto
qed

section \<open>Every message is delivered\<close>

text \<open>
  Under a fair scheduler, a worker whose receiver is alive and accepts data, and which is on no entry that has been
  freed, sends it in the end every message that has been published by then and that it is entitled to, in order, however
  the source server, the other workers, the cleanup worker and the other receivers behave in between.
\<close>

lemma messages_eventually_delivered:
  assumes "fair_run (sys_move host ttl n) (sys_obliged host ttl n) sched f" "sys_reachable host ttl n (f 0)" "n \<le> 32"
    and calm: "\<And>j l'. k \<le> j \<Longrightarrow> wl (f j) i = Some l' \<Longrightarrow>
      healthy (wcl l') \<and> (\<forall>c < length (hist (f k)). cur l' = Some c \<longrightarrow> sent (sq (f j) ! c) \<noteq> None)"
    and l: "wl (f k) i = Some l" "ph l \<noteq> P_Hangup" "ph l \<noteq> P_Wait" "0 \<le> bsent l"
  shows "\<exists>j\<ge>k. \<exists>l' bs. wl (f j) i = Some l' \<and> wts l' = wts l \<and>
    wire (wcl l') = jbase (f k) i @ entitled (hist (f k)) (wts l) (jpos (f k) i) (length (hist (f k))) @ bs"
proof -
  let ?K = "length (hist (f k))"
  have inv: "sys_inv host n (f j)" for j
    using sl.run_inv [OF assms(1)] reachable_sys_inv [OF assms(2,3)] assms(3) by simp
  have G: "\<forall>j. fair_weather host n i ?K (f (k + j))"
    unfolding fair_weather_def using inv assms(3) calm by (metis le_add1)
  note run = fair_run_suffix [OF assms(1), of k]
  have t: "on_track l" using l(2-4) by (simp add: on_track_def)
  have K: "?K = length (sq (f k))" by (rule sys_inv_length [OF inv])
  have k: "jpos (f k) i \<le> ?K"
    using place_stands [OF weather_slot(4) [OF _ l(1)] t] G K by (metis add_0_right le_trans)
  let ?A = "arrived i (wts l) (jpos (f k) i) (jbase (f k) i) ?K"
  have "\<exists>j\<ge>0. ?A (f (k + j))"
  proof (cases "place l < ?K")
    case True
    then have "on_way i (wts l) (jpos (f k) i) (jbase (f k) i) ?K (f (k + 0))"
      using l(1) t K by (simp add: on_way_def serving_def)
    from leads_toD [OF way_to_arrived [OF run G] this] show ?thesis .
  next
    case False
    then have "?A (f (k + 0))" using l(1) t K by (simp add: arrived_def serving_def)
    then show ?thesis by blast
  qed
  then obtain d l' where j: "wl (f (k + d)) i = Some l'" "on_track l'" "wts l' = wts l" "?K \<le> place l'"
      "jpos (f (k + d)) i = jpos (f k) i" "jbase (f (k + d)) i = jbase (f k) i"
    by (auto simp: arrived_def serving_def)
  from sent_by_place [OF _ j(1,2,4) _ run_hist_prefix [OF assms(1)], of host n ?K k] G k j
  show ?thesis by (metis le_add1 order_refl)
qed

text \<open>Worker 0 takes steps while its receiver stays as it is.\<close>

definition quiet_weather :: "system \<Rightarrow> bool" where
  "quiet_weather s \<longleftrightarrow> (\<forall>l. wl s 0 = Some l \<longrightarrow> crx (wcl l) = [Pending] \<and> tx (wcl l) = [] \<and>
     (\<forall>c. cur l = Some c \<longrightarrow> sent (sq s ! c) \<noteq> None))"

fun drive :: "nat \<Rightarrow> system \<Rightarrow> system option" where
  "drive 0 s = Some s"
| "drive (Suc k) s =
     (if allowed Little 1 (Work 0) s
      then (case perform 5 (Work 0) s of Inl f \<Rightarrow> None
            | Inr t \<Rightarrow> if quiet_weather t then drive k t else None)
      else None)"

lemma drive_path:
  "drive k s = Some t \<Longrightarrow> (\<lambda>s t. (\<exists>p. sys_move Little 5 1 p s t) \<and> quiet_weather t)\<^sup>*\<^sup>* s t"
proof (induction k arbitrary: s)
  case (Suc k)
  then obtain u where u: "allowed Little 1 (Work 0) s" "perform 5 (Work 0) s = Inr u" "quiet_weather u" "drive k u = Some t"
    by (auto split: if_splits sum.splits simp del: allowed.simps perform.simps)
  then have "sys_move Little 5 1 (T_Worker 0) s u" by (simp del: allowed.simps perform.simps)
  with u(3) Suc.IH [OF u(4)] show ?case by (blast intro: converse_rtranclp_into_rtranclp)
qed simp

lemma messages_eventually_delivered_witness:
  "\<exists>sched f j l. fair_run (sys_move Little 5 1) (sys_obliged Little 5 1) sched f \<and> f 0 = demo_after demo_run \<and>
    wl (f j) 0 = Some l \<and> prefix (msg_bytes sample_msg) (wire (wcl l))"
proof -
  let ?t = "demo_after (demo_run @ replicate 4 (Work 0))"
  have "drive (Suc (Suc (Suc (Suc 0)))) (demo_after demo_run) = Some ?t"
    unfolding demo_sending demo_done
    by (simp add: demo_simps fun_upd_idem quiet_weather_def sample_msg_def wf_sample_msg [unfolded sample_msg_def])
  note path = drive_path [OF this]
  have s: "quiet_weather (demo_after demo_run)"
    by (simp add: demo_sending quiet_weather_def new_entry_def quiet_client_def)
  have "\<forall>p. \<not> sys_obliged Little 5 1 p ?t"
  proof
    show "\<not> sys_obliged Little 5 1 p ?t" for p
      by (cases p) (auto simp: demo_done wstep_def get_msg_entry_def wait_until_def TAILQ_NEXT_def
          msg_locked_def init_system_def init_cleanup_def)
  qed
  then obtain sched f where f: "fair_run (sys_move Little 5 1) (sys_obliged Little 5 1) sched f"
      "f 0 = demo_after demo_run" "\<forall>k. quiet_weather (f k)"
    using sl.fair_run_path [OF path s] by blast
  have r: "sys_reachable Little 5 1 (f 0)" using f(2) demo_after_reachable by simp
  have calm: "healthy (wcl l) \<and> (\<forall>c < m. cur l = Some c \<longrightarrow> sent (sq (f j) ! c) \<noteq> None)" if "wl (f j) 0 = Some l" for j l m
    using f(3) that by (simp add: quiet_weather_def healthy_def tx_clean_def)
  have "t_sec 3 < t_sec 5" by (simp add: compare_times_iff_less [symmetric] compare_times_def t_sec_def)
  then have sent: "entitled (hist (f 0)) (t_sec 3) (jpos (f 0) 0) (length (hist (f 0))) = msg_bytes sample_msg"
    using f(2) by (simp add: demo_sending entitled_Suc)
  obtain l where l: "wl (f 0) 0 = Some l" "ph l \<noteq> P_Hangup" "ph l \<noteq> P_Wait" "0 \<le> bsent l" and ts: "wts l = t_sec 3"
    using f(2) by (simp add: demo_sending)
  note messages_eventually_delivered [OF f(1) r _ calm l, unfolded ts sent]
  with f show ?thesis by (auto simp: demo_sending) (metis prefixI)
qed

end
