(* ===== verification/Proxy_Live.thy ===== *)
theory Proxy_Live
  imports Proxy_Results Relay_Live
begin

text \<open>
  The whole program of \<^theory_text>\<open>Proxy\<close> under a fair scheduler: its runs are fair runs of the hand-off and of the threads that
  share the queue, so that what these promise holds of the whole.
\<close>

section \<open>The parts of the program that move\<close>

text \<open>
  The server, a worker while it gives itself back and gets its next receiver, a worker in its loop, the cleanup worker,
  and the rest.
\<close>

datatype program_part = Part_Server | Part_Protocol nat | Part_Loop nat | Part_Cleaner | Part_Rest

fun proxy_move :: "endian \<Rightarrow> bool \<Rightarrow> int \<Rightarrow> nat \<Rightarrow> program_part \<Rightarrow> proxy \<Rightarrow> proxy \<Rightarrow> bool" where
  "proxy_move host extended ttl n Part_Server p q \<longleftrightarrow>
     proxy_step host extended ttl n p q \<and> server_step (ho p) (ho q)"
| "proxy_move host extended ttl n (Part_Protocol i) p q \<longleftrightarrow>
     proxy_step host extended ttl n p q \<and> i < n \<and> worker_step i (ho p) (ho q)"
| "proxy_move host extended ttl n (Part_Loop i) p q \<longleftrightarrow>
     proxy_step host extended ttl n p q \<and> sys_move host ttl n (T_Worker i) (sy p) (sy q)"
| "proxy_move host extended ttl n Part_Cleaner p q \<longleftrightarrow>
     proxy_step host extended ttl n p q \<and> sys_move host ttl n T_Cleaner (sy p) (sy q)"
| "proxy_move host extended ttl n Part_Rest p q \<longleftrightarrow> proxy_step host extended ttl n p q"

fun proxy_obliged :: "endian \<Rightarrow> bool \<Rightarrow> int \<Rightarrow> nat \<Rightarrow> program_part \<Rightarrow> proxy \<Rightarrow> bool" where
  "proxy_obliged host extended ttl n Part_Server p \<longleftrightarrow>
     stage_of (ho p) \<noteq> Accepting \<and> (\<exists>q. proxy_move host extended ttl n Part_Server p q)"
| "proxy_obliged host extended ttl n (Part_Protocol i) p \<longleftrightarrow>
     pcs (ho p) i \<noteq> Serving \<and> (pcs (ho p) i = Waiting \<longrightarrow> signalled (ho p) i) \<and>
     (\<exists>q. proxy_move host extended ttl n (Part_Protocol i) p q)"
| "proxy_obliged host extended ttl n (Part_Loop i) p \<longleftrightarrow> (\<exists>q. proxy_move host extended ttl n (Part_Loop i) p q)"
| "proxy_obliged host extended ttl n Part_Cleaner p \<longleftrightarrow>
     msg_locked (sy p) \<and> (\<exists>q. proxy_move host extended ttl n Part_Cleaner p q)"
| "proxy_obliged host extended ttl n Part_Rest p \<longleftrightarrow> False"

lemma proxy_move_step: "proxy_move host extended ttl n m p q \<Longrightarrow> proxy_step host extended ttl n p q"
  by (cases m) simp_all

interpretation pl: fair_processes "proxy_move host extended ttl n" "proxy_obliged host extended ttl n" "proxy_inv host n"
  for host extended ttl n
proof
  fix m p q
  show "proxy_obliged host extended ttl n m p \<Longrightarrow> \<exists>q. proxy_move host extended ttl n m p q"
    by (cases m) (simp_all del: proxy_move.simps)
  show "proxy_inv host n p \<Longrightarrow> proxy_move host extended ttl n m p q \<Longrightarrow> proxy_inv host n q"
    using proxy_inv_step proxy_move_step by blast
qed

section \<open>What a part can do, the program can do\<close>

lemma can_serve:
  assumes "server_step (ho p) h" "stage_of (ho p) \<noteq> Accepting"
  shows "\<exists>q. proxy_move host extended ttl n Part_Server p q"
proof (cases "stage_of (ho p) = Creating")
  case True
  let ?w = "worker_at (ho p) (idx (ho p))" and ?cl = "\<lparr>crx = [], tx = [], wire = []\<rparr>"
  let ?q = "p\<lparr>ho := h, sy := start_worker (idx (ho p)) ?cl (client_ts ?w) (sy p),
      servings := servings p @ [receiver_of ?w]\<rparr>"
  have "proxy_step host extended ttl n p ?q"
    using proxy_step.dst_create [OF True assms(1) refl, of ?cl] by simp
  with assms(1) have "proxy_move host extended ttl n Part_Server p ?q" by simp
  then show ?thesis by blast
next
  case False
  from proxy_step.dst_server [OF assms(2) False assms(1)] assms(1)
  have "proxy_move host extended ttl n Part_Server p (p\<lparr>ho := h\<rparr>)" by simp
  then show ?thesis by blast
qed

lemma can_protocol:
  assumes "worker_step i (ho p) h" "i < n" "pcs (ho p) i \<noteq> Serving"
  shows "\<exists>q. proxy_move host extended ttl n (Part_Protocol i) p q"
proof (cases "pcs (ho p) i = Checking \<and> status_of (ho p) i = THREAD_BUSY")
  case True
  let ?w = "worker_at (ho p) i" and ?cl = "\<lparr>crx = [], tx = [], wire = []\<rparr>"
  obtain s where "perform ttl (Reassign i ?cl (client_ts ?w)) (sy p) = Inr s"
    by (cases "wl (sy p) i") simp_all
  then have "proxy_step host extended ttl n p (p\<lparr>ho := h, sy := s, servings := servings p @ [receiver_of ?w]\<rparr>)"
    using proxy_step.resume [OF assms(2) _ _ assms(1) refl, of ?cl ttl s] True by simp
  with assms(1,2) have "proxy_move host extended ttl n (Part_Protocol i) p
      (p\<lparr>ho := h, sy := s, servings := servings p @ [receiver_of ?w]\<rparr>)" by simp
  then show ?thesis by blast
next
  case False
  from proxy_step.protocol [OF assms(2,3) False assms(1)] assms(1,2)
  have "proxy_move host extended ttl n (Part_Protocol i) p (p\<lparr>ho := h\<rparr>)" by simp
  then show ?thesis by blast
qed

lemma can_loop:
  assumes "sys_move host ttl n (T_Worker i) (sy p) s"
  shows "\<exists>q. proxy_move host extended ttl n (Part_Loop i) p q"
proof -
  obtain l where l: "wl (sy p) i = Some l" and a: "allowed host n (Work i) (sy p)"
      "perform ttl (Work i) (sy p) = Inr s"
    using assms by (auto dest: performed_Work simp del: perform.simps allowed.simps)
  show ?thesis
  proof (cases "ph l = P_Hangup")
    case True
    let ?q = "p\<lparr>ho := (ho p)\<lparr>pcs := (pcs (ho p))(i := Closed)\<rparr>, sy := s\<rparr>"
    have "proxy_step host extended ttl n p ?q" by (rule proxy_step.hang_up [OF l True a(2)])
    with assms have "proxy_move host extended ttl n (Part_Loop i) p ?q" by (simp del: sys_move.simps)
    then show ?thesis by blast
  next
    case False
    have "proxy_step host extended ttl n p (p\<lparr>sy := s\<rparr>)" by (rule proxy_step.work [OF l False a])
    with assms have "proxy_move host extended ttl n (Part_Loop i) p (p\<lparr>sy := s\<rparr>)" by (simp del: sys_move.simps)
    then show ?thesis by blast
  qed
qed

lemma can_clean:
  assumes "sys_move host ttl n T_Cleaner (sy p) s"
  shows "\<exists>q. proxy_move host extended ttl n Part_Cleaner p q"
proof -
  obtain now where "perform ttl (Clean now) (sy p) = Inr s" using assms unfolding sys_move.simps by blast
  then have "proxy_step host extended ttl n p (p\<lparr>sy := s\<rparr>)" by (rule proxy_step.cleanup)
  with assms have "proxy_move host extended ttl n Part_Cleaner p (p\<lparr>sy := s\<rparr>)" by (simp del: sys_move.simps)
  then show ?thesis by blast
qed

section \<open>Fair runs of the program are fair runs of its parts\<close>

fun in_handoff :: "program_part \<Rightarrow> process option" where
  "in_handoff Part_Server = Some Srv"
| "in_handoff (Part_Protocol i) = Some (Wrk i)"
| "in_handoff _ = None"

fun from_handoff :: "process \<Rightarrow> program_part" where
  "from_handoff Srv = Part_Server"
| "from_handoff (Wrk i) = Part_Protocol i"

fun in_threads :: "program_part \<Rightarrow> thread option" where
  "in_threads (Part_Loop i) = Some (T_Worker i)"
| "in_threads Part_Cleaner = Some T_Cleaner"
| "in_threads _ = None"

lemma sys_step_move: "sys_step host ttl n s t \<Longrightarrow> \<exists>m. sys_move host ttl n m s t"
proof (elim sys_stepE)
  fix a assume a: "allowed host n a s" "perform ttl a s = Inr t"
  consider i where "a = Work i" | now where "a = Clean now" | "\<forall>i. a \<noteq> Work i" "\<forall>now. a \<noteq> Clean now" by blast
  then show "\<exists>m. sys_move host ttl n m s t"
  proof cases
    case (1 i)
    with a have "sys_move host ttl n (T_Worker i) s t" by (simp del: allowed.simps perform.simps)
    then show ?thesis by blast
  next
    case (2 now)
    with a(2) have "sys_move host ttl n T_Cleaner s t" unfolding sys_move.simps by blast
    then show ?thesis by blast
  next
    case 3
    with a have "sys_move host ttl n T_Other s t" unfolding sys_move.simps by blast
    then show ?thesis by blast
  qed
qed

interpretation hp: fair_part "proxy_move host extended ttl n" "proxy_obliged host extended ttl n" "proxy_inv host n"
  move obliged ho in_handoff from_handoff for host extended ttl n
proof
  fix p q :: proxy and m r
  assume inv: "proxy_inv host n p"
  then have n: "num_workers (pool (ho p)) = n" by (simp add: proxy_inv_def)
  show "proxy_move host extended ttl n m p q \<Longrightarrow> in_handoff m = Some r \<Longrightarrow> move r (ho p) (ho q)"
    using n by (cases m) auto
  show "proxy_move host extended ttl n m p q \<Longrightarrow> ho q = ho p \<or> (\<exists>r. move r (ho p) (ho q))"
    using proxy_handoff [OF _ inv] proxy_move_step handoff_step_move by blast
  show "obliged r (ho p) \<Longrightarrow> proxy_obliged host extended ttl n (from_handoff r) p"
  proof (cases r)
    case Srv
    moreover assume "obliged r (ho p)"
    ultimately show ?thesis using can_serve by (auto simp del: proxy_move.simps)
  next
    case (Wrk i)
    moreover assume "obliged r (ho p)"
    ultimately show ?thesis using can_protocol n by (auto simp del: proxy_move.simps)
  qed
next
  show "in_handoff (from_handoff r) = Some r" for r by (cases r) simp_all
qed

fun from_threads :: "thread \<Rightarrow> program_part" where
  "from_threads (T_Worker i) = Part_Loop i"
| "from_threads T_Cleaner = Part_Cleaner"
| "from_threads T_Other = Part_Rest"

interpretation tp: fair_part "proxy_move host extended ttl n" "proxy_obliged host extended ttl n" "proxy_inv host n"
  "sys_move host ttl n" "sys_obliged host ttl n" sy in_threads from_threads for host extended ttl n
proof
  fix p q :: proxy and m r t
  assume inv: "proxy_inv host n p"
  show "proxy_move host extended ttl n m p q \<Longrightarrow> in_threads m = Some r \<Longrightarrow> sys_move host ttl n r (sy p) (sy q)"
    by (cases m) (auto simp del: sys_move.simps)
  show "proxy_move host extended ttl n m p q \<Longrightarrow> sy q = sy p \<or> (\<exists>r. sys_move host ttl n r (sy p) (sy q))"
    using proxy_system [OF _ inv] proxy_move_step sys_step_move by blast
  show "sys_obliged host ttl n r (sy p) \<Longrightarrow> proxy_obliged host extended ttl n (from_threads r) p"
    using can_loop can_clean by (cases r) (auto simp del: proxy_move.simps sys_move.simps)
next
  show "sys_obliged host ttl n r t \<Longrightarrow> in_threads (from_threads r) = Some r" for r t by (cases r) simp_all
qed

lemma run_reachable:
  assumes "fair_run (proxy_move host extended ttl n) (proxy_obliged host extended ttl n) sched f"
    and "proxy_reachable host extended ttl n clock src (f 0)"
  shows "proxy_reachable host extended ttl n clock src (f k)"
proof (induction k)
  case (Suc k)
  then show ?case
    using fair_run_turn [OF assms(1), of k] proxy_move_step by (metis rtranclp.rtrancl_into_rtrancl)
qed (rule assms(2))

text \<open>Concrete fair runs.\<close>

lemma overflow_stays:
  "proxy_step host extended ttl n p q \<Longrightarrow> stage_of (ho p) = Delay_Overflow \<Longrightarrow> stage_of (ho q) = Delay_Overflow"
  by (erule proxy_step.cases) (auto elim!: server_step.cases dest: worker_keeps)

lemma step_path:
  "demo_step\<^sup>*\<^sup>* p q \<Longrightarrow> stage_of (ho q) \<noteq> Delay_Overflow \<Longrightarrow>
   (\<lambda>p q. (\<exists>m. proxy_move Little False 5 1 m p q) \<and> stage_of (ho q) \<noteq> Delay_Overflow)\<^sup>*\<^sup>* p q"
proof (induction rule: rtranclp_induct)
  case (step q u)
  have "stage_of (ho q) \<noteq> Delay_Overflow" using overflow_stays [OF step.hyps(2)] step.prems by blast
  note path = step.IH [OF this]
  have "proxy_move Little False 5 1 Part_Rest q u" using step.hyps(2) by simp
  with step.prems have "(\<exists>m. proxy_move Little False 5 1 m q u) \<and> stage_of (ho u) \<noteq> Delay_Overflow" by blast
  with path show ?case by (rule rtranclp.rtrancl_into_rtrancl)
qed simp

lemma demo_quiet:
  assumes "\<forall>l. wl s 0 = Some l \<longrightarrow> wstep 0 (sq s) l = Inl Would_Block" "\<forall>i>0. wl s i = None" "\<not> msg_locked s"
  shows "\<forall>m. \<not> proxy_obliged Little False 5 1 m (demo_serving s lo U)"
proof
  fix m show "\<not> proxy_obliged Little False 5 1 m (demo_serving s lo U)"
  proof (cases m)
    case (Part_Protocol i)
    then show ?thesis by (cases "i = 0") (auto simp: demo_proxy_def demo_def)
  next
    case (Part_Loop i)
    have "\<not> sys_move Little 5 1 (T_Worker i) s t" for t
      using assms by (cases "i = 0") (auto split: option.splits)
    with Part_Loop show ?thesis by (simp add: demo_proxy_def del: sys_move.simps)
  qed (use assms(3) in \<open>simp_all add: demo_proxy_def demo_def\<close>)
qed

section \<open>Properties\<close>

text \<open>
  Property C5. In a fair run of the whole program, a receiver for which the server looks for a worker is in the end
  served by a worker, with its own descriptor and time stamp, provided that at that time or later some worker is free or
  has lost its client: neither the locks, nor wake-ups without a signal, nor the other threads can keep that from
  happening. The one thing that can is the overflow of the delay between two searches, after \<open>2 ^ 30\<close> seconds.
\<close>

theorem receivers_get_workers:
  assumes "fair_run (proxy_move host extended ttl n) (proxy_obliged host extended ttl n) sched f"
    and "proxy_reachable host extended ttl n clock src (f 0)" "n \<le> 32" "stage_of (ho (f k)) = Searching"
    and "k \<le> j" "i < n" "pcs (ho (f j)) i \<in> {Closed, Holding_Lock, Ready_Set} \<or> \<not> bit_of (ho (f j)) i"
  shows "(\<exists>m\<ge>k. \<exists>w<n. pcs (ho (f m)) w = Serving \<and>
      receiver_of (worker_at (ho (f m)) w) = (new_fd (ho (f k)), new_ts (ho (f k)))) \<or>
    (\<exists>m\<ge>k. stage_of (ho (f m)) = Delay_Overflow \<and> backoff (ho (f m)) = 2 ^ 30)"
proof -
  have inv: "\<forall>k. proxy_inv host n (f k)"
    using pl.run_inv [OF assms(1)] proxy_facts [OF assms(2,3)] by blast
  obtain sched' where "fair_run move obliged sched' (\<lambda>k. ho (f k))"
    using hp.fair_run_part [OF assms(1) inv] by blast
  from receiver_eventually_served [OF this proxy_ho [OF assms(2,3)] assms(3,4,5,6,7)]
  show ?thesis unfolding receiver_of_def by (metis option.sel)
qed

theorem receivers_get_workers_witness:
  "\<exists>sched f m. fair_run (proxy_move Little False 5 1) (proxy_obliged Little False 5 1) sched f \<and>
    f 0 = demo_searching \<and> pcs (ho (f m)) 0 = Serving \<and> receiver_of (worker_at (ho (f m)) 0) = (7, demo_ts)"
proof -
  have "demo_step\<^sup>*\<^sup>* demo_searching (demo_serving demo_joined (demo_idle 0 99) [])"
    using demo_dealt demo_created by (rule rtranclp.rtrancl_into_rtrancl)
  note path = step_path [OF this]
  have st: "stage_of (ho (demo_serving demo_joined (demo_idle 0 99) [])) \<noteq> Delay_Overflow"
      "stage_of (ho demo_searching) \<noteq> Delay_Overflow" by (simp_all add: demo_proxy_def demo_def)
  have "\<forall>m. \<not> proxy_obliged Little False 5 1 m (demo_serving demo_joined (demo_idle 0 99) [])"
    by (rule demo_quiet) (simp_all add: demo_joined_def init_system_def init_local_def wstep_def get_msg_entry_def
        wait_until_def TAILQ_FIRST_def msg_locked_def init_cleanup_def)
  then obtain sched f where f: "fair_run (proxy_move Little False 5 1) (proxy_obliged Little False 5 1) sched f"
      "f 0 = demo_searching" "\<forall>k. stage_of (ho (f k)) \<noteq> Delay_Overflow"
    using pl.fair_run_path [where G = "\<lambda>p. stage_of (ho p) \<noteq> Delay_Overflow", OF path] st by blast
  have "proxy_reachable Little False 5 1 (\<lambda>_. demo_ts) demo_memory (f 0)"
    unfolding f(2) by (rule r_into_rtranclp [of "demo_step", OF demo_accepted])
  moreover have "stage_of (ho (f 0)) = Searching" "\<not> bit_of (ho (f 0)) 0" "new_fd (ho (f 0)) = 7" "new_ts (ho (f 0)) = demo_ts"
    using f(2) by (simp_all add: demo_proxy_def demo_def bit_of_def c_mask.flags_clear)
  ultimately show ?thesis
    using receivers_get_workers [OF f(1), of "\<lambda>_. demo_ts" demo_memory 0 0 0] f by auto
qed

text \<open>
  Property C4. What a receiver is sent in the end, in a fair run of the whole program. The conditions: from moment
  \<open>k\<close> on the receiver stays alive and accepts data, no entry that its worker is on has been freed (entries
  the worker has passed or has not got to may be), and at \<open>k\<close> no earlier error is pending in the worker. Then at some
  later moment the worker has sent all messages that were published by \<open>k\<close>, that are newer than the receiver's time stamp
  and that are at or after the place where the worker stood when it got the receiver, in order and with nothing between
  them. Messages before that place, or not newer, are not sent (see \<open>receiver_served_from_workers_place\<close>). The other
  threads may do what they like; in particular the cleanup worker may hold \<open>msg_lock\<close> whenever the worker wants it.
\<close>

theorem messages_reach_receivers:
  assumes "fair_run (proxy_move host extended ttl n) (proxy_obliged host extended ttl n) sched f"
    and "proxy_reachable host extended ttl n clock src (f 0)" "n \<le> 32"
    and "\<forall>j\<ge>k. \<forall>l'. wl (sy (f j)) i = Some l' \<longrightarrow> healthy (wcl l')"
    and "\<forall>j\<ge>k. \<forall>l' c. wl (sy (f j)) i = Some l' \<longrightarrow> cur l' = Some c \<longrightarrow> c < length (hist (sy (f k))) \<longrightarrow>
      sent (sq (sy (f j)) ! c) \<noteq> None"
    and "wl (sy (f k)) i = Some l" "ph l \<noteq> P_Hangup" "ph l \<noteq> P_Wait" "0 \<le> bsent l"
  shows "\<exists>j\<ge>k. \<exists>l' bs. wl (sy (f j)) i = Some l' \<and> wts l' = wts l \<and>
    wire (wcl l') = entitled (hist (sy (f k))) (wts l) (jpos (sy (f k)) i) (length (hist (sy (f k)))) @ bs"
proof -
  have facts: "proxy_reachable host extended ttl n clock src (f k)"
    by (rule run_reachable [OF assms(1,2)])
  have inv: "\<forall>k. proxy_inv host n (f k)"
    using pl.run_inv [OF assms(1)] proxy_facts [OF assms(2,3)] by blast
  obtain sched' where run: "fair_run (sys_move host ttl n) (sys_obliged host ttl n) sched' (\<lambda>k. sy (f k))"
    using tp.fair_run_part [OF assms(1) inv] by blast
  have "healthy (wcl l') \<and> (\<forall>c < length (hist (sy (f k))). cur l' = Some c \<longrightarrow> sent (sq (sy (f j)) ! c) \<noteq> None)"
    if "k \<le> j" "wl (sy (f j)) i = Some l'" for j l'
    using assms(4,5) that by blast
  from messages_eventually_delivered [OF run proxy_threads [OF assms(2,3)] assms(3) this assms(6-9)]
    proxy_facts [OF facts assms(3)] show ?thesis by simp
qed

text \<open>The worker of the demonstration takes its steps in fair weather.\<close>

fun drive_calm :: "nat \<Rightarrow> proxy \<Rightarrow> proxy option" where
  "drive_calm 0 p = Some p"
| "drive_calm (Suc k) p =
     (case drive_worker 1 5 0 p of
        None \<Rightarrow> None
      | Some q \<Rightarrow> if quiet_weather (sy q) then drive_calm k q else None)"

lemma drive_calm_path:
  "drive_calm k p = Some q \<Longrightarrow>
   (\<lambda>p q. (\<exists>m. proxy_move Little False 5 1 m p q) \<and> quiet_weather (sy q))\<^sup>*\<^sup>* p q"
proof (induction k arbitrary: p)
  case (Suc k)
  then obtain u where u: "drive_worker 1 5 0 p = Some u" "quiet_weather (sy u)" "drive_calm k u = Some q"
    by (auto split: option.splits if_splits simp del: drive_worker.simps)
  from u(1) obtain l s where "wl (sy p) 0 = Some l" "ph l \<noteq> P_Hangup" "allowed Little 1 (Work 0) (sy p)"
      "perform 5 (Work 0) (sy p) = Inr s" "u = p\<lparr>sy := s\<rparr>"
    by (auto split: option.splits if_splits sum.splits simp del: perform.simps allowed.simps)
  with proxy_step.work [of p 0 l Little 1 5 s False] have "proxy_move Little False 5 1 Part_Rest p u" by simp
  with u(2) Suc.IH [OF u(3)] show ?case by (blast intro: converse_rtranclp_into_rtranclp)
qed simp

theorem messages_reach_receivers_witness:
  "\<exists>sched f j l. fair_run (proxy_move Little False 5 1) (proxy_obliged Little False 5 1) sched f \<and>
    sy (f 0) = demo_queued \<and> wl (sy (f j)) 0 = Some l \<and> prefix (msg_bytes sample_msg) (wire (wcl l))"
proof -
  let ?p = "demo_serving demo_queued (demo_idle 4 95) [demo_bytes]"
  let ?q = "demo_serving demo_end (demo_idle 4 95) [demo_bytes]"
  have "drive_calm (Suc (Suc (Suc (Suc (Suc (Suc (Suc (Suc (Suc 0))))))))) ?p = Some ?q"
    by (simp add: demo_proxy_def demo_queued_def demo_joined_def demo_end_def demo_ts_def demo_simps fun_upd_idem
        quiet_weather_def sample_msg_def wf_sample_msg [unfolded sample_msg_def])
  note path = drive_calm_path [OF this]
  have "quiet_weather (sy ?p)"
    by (simp add: demo_proxy_def demo_queued_def demo_joined_def quiet_weather_def new_entry_def quiet_client_def
        init_local_def)
  moreover have "\<forall>m. \<not> proxy_obliged Little False 5 1 m ?q"
    by (rule demo_quiet) (simp_all add: demo_end_def wstep_def get_msg_entry_def wait_until_def TAILQ_NEXT_def
        msg_locked_def init_cleanup_def)
  ultimately obtain sched f where f: "fair_run (proxy_move Little False 5 1) (proxy_obliged Little False 5 1) sched f"
      "f 0 = ?p" "\<forall>k. quiet_weather (sy (f k))"
    using pl.fair_run_path [OF path] by blast
  have r: "proxy_reachable Little False 5 1 (\<lambda>_. demo_ts) demo_memory (f 0)"
    unfolding f(2)
    by (rule rtranclp_trans [OF rtranclp.rtrancl_into_rtrancl [OF demo_arrived demo_created] demo_reads])
  have w: "\<forall>j\<ge>0. \<forall>l'. wl (sy (f j)) 0 = Some l' \<longrightarrow> healthy (wcl l')"
      "\<forall>j\<ge>0. \<forall>l' c. wl (sy (f j)) 0 = Some l' \<longrightarrow> cur l' = Some c \<longrightarrow> c < length (hist (sy (f 0))) \<longrightarrow>
        sent (sq (sy (f j)) ! c) \<noteq> None"
    using f(3) by (simp_all add: quiet_weather_def healthy_def tx_clean_def)
  have s: "sy (f 0) = demo_queued" using f(2) by (simp add: demo_proxy_def)
  have "demo_ts < t_sec 5" by (simp add: compare_times_iff_less [symmetric] compare_times_def t_sec_def demo_ts_def)
  then have "\<exists>j l' bs. wl (sy (f j)) 0 = Some l' \<and> wire (wcl l') = msg_bytes sample_msg @ bs"
    using messages_reach_receivers [OF f(1) r _ w, of "init_local quiet_client demo_ts"] s
    by (auto simp: demo_queued_def demo_joined_def init_system_def init_local_def entitled_Suc)
  with f(1) s show ?thesis by (metis prefixI)
qed

end
