(* ===== verification/Args.thy ===== *)
theory Args
  imports Prelude
begin

text \<open>
  The command line, \<^verbatim>\<open>lib/args.c\<close> and \<^verbatim>\<open>lib/args.h\<close>: the option tables, the defaults and limits,
  and \<open>parse_args\<close>. \<open>getopt_long\<close> and \<open>atoi\<close> are modelled as the GNU C library documents them, for
  the option tables of the code and without \<open>POSIXLY_CORRECT\<close>: arguments that are not options are
  skipped, options may be clustered, and a long option may be abbreviated to a unique prefix.
\<close>

section \<open>Constants\<close>

definition DEFAULT_EXTENDED :: bool where
  [const_defs]: "DEFAULT_EXTENDED = False"

definition MIN_NUM_WORKERS :: int where
  [const_defs]: "MIN_NUM_WORKERS = 1"

definition MAX_NUM_WORKERS :: int where
  [const_defs]: "MAX_NUM_WORKERS = 64"

definition DEFAULT_NUM_WORKERS :: int where
  [const_defs]: "DEFAULT_NUM_WORKERS = 32"

definition MIN_BACKLOG :: int where
  [const_defs]: "MIN_BACKLOG = MIN_NUM_WORKERS"

definition MAX_BACKLOG :: int where
  [const_defs]: "MAX_BACKLOG = MAX_NUM_WORKERS"

definition DEFAULT_BACKLOG :: int where
  [const_defs]: "DEFAULT_BACKLOG = DEFAULT_NUM_WORKERS"

definition MIN_TTL :: int where
  [const_defs]: "MIN_TTL = 2"

definition MAX_TTL :: int where
  [const_defs]: "MAX_TTL = 10"

definition DEFAULT_TTL :: int where
  [const_defs]: "DEFAULT_TTL = 5"

record args =
  arg_extended :: bool
  arg_num_workers :: int
  arg_backlog :: int
  arg_ttl :: int

definition short_opts :: string where
  "short_opts = ''ehn:b:t:''"

text \<open>Name, whether an argument is required, and the short option it stands for.\<close>

definition long_opts :: "(string \<times> bool \<times> char) list" where
  "long_opts =
     [(''help'', False, CHR ''h''), (''extended'', False, CHR ''e''),
      (''num-workers'', True, CHR ''n''), (''backlog'', True, CHR ''b''), (''ttl'', True, CHR ''t'')]"

definition set_default_args :: args where
  "set_default_args =
     \<lparr>arg_extended = DEFAULT_EXTENDED, arg_num_workers = DEFAULT_NUM_WORKERS,
      arg_backlog = DEFAULT_BACKLOG, arg_ttl = DEFAULT_TTL\<rparr>"

definition valid_int_arg :: "int \<Rightarrow> int \<Rightarrow> int \<Rightarrow> bool" where
  "valid_int_arg arg mn mx \<longleftrightarrow> arg \<ge> mn \<and> arg \<le> mx"

section \<open>The C library\<close>

text \<open>Whether a short option is in the table and, if so, takes an argument.\<close>

fun opt_kind :: "string \<Rightarrow> char \<Rightarrow> bool option" where
  "opt_kind [] c = None"
| "opt_kind (o1 # os) c =
     (if c = CHR '':'' then None
      else if o1 = c then Some (case os of [] \<Rightarrow> False | o2 # _ \<Rightarrow> o2 = CHR '':'')
      else opt_kind os c)"

definition has_prefix :: "string \<Rightarrow> string \<Rightarrow> bool" where
  "has_prefix p s \<longleftrightarrow> take (length p) s = p"

definition find_long :: "string \<Rightarrow> (bool \<times> char) option" where
  "find_long name =
     (case map_of long_opts name of
        Some o1 \<Rightarrow> Some o1
      | None \<Rightarrow>
          (case filter (\<lambda>(n, _). has_prefix name n) long_opts of
             [(_, o1)] \<Rightarrow> Some o1
           | _ \<Rightarrow> None))"

text \<open>
  The results of the successive calls of \<open>getopt_long\<close> on what is left of the arguments: \<open>cluster\<close> is
  what is left of a word of short options. \<open>?\<close> is the result for an unknown or ambiguous option and for
  a missing or superfluous argument.
\<close>

fun getopt_long :: "string \<Rightarrow> string list \<Rightarrow> (char \<times> string) list" where
  "getopt_long [] [] = []"
| "getopt_long [] (w # ws) =
     (if w = ''--'' then []
      else if has_prefix ''--'' w
      then (let name = takeWhile (\<lambda>c. c \<noteq> CHR ''='') (drop 2 w);
                rest = dropWhile (\<lambda>c. c \<noteq> CHR ''='') (drop 2 w) in
            case find_long name of
              None \<Rightarrow> (CHR ''?'', []) # getopt_long [] ws
            | Some (False, c) \<Rightarrow>
                (if rest = [] then (c, []) else (CHR ''?'', [])) # getopt_long [] ws
            | Some (True, c) \<Rightarrow>
                if rest \<noteq> [] then (c, tl rest) # getopt_long [] ws
                else (case ws of
                        [] \<Rightarrow> [(CHR ''?'', [])]
                      | a # ws' \<Rightarrow> (c, a) # getopt_long [] ws'))
      else if has_prefix ''-'' w \<and> w \<noteq> ''-'' then getopt_long (tl w) ws
      else getopt_long [] ws)"
| "getopt_long (c # cs) ws =
     (case opt_kind short_opts c of
        None \<Rightarrow> (CHR ''?'', []) # getopt_long cs ws
      | Some False \<Rightarrow> (c, []) # getopt_long cs ws
      | Some True \<Rightarrow>
          if cs \<noteq> [] then (c, cs) # getopt_long [] ws
          else (case ws of
                  [] \<Rightarrow> [(CHR ''?'', [])]
                | a # ws' \<Rightarrow> (c, a) # getopt_long [] ws'))"

definition is_digit :: "char \<Rightarrow> bool" where
  "is_digit c \<longleftrightarrow> 48 \<le> (of_char c :: nat) \<and> (of_char c :: nat) \<le> 57"

definition is_space :: "char \<Rightarrow> bool" where
  "is_space c \<longleftrightarrow> (of_char c :: nat) = 32 \<or> 9 \<le> (of_char c :: nat) \<and> (of_char c :: nat) \<le> 13"

definition digits_val :: "string \<Rightarrow> int" where
  "digits_val s = foldl (\<lambda>v c. 10 * v + (of_char c - 48)) 0 (takeWhile is_digit s)"

text \<open>\<open>strtol\<close> saturates at the limits of \<open>long\<close>; \<open>atoi\<close> converts its result to \<open>int\<close>.\<close>

definition strtol :: "string \<Rightarrow> int" where
  "strtol s0 =
     (let s = dropWhile is_space s0;
          v = (case s of
                 [] \<Rightarrow> 0
               | c # cs \<Rightarrow> if c = CHR ''-'' then - digits_val cs
                           else if c = CHR ''+'' then digits_val cs else digits_val s)
      in max (- (2 ^ 63)) (min (2 ^ 63 - 1) v))"

definition atoi :: "string \<Rightarrow> int" where
  "atoi s = signed_take_bit 31 (strtol s)"

section \<open>Parsing\<close>

text \<open>
  What \<open>parse_args\<close> prints: the usage to the standard output, or the error line for an argument with
  its name, value and limits.
\<close>

datatype arg_output = Usage | Arg_Err string int int int

text \<open>One result of \<open>getopt_long\<close>: the new arguments, or what is printed and the exit status.\<close>

definition set_int_arg ::
  "string \<Rightarrow> int \<Rightarrow> int \<Rightarrow> int \<Rightarrow> args \<Rightarrow> (arg_output \<times> fault) + args" where
  "set_int_arg name v mn mx a' =
     (if valid_int_arg v mn mx then Inr a' else Inl (Arg_Err name v mn mx, Exited 1))"

definition parse_opt :: "char \<times> string \<Rightarrow> args \<Rightarrow> (arg_output \<times> fault) + args" where
  "parse_opt = (\<lambda>(opt, optarg) a.
     if opt = CHR ''h'' then Inl (Usage, Exited 0)
     else if opt = CHR ''e'' then Inr (a\<lparr>arg_extended := True\<rparr>)
     else if opt = CHR ''n''
     then set_int_arg ''number of workers'' (atoi optarg) MIN_NUM_WORKERS MAX_NUM_WORKERS
            (a\<lparr>arg_num_workers := atoi optarg\<rparr>)
     else if opt = CHR ''b''
     then set_int_arg ''backlog'' (atoi optarg) MIN_BACKLOG MAX_BACKLOG (a\<lparr>arg_backlog := atoi optarg\<rparr>)
     else if opt = CHR ''t''
     then set_int_arg ''TTL'' (atoi optarg) MIN_TTL MAX_TTL (a\<lparr>arg_ttl := atoi optarg\<rparr>)
     else Inl (Usage, Exited 1))"

fun parse_opts :: "(char \<times> string) list \<Rightarrow> args \<Rightarrow> (arg_output \<times> fault) + args" where
  "parse_opts [] a = Inr a"
| "parse_opts (opt # opts) a =
     (case parse_opt opt a of Inl e \<Rightarrow> Inl e | Inr a' \<Rightarrow> parse_opts opts a')"

definition parse_args :: "string list \<Rightarrow> args \<Rightarrow> (arg_output \<times> fault) + args" where
  "parse_args argv a = parse_opts (getopt_long [] (tl argv)) a"

section \<open>Limits\<close>

definition args_ok :: "args \<Rightarrow> bool" where
  "args_ok a \<longleftrightarrow> arg_num_workers a \<in> {1..64} \<and> arg_backlog a \<in> {1..64} \<and> arg_ttl a \<in> {2..10}"

lemma args_ok_default: "args_ok set_default_args"
  by (simp add: args_ok_def set_default_args_def const_defs)

lemma parse_opt_ok: "args_ok a \<Longrightarrow> parse_opt opt a = Inr a' \<Longrightarrow> args_ok a'"
  by (auto simp: parse_opt_def set_int_arg_def valid_int_arg_def args_ok_def const_defs
      split: prod.splits if_splits)

lemma parse_opts_ok: "args_ok a \<Longrightarrow> parse_opts opts a = Inr a' \<Longrightarrow> args_ok a'"
  by (induction opts arbitrary: a) (auto split: sum.splits dest: parse_opt_ok)

lemma parse_opts_exit:
  "parse_opts opts a = Inl (out, f) \<Longrightarrow> f = Exited 0 \<and> out = Usage \<or> f = Exited 1"
proof (induction opts arbitrary: a)
  case (Cons opt opts)
  then show ?case
    by (cases "parse_opt opt a")
      (auto simp: parse_opt_def set_int_arg_def split: prod.splits if_splits)
qed simp

lemma parse_opts_append:
  "parse_opts (xs @ ys) a = (case parse_opts xs a of Inl e \<Rightarrow> Inl e | Inr a' \<Rightarrow> parse_opts ys a')"
  by (induction xs arbitrary: a) (auto split: sum.splits)

section \<open>Properties\<close>

lemma parse_opts_reject:
  "parse_opts opts a = Inl (Arg_Err name v mn mx, f) \<Longrightarrow> \<not> (mn \<le> v \<and> v \<le> mx) \<and> f = Exited 1"
proof (induction opts arbitrary: a)
  case (Cons opt opts)
  then show ?case
    by (cases "parse_opt opt a")
      (auto simp: parse_opt_def set_int_arg_def valid_int_arg_def split: prod.splits if_splits)
qed simp

text \<open>
  Property C40. Whatever the command line, \<open>parse_args\<close> on the defaults either exits, with status 0 only
  after printing the usage, or leaves every argument within its limits; and an argument that is rejected is one
  whose value is outside the limits it reports.
\<close>

theorem parsed_args_within_limits:
  "case parse_args argv set_default_args of
     Inr a \<Rightarrow> 1 \<le> arg_num_workers a \<and> arg_num_workers a \<le> 64 \<and> 1 \<le> arg_backlog a \<and>
       arg_backlog a \<le> 64 \<and> 2 \<le> arg_ttl a \<and> arg_ttl a \<le> 10
   | Inl (Usage, f) \<Rightarrow> f = Exited 0 \<or> f = Exited 1
   | Inl (Arg_Err name v mn mx, f) \<Rightarrow> f = Exited 1 \<and> (v < mn \<or> mx < v)"
proof (cases "parse_args argv set_default_args")
  case (Inl e)
  obtain out f where e: "e = (out, f)" by (cases e)
  show ?thesis
  proof (cases out)
    case Usage
    then show ?thesis using Inl e parse_opts_exit by (auto simp: parse_args_def)
  next
    case (Arg_Err name v mn mx)
    then show ?thesis
      using Inl e parse_opts_reject [of "getopt_long [] (tl argv)" set_default_args name v mn mx f]
      by (auto simp: parse_args_def)
  qed
next
  case (Inr a)
  then show ?thesis
    using parse_opts_ok [OF args_ok_default] by (auto simp: parse_args_def args_ok_def)
qed

text \<open>
  The limits are checked on the value of \<open>atoi\<close>, which is the number in the argument modulo
  \<open>2 ^ 32\<close>: a number of workers far outside the limits is accepted when its remainder is within them.
\<close>

lemma num_workers_modulo:
  assumes "- (2 ^ 63) \<le> n" "n < 2 ^ 63" "strtol s = n"
  shows "(\<exists>a'. parse_opt (CHR ''n'', s) a = Inr a') \<longleftrightarrow>
    (n + 2 ^ 31) mod 2 ^ 32 - 2 ^ 31 \<in> {1..64}"
  using assms
  by (auto simp: parse_opt_def set_int_arg_def valid_int_arg_def const_defs atoi_def
      signed_take_bit_eq_take_bit_shift take_bit_eq_mod)

lemma num_workers_modulo_witness:
  "strtol ''4294967301'' = 4294967301 \<and> (\<exists>a'. parse_opt (CHR ''n'', ''4294967301'') set_default_args = Inr a')"
proof -
  have "strtol ''4294967301'' = 4294967301" by code_simp
  then show ?thesis using num_workers_modulo [of 4294967301 "''4294967301''" set_default_args] by simp
qed

end
