(* ===== verification/Startup.thy ===== *)
theory Startup
  imports Args Dst_Server
begin

text \<open>
  The start of the program, \<open>main\<close> of \<^verbatim>\<open>ws_server.c\<close> up to the call of \<open>run_src_server\<close>: the command
  line decides the size of the worker pool the destination server searches.
\<close>

text \<open>\<open>res_dst\<close> and \<open>res_cleanup\<close> are the results of the two calls of \<open>pthread_create\<close>.\<close>

definition main_start ::
  "string list \<Rightarrow> (nat \<Rightarrow> timespec) \<Rightarrow> int \<Rightarrow> int \<Rightarrow> fault + args \<times> worker_list" where
  "main_start argv clock res_dst res_cleanup =
     (case parse_args argv set_default_args of
        Inl (out, f) \<Rightarrow> Inl f
      | Inr init_args \<Rightarrow>
          let dst = init_workers (nat (arg_num_workers init_args)) clock in
          if res_dst \<noteq> 0 then Inl (Exited res_dst)
          else if res_cleanup \<noteq> 0 then Inl (Exited res_cleanup)
          else Inr (init_args, dst))"

text \<open>
  Property C32. The program starts with a consistent pool when it is asked for at most 32 workers; when it is
  asked for more, which the limits allow, it starts as well, but a search for an idle worker while the
  first 32 are busy is undefined.
\<close>

theorem start_consistent_or_undefined:
  assumes "main_start argv clock 0 0 = Inr (a, l)"
  shows "1 \<le> num_workers l \<and> num_workers l \<le> 64 \<and> int (num_workers l) = arg_num_workers a \<and>
    (num_workers l \<le> 32 \<longrightarrow> pool_ok l \<and> find_idle_thread l = Inr 0) \<and>
    (32 < num_workers l \<longrightarrow> (\<forall>m. (\<forall>j < 32. int j \<in> mask_flags m) \<longrightarrow>
       find_idle_thread (l\<lparr>threads_status := m\<rparr>) = Inl Shift_UB))"
proof -
  let ?n = "nat (arg_num_workers a)"
  have p: "parse_opts (getopt_long [] (tl argv)) set_default_args = Inr a" "l = init_workers ?n clock"
    using assms by (auto simp: main_start_def parse_args_def Let_def split: sum.splits prod.splits)
  then have a: "1 \<le> arg_num_workers a" "arg_num_workers a \<le> 64"
    using parse_opts_ok [OF args_ok_default p(1)] by (simp_all add: args_ok_def)
  have n: "num_workers l = ?n" by (simp add: p(2) init_workers_def)
  have "find_idle_thread l = Inr 0" if "?n \<le> 32"
    using find_idle_thread_ok [OF pool_ok_init [OF that], of clock] a
    by (cases ?n) (auto simp: p(2) init_workers_def const_defs upt_conv_Cons simp del: upt_Suc)
  moreover have "find_idle_thread (l\<lparr>threads_status := m\<rparr>) = Inl Shift_UB"
    if "32 < ?n" "\<forall>j < 32. int j \<in> mask_flags m" for m
    using find_idle_from_all_busy [of 0 m ?n] that n by (simp add: find_idle_thread_def)
  ultimately show ?thesis using a n pool_ok_init [of ?n clock] by (auto simp: p(2))
qed

theorem start_consistent_or_undefined_witness:
  "\<exists>a l. main_start [''ws_server'', ''-n'', ''33''] (\<lambda>_. epoch) 0 0 = Inr (a, l) \<and> num_workers l = 33 \<and>
     find_idle_thread (l\<lparr>threads_status := - 1\<rparr>) = Inl Shift_UB"
proof -
  have "parse_args [''ws_server'', ''-n'', ''33''] set_default_args =
      Inr (set_default_args\<lparr>arg_num_workers := 33\<rparr>)" by code_simp
  then obtain a l where "main_start [''ws_server'', ''-n'', ''33''] (\<lambda>_. epoch) 0 0 = Inr (a, l)"
      "arg_num_workers a = 33" by (simp add: main_start_def)
  moreover have "int j \<in> mask_flags (- 1)" if "j < 32" for j
    using that flag_span_own [OF that]
    by (auto simp: flags_of_def flag_pos_def is_set_bits intro!: bexI [of _ j])
  ultimately show ?thesis using start_consistent_or_undefined by fastforce
qed

end
