(* ===== verification/Log.thy ===== *)
theory Log
  imports Ctmp
begin

text \<open>
  The log lines of \<^verbatim>\<open>lib/log.c\<close>: \<open>format_msg\<close> puts the time in front of the caller's format in a
  buffer of \<open>MAX_LOG_MSG\<close> bytes and expands it into another one. Strings are without their NUL. The time
  string is an argument; \<open>vsnprintf\<close> is modelled for the conversions the program uses, and an
  unsupported or mismatched conversion is undefined (\<open>None\<close>).
\<close>

definition MAX_TIME_STR :: nat where
  [const_defs]: "MAX_TIME_STR = 21"

definition MAX_LOG_MSG :: nat where
  [const_defs]: "MAX_LOG_MSG = 128"

section \<open>Conversions\<close>

datatype log_arg = A_Int int | A_Uint nat | A_Str string

definition digit :: "nat \<Rightarrow> char" where
  "digit d = (if d < 10 then char_of (48 + d) else char_of (87 + d))"

fun show_nat :: "nat \<Rightarrow> string" where
  "show_nat n = (if n < 10 then [digit n] else show_nat (n div 10) @ [digit (n mod 10)])"

declare show_nat.simps [simp del]

definition show_int :: "int \<Rightarrow> string" where
  "show_int i = (if i < 0 then CHR ''-'' # show_nat (nat (- i)) else show_nat (nat i))"

text \<open>\<open>%02x\<close> of a byte.\<close>

definition show_hex2 :: "nat \<Rightarrow> string" where
  "show_hex2 n = [digit (n div 16 mod 16), digit (n mod 16)]"

fun expand :: "string \<Rightarrow> log_arg list \<Rightarrow> string option" where
  "expand [] vs = Some []"
| "expand (c # fmt) vs =
     (if c \<noteq> CHR ''%'' then map_option ((#) c) (expand fmt vs)
      else case (fmt, vs) of
        (CHR ''d'' # r, A_Int i # vs') \<Rightarrow> map_option ((@) (show_int i)) (expand r vs')
      | (CHR ''u'' # r, A_Uint n # vs') \<Rightarrow> map_option ((@) (show_nat n)) (expand r vs')
      | (CHR ''s'' # r, A_Str s # vs') \<Rightarrow> map_option ((@) s) (expand r vs')
      | (CHR ''0'' # CHR ''2'' # CHR ''x'' # r, A_Uint n # vs') \<Rightarrow>
          if n < 256 then map_option ((@) (show_hex2 n)) (expand r vs') else None
      | _ \<Rightarrow> None)"

section \<open>The code\<close>

definition format_msg :: "string \<Rightarrow> string \<Rightarrow> log_arg list \<Rightarrow> string option" where
  "format_msg time_str fmt vs =
     (let msg_fmt = take MAX_LOG_MSG time_str;
          msg_fmt = msg_fmt @ take (MAX_LOG_MSG - (length msg_fmt + 1)) fmt
      in map_option (take (MAX_LOG_MSG - 1)) (expand msg_fmt vs))"

text \<open>The calls of \<open>pr_err\<close> in the parsers; \<open>perror\<close> lines do not go through \<open>format_msg\<close>.\<close>

fun diag_call :: "diag \<Rightarrow> (string \<times> log_arg list) option" where
  "diag_call (Perror_Read e) = None"
| "diag_call (Bad_Magic a b) =
     Some (''invalid message: magic byte check failed (found 0x%02x, expected 0x%02x)\<newline>'',
           [A_Uint (unat a), A_Uint (unat b)])"
| "diag_call Bad_Padding = Some (''invalid message: incorrect padding\<newline>'', [])"
| "diag_call (Bad_Checksum a b) =
     Some (''invalid message: checksum validation failed (found %u, expected %u)\<newline>'',
           [A_Uint (unat a), A_Uint (unat b)])"
| "diag_call (Bad_Options a) = Some (''invalid options (0x%02x)\<newline>'', [A_Uint (unat a)])"

section \<open>Lengths\<close>

lemma expand_append:
  "CHR ''%'' \<notin> set s \<Longrightarrow> expand (s @ fmt) vs = map_option ((@) s) (expand fmt vs)"
  by (induction s; cases "expand fmt vs") auto

lemma length_show_nat_u16: "n < 65536 \<Longrightarrow> length (show_nat n) \<le> 5"
proof -
  have "length (show_nat n) \<le> Suc k" if "n < 10 ^ Suc k" for k
    using that
  proof (induction k arbitrary: n)
    case 0
    then show ?case by (simp add: show_nat.simps [of n])
  next
    case (Suc k)
    have "n div 10 < 10 ^ Suc k" using Suc.prems by (simp add: less_mult_imp_div_less)
    with Suc.IH show ?case by (subst show_nat.simps) simp
  qed
  from this [of 4] show "n < 65536 \<Longrightarrow> ?thesis" by simp
qed

lemma format_msg_full:
  assumes "length time_str \<le> 20" "CHR ''%'' \<notin> set time_str" "length fmt \<le> 107"
    and "expand fmt vs = Some s" "length s \<le> 107"
  shows "format_msg time_str fmt vs = Some (time_str @ s)"
  using assms by (simp add: format_msg_def expand_append const_defs)

section \<open>Properties\<close>

text \<open>
  A log line never overruns its buffer, and the lines the parsers log are complete: neither the
  format nor the text is cut off, whatever the values, with a time string of at most 20 characters.
\<close>

lemma parser_log_lines_complete:
  assumes "length time_str < MAX_TIME_STR" "CHR ''%'' \<notin> set time_str" "diag_call d = Some (fmt, vs)"
  shows "(\<exists>s. expand fmt vs = Some s \<and> format_msg time_str fmt vs = Some (time_str @ s)) \<and>
    (\<forall>fmt' vs' line. format_msg time_str fmt' vs' = Some line \<longrightarrow> length line < MAX_LOG_MSG)"
proof -
  have "length fmt \<le> 107 \<and> (\<exists>s. expand fmt vs = Some s \<and> length s \<le> 107)"
  proof (cases d)
    case (Bad_Checksum a b)
    then show ?thesis
      using assms(3) length_show_nat_u16 [of "unat a"] length_show_nat_u16 [of "unat b"] by auto
  qed (use assms(3) in \<open>auto simp: show_hex2_def\<close>)
  then show ?thesis
    using format_msg_full [OF _ assms(2), of fmt vs] assms(1)
    by (auto simp: format_msg_def const_defs)
qed

lemma parser_log_lines_complete_witness:
  "\<exists>s. format_msg ''2025-08-01 12:00:00 '' ''invalid options (0x%02x)\<newline>'' [A_Uint 0x41] =
    Some (''2025-08-01 12:00:00 '' @ s)"
  using parser_log_lines_complete [of "''2025-08-01 12:00:00 ''" "Bad_Options 0x41"]
  by (auto simp: const_defs)

end
