(* ===== verification/Cli_Output.thy ===== *)
theory Cli_Output
  imports Args Log
begin

text \<open>
  What the program prints for its user: \<open>usage\<close> and \<open>pr_arg_err\<close> of \<^verbatim>\<open>lib/args.c\<close>, over \<open>format_time\<close>, \<open>pr_err\<close> and
  \<open>pr_debug\<close> of \<^verbatim>\<open>lib/log.c\<close>. The broken-down local time is an argument; \<open>basename\<close> and \<open>strftime\<close> are modelled
  as POSIX documents them, the latter for the format the program uses.
\<close>

section \<open>The time string\<close>

record tm =
  tm_year :: nat
  tm_mon :: nat
  tm_mday :: nat
  tm_hour :: nat
  tm_min :: nat
  tm_sec :: nat

text \<open>\<open>%m\<close>, \<open>%d\<close>, \<open>%H\<close>, \<open>%M\<close> and \<open>%S\<close> are two digits.\<close>

definition two_digits :: "nat \<Rightarrow> string" where
  "two_digits n = [digit (n div 10 mod 10), digit (n mod 10)]"

definition TIME_FMT :: "tm \<Rightarrow> string" where
  "TIME_FMT t = show_nat (1900 + tm_year t) @ ''-'' @ two_digits (Suc (tm_mon t)) @ ''-'' @
     two_digits (tm_mday t) @ '' '' @ two_digits (tm_hour t) @ '':'' @ two_digits (tm_min t) @ '':'' @
     two_digits (tm_sec t) @ '' ''"

text \<open>\<open>strftime\<close> leaves the buffer undefined when the text and its NUL do not fit.\<close>

definition format_time :: "tm \<Rightarrow> string option" where
  "format_time t = (if length (TIME_FMT t) < MAX_TIME_STR then Some (TIME_FMT t) else None)"

definition pr_err :: "tm \<Rightarrow> string \<Rightarrow> log_arg list \<Rightarrow> string option" where
  "pr_err t fmt vs = (case format_time t of None \<Rightarrow> None | Some time_str \<Rightarrow> format_msg time_str fmt vs)"

text \<open>The line goes to the standard output, and only when the program is compiled with \<open>DEBUG\<close>.\<close>

definition pr_debug :: "bool \<Rightarrow> tm \<Rightarrow> string \<Rightarrow> log_arg list \<Rightarrow> string option" where
  "pr_debug DEBUG t fmt vs = (if DEBUG then pr_err t fmt vs else Some '''')"

section \<open>Usage and rejected arguments\<close>

definition basename :: "string \<Rightarrow> string" where
  "basename path =
     (if path = '''' then ''.''
      else let s = rev (dropWhile (\<lambda>c. c = CHR ''/'') (rev path)) in
        if s = '''' then ''/'' else rev (takeWhile (\<lambda>c. c \<noteq> CHR ''/'') (rev s)))"

definition usage :: "string \<Rightarrow> string" where
  "usage prog_name =
     ''usage: '' @ basename prog_name @ '' [OPTIONS]\<newline>'' @
     ''-e, --extended: use extended CTMP\<newline>'' @
     ''-n, --num-workers <NUM>: maximum number of client worker threads to use\<newline>'' @
     ''-b, --backlog <LEN>: backlog length for listen(2)\<newline>'' @
     ''-t, --ttl <DURATION>: message time to live in seconds\<newline>'' @
     ''-h, --help: print this message and exit\<newline>''"

definition pr_arg_err :: "tm \<Rightarrow> string \<Rightarrow> int \<Rightarrow> int \<Rightarrow> int \<Rightarrow> string option" where
  "pr_arg_err t arg_name arg_val mn mx =
     pr_err t ''invalid %s %d: must be between %d and %d\<newline>''
       [A_Str arg_name, A_Int arg_val, A_Int mn, A_Int mx]"

text \<open>What \<open>parse_args\<close> prints when it exits: to the standard output and to the standard error.\<close>

fun arg_output_text :: "string \<Rightarrow> tm \<Rightarrow> arg_output \<Rightarrow> (string \<times> string) option" where
  "arg_output_text prog t Usage = Some (usage prog, '''')"
| "arg_output_text prog t (Arg_Err name v mn mx) =
     map_option (\<lambda>line. ('''', line)) (pr_arg_err t name v mn mx)"

section \<open>Lengths\<close>

lemma length_show_nat: "n < 10 ^ Suc k \<Longrightarrow> length (show_nat n) \<le> Suc k"
proof (induction k arbitrary: n)
  case 0
  then show ?case by (simp add: show_nat.simps [of n])
next
  case (Suc k)
  have "n div 10 < 10 ^ Suc k" using Suc.prems by (simp add: less_mult_imp_div_less)
  with Suc.IH show ?case by (subst show_nat.simps) simp
qed

lemma length_show_int: "- (2 ^ 31) \<le> i \<Longrightarrow> i < 2 ^ 31 \<Longrightarrow> length (show_int i) \<le> 11"
proof -
  assume "- (2 ^ 31) \<le> i" "i < 2 ^ 31"
  then have "nat i < 10 ^ Suc 9" "nat (- i) < 10 ^ Suc 9" by simp_all
  then have "length (show_nat (nat i)) \<le> 10" "length (show_nat (nat (- i))) \<le> 10"
    using length_show_nat by fastforce+
  then show ?thesis by (simp add: show_int_def)
qed

lemma digit_not_percent: "CHR ''%'' \<noteq> digit (n mod 10)"
proof -
  have "list_all (\<lambda>d. CHR ''%'' \<noteq> digit d) [0..<10]" by code_simp
  then show ?thesis by (simp add: list_all_iff)
qed

lemma show_nat_not_percent: "CHR ''%'' \<notin> set (show_nat n)"
proof (induction n rule: show_nat.induct)
  case (1 n)
  then show ?case using digit_not_percent [of n] by (subst show_nat.simps) auto
qed

lemma two_digits_not_percent: "CHR ''%'' \<notin> set (two_digits n)"
  using digit_not_percent by (auto simp: two_digits_def)

text \<open>Up to the year 9999 the time string fits, and it is no format.\<close>

lemma format_time_ok:
  assumes "tm_year t < 8100"
  shows "format_time t = Some (TIME_FMT t) \<and> length (TIME_FMT t) \<le> 20 \<and> CHR ''%'' \<notin> set (TIME_FMT t)"
  using assms length_show_nat [of "1900 + tm_year t" 3] show_nat_not_percent two_digits_not_percent
  by (simp add: format_time_def TIME_FMT_def two_digits_def const_defs)

section \<open>Properties\<close>

lemma parse_opts_err:
  "parse_opts opts a = Inl (Arg_Err name v mn mx, f) \<Longrightarrow>
   length name \<le> 17 \<and> - (2 ^ 31) \<le> v \<and> v < 2 ^ 31 \<and> (mn, mx) \<in> {(1, 64), (2, 10)}"
proof (induction opts arbitrary: a)
  case (Cons opt opts)
  have "- (2 ^ 31) \<le> atoi s \<and> atoi s < 2 ^ 31" for s
    unfolding atoi_def
    using signed_take_bit_int_greater_eq_minus_exp [of 31 "strtol s"] signed_take_bit_int_less_exp [of 31 "strtol s"]
    by simp
  with Cons show ?case
    by (cases "parse_opt opt a")
      (auto simp: parse_opt_def set_int_arg_def const_defs split: prod.splits if_splits)
qed simp

lemma length_limits:
  "length (show_int 1) \<le> 2" "length (show_int 2) \<le> 2" "length (show_int 10) \<le> 2" "length (show_int 64) \<le> 2"
  by code_simp+

text \<open>
  When \<open>parse_args\<close> exits it has said why, and completely: the usage, or a line with the name of the
  argument, its value and its limits that is not cut off by the buffers of the logger.
\<close>

lemma parse_args_says_why:
  assumes "parse_args argv set_default_args = Inl (out, f)" "tm_year t < 8100"
  shows "arg_output_text prog t out = Some (case out of
      Usage \<Rightarrow> (usage prog, '''')
    | Arg_Err name v mn mx \<Rightarrow> ('''', TIME_FMT t @ ''invalid '' @ name @ '' '' @ show_int v @
        '': must be between '' @ show_int mn @ '' and '' @ show_int mx @ ''\<newline>''))"
proof (cases out)
  case (Arg_Err name v mn mx)
  let ?fmt = "''invalid %s %d: must be between %d and %d\<newline>''"
  have e: "length name \<le> 17" "length (show_int v) \<le> 11" "length (show_int mn) \<le> 2" "length (show_int mx) \<le> 2"
    using parse_opts_err [of "getopt_long [] (tl argv)" set_default_args name v mn mx f] assms(1) Arg_Err
      length_show_int [of v] by (auto simp: parse_args_def length_limits)
  have "expand ?fmt [A_Str name, A_Int v, A_Int mn, A_Int mx] = Some (''invalid '' @ name @ '' '' @ show_int v @
      '': must be between '' @ show_int mn @ '' and '' @ show_int mx @ ''\<newline>'')" by simp
  from format_msg_full [OF _ _ _ this] format_time_ok [OF assms(2)] e Arg_Err show ?thesis
    by (simp add: pr_arg_err_def pr_err_def)
qed simp

lemma arg_output_example:
  "arg_output_text ''./ws_server'' \<lparr>tm_year = 125, tm_mon = 7, tm_mday = 1, tm_hour = 12, tm_min = 0, tm_sec = 5\<rparr>
     (Arg_Err ''TTL'' 11 2 10) =
   Some ('''', ''2025-08-01 12:00:05 invalid TTL 11: must be between 2 and 10\<newline>'')"
  by code_simp

end
