(* ===== verification/Socket_Server.thy ===== *)
theory Socket_Server
  imports Socket_IO
begin

text \<open>
  Listening sockets, \<^verbatim>\<open>lib/socket.c\<close>: \<open>server_create\<close> with its cleanup path, \<open>server_accept\<close> and
  \<open>server_close\<close>. The kernel's part is a state: the open descriptors with what has been configured on
  them, the heap blocks in use and the lines logged. What the system calls answer is an argument.
\<close>

section \<open>The kernel\<close>

text \<open>\<open>sin_port\<close> is the two bytes in memory.\<close>

record sockaddr_in =
  sin_family :: int
  s_addr :: u32
  sin_port :: "byte list"

text \<open>An open socket: the options set, the address bound and the backlog it listens with.\<close>

record sock =
  sock_opts :: "u32 list"
  bound :: "sockaddr_in option"
  listening :: "int option"

record kernel =
  fds :: "int \<rightharpoonup> sock"
  heap :: nat
  err_log :: "(string \<times> errno) list"

text \<open>The values of the constants on Linux.\<close>

definition AF_INET :: int where
  [const_defs]: "AF_INET = 2"

definition INADDR_ANY :: u32 where
  [const_defs]: "INADDR_ANY = 0"

definition SO_REUSEADDR :: u32 where
  [const_defs]: "SO_REUSEADDR = 2"

definition SO_REUSEPORT :: u32 where
  [const_defs]: "SO_REUSEPORT = 15"

definition SRC_PORT :: int where
  [const_defs]: "SRC_PORT = 33333"

definition DST_PORT :: int where
  [const_defs]: "DST_PORT = 44444"

section \<open>The code\<close>

text \<open>\<open>htons(port)\<close>: the port is converted to 16 bits and stored in network order.\<close>

definition htons_bytes :: "int \<Rightarrow> byte list" where
  "htons_bytes port = [word_of_int (port div 256), word_of_int port]"

definition server_address :: "int \<Rightarrow> sockaddr_in" where
  "server_address port =
     \<lparr>sin_family = AF_INET, s_addr = INADDR_ANY, sin_port = htons_bytes port\<rparr>"

record server_socket =
  server_fd :: int
  server_addr :: sockaddr_in

text \<open>What the four system calls of \<open>server_create\<close> answer: an error, or success.\<close>

record create_answers =
  ans_socket :: "errno + int"
  ans_setsockopt :: "errno option"
  ans_bind :: "errno option"
  ans_listen :: "errno option"

definition p_error :: "string \<Rightarrow> errno \<Rightarrow> kernel \<Rightarrow> kernel" where
  "p_error who e k = k\<lparr>err_log := err_log k @ [(who, e)]\<rparr>"

definition close_fd :: "int \<Rightarrow> kernel \<Rightarrow> kernel" where
  "close_fd fd k = k\<lparr>fds := (fds k)(fd := None)\<rparr>"

definition free_server :: "kernel \<Rightarrow> kernel" where
  "free_server k = k\<lparr>heap := heap k - 1\<rparr>"

text \<open>Label \<open>cleanup\<close>, with the error that was reported before the jump.\<close>

definition create_cleanup ::
  "string \<Rightarrow> errno \<Rightarrow> int \<Rightarrow> kernel \<Rightarrow> fault + server_socket option \<times> kernel" where
  "create_cleanup who e fd k = Inr (None, free_server (close_fd fd (p_error who e k)))"

definition on_sock :: "int \<Rightarrow> (sock \<Rightarrow> sock) \<Rightarrow> kernel \<Rightarrow> kernel" where
  "on_sock fd f k = k\<lparr>fds := (fds k)(fd := map_option f (fds k fd))\<rparr>"

definition server_create ::
  "bool \<Rightarrow> create_answers \<Rightarrow> int \<Rightarrow> int \<Rightarrow> kernel \<Rightarrow>
   fault + server_socket option \<times> kernel" where
  "server_create malloc_ok ans port backlog k =
     (if \<not> malloc_ok then Inl (Exited (errno_code ENOMEM))
      else let k1 = k\<lparr>heap := Suc (heap k)\<rparr> in
        case ans_socket ans of
          Inl e \<Rightarrow> create_cleanup ''socket'' e (- 1) k1
        | Inr fd \<Rightarrow>
            let k2 = k1\<lparr>fds := (fds k1)(fd \<mapsto> \<lparr>sock_opts = [], bound = None, listening = None\<rparr>)\<rparr> in
            (case ans_setsockopt ans of
               Some e \<Rightarrow> create_cleanup ''setsockopt'' e fd k2
             | None \<Rightarrow>
                 let k3 = on_sock fd (\<lambda>so. so\<lparr>sock_opts := sock_opts so @ [SO_REUSEADDR OR SO_REUSEPORT]\<rparr>) k2;
                     addr = server_address port in
                 (case ans_bind ans of
                    Some e \<Rightarrow> create_cleanup ''bind'' e fd k3
                  | None \<Rightarrow>
                      let k4 = on_sock fd (\<lambda>so. so\<lparr>bound := Some addr\<rparr>) k3 in
                      (case ans_listen ans of
                         Some e \<Rightarrow> create_cleanup ''listen'' e fd k4
                       | None \<Rightarrow>
                           Inr (Some \<lparr>server_fd = fd, server_addr = addr\<rparr>,
                             on_sock fd (\<lambda>so. so\<lparr>listening := Some backlog\<rparr>) k4)))))"

text \<open>\<open>accept\<close> answers with an error or a new descriptor.\<close>

definition server_accept :: "errno + int \<Rightarrow> kernel \<Rightarrow> int \<times> kernel" where
  "server_accept ans k =
     (case ans of
        Inl e \<Rightarrow> (- errno_code e, p_error ''accept'' e k)
      | Inr fd \<Rightarrow> (fd, k\<lparr>fds := (fds k)(fd \<mapsto> \<lparr>sock_opts = [], bound = None, listening = None\<rparr>)\<rparr>))"

definition server_close :: "server_socket \<Rightarrow> kernel \<Rightarrow> kernel" where
  "server_close srv k = free_server (close_fd (server_fd srv) k)"

section \<open>Properties\<close>

text \<open>The descriptor \<open>socket\<close> answers with is not open yet.\<close>

definition fresh_fd :: "create_answers \<Rightarrow> kernel \<Rightarrow> bool" where
  "fresh_fd ans k \<longleftrightarrow> (case ans_socket ans of Inl e \<Rightarrow> True | Inr fd \<Rightarrow> 0 \<le> fd \<and> fds k fd = None)"

lemma reuse_or [simp]: "SO_REUSEADDR OR SO_REUSEPORT = SO_REUSEPORT"
  by (simp add: const_defs)

lemma server_create_cases:
  "server_create True ans port backlog k =
     (case ans_socket ans of
        Inl e \<Rightarrow> Inr (None, k\<lparr>fds := (fds k)(- 1 := None), err_log := err_log k @ [(''socket'', e)]\<rparr>)
      | Inr fd \<Rightarrow>
          (case (ans_setsockopt ans, ans_bind ans, ans_listen ans) of
             (Some e, _) \<Rightarrow> Inr (None, k\<lparr>fds := (fds k)(fd := None), err_log := err_log k @ [(''setsockopt'', e)]\<rparr>)
           | (None, Some e, _) \<Rightarrow> Inr (None, k\<lparr>fds := (fds k)(fd := None), err_log := err_log k @ [(''bind'', e)]\<rparr>)
           | (None, None, Some e) \<Rightarrow> Inr (None, k\<lparr>fds := (fds k)(fd := None), err_log := err_log k @ [(''listen'', e)]\<rparr>)
           | (None, None, None) \<Rightarrow>
               Inr (Some \<lparr>server_fd = fd, server_addr = server_address port\<rparr>,
                 k\<lparr>heap := Suc (heap k), fds := (fds k)(fd \<mapsto>
                   \<lparr>sock_opts = [SO_REUSEPORT], bound = Some (server_address port),
                    listening = Some backlog\<rparr>)\<rparr>)))"
  by (simp add: server_create_def create_cleanup_def Let_def free_server_def close_fd_def on_sock_def
      p_error_def split: sum.splits option.splits)

text \<open>
  Property C39. A server socket that was created listens with the requested backlog on the requested port of
  every interface, with one heap block in use, and closing it undoes all of that; a creation that
  fails at any of its four calls returns \<open>NULL\<close>, reports that call and leaves no descriptor open and
  no block allocated.
\<close>

theorem server_create_clean:
  assumes "fresh_fd ans k" "fds k (- 1) = None"
  shows "case server_create True ans port backlog k of
      Inl f \<Rightarrow> False
    | Inr (None, k') \<Rightarrow> fds k' = fds k \<and> heap k' = heap k \<and>
        (\<exists>who e. err_log k' = err_log k @ [(who, e)])
    | Inr (Some srv, k') \<Rightarrow> server_close srv k' = k \<and> heap k' = Suc (heap k) \<and>
        (\<exists>so. fds k' (server_fd srv) = Some so \<and> listening so = Some backlog \<and>
          bound so = Some (server_addr srv) \<and> s_addr (server_addr srv) = 0 \<and>
          sin_port (server_addr srv) = htons_bytes port)"
  using assms
  by (auto simp: server_create_cases fresh_fd_def server_close_def free_server_def close_fd_def
      server_address_def INADDR_ANY_def fun_upd_idem split: sum.splits option.splits)

definition all_ok :: "int \<Rightarrow> create_answers" where
  "all_ok fd = \<lparr>ans_socket = Inr fd, ans_setsockopt = None, ans_bind = None, ans_listen = None\<rparr>"

definition empty_kernel :: kernel where
  "empty_kernel = \<lparr>fds = (\<lambda>_. None), heap = 0, err_log = []\<rparr>"

theorem server_create_clean_witness:
  "\<exists>srv k'. server_create True (all_ok 3) SRC_PORT 32 empty_kernel = Inr (Some srv, k') \<and>
     server_close srv k' = empty_kernel \<and> sin_port (server_addr srv) = [0x82, 0x35]"
  using server_create_clean [of "all_ok 3" empty_kernel 32 SRC_PORT]
  by (auto simp: fresh_fd_def all_ok_def empty_kernel_def server_create_cases htons_bytes_def const_defs
      server_address_def)

text \<open>
  The address of a server is never made reusable: the two option numbers are combined with a
  bitwise or into one number, which is that of \<open>SO_REUSEPORT\<close> alone.
\<close>

lemma reuse_addr_not_set:
  assumes "server_create ok ans port backlog k = Inr (Some srv, k')"
  shows "\<exists>so. fds k' (server_fd srv) = Some so \<and> sock_opts so = [SO_REUSEPORT] \<and>
    SO_REUSEADDR \<notin> set (sock_opts so)"
proof -
  have ok: ok using assms by (cases ok) (auto simp: server_create_def)
  have "SO_REUSEADDR \<noteq> SO_REUSEPORT" by (simp add: const_defs)
  with assms ok show ?thesis
    by (auto simp: server_create_cases split: sum.splits option.splits)
qed

lemma reuse_addr_not_set_witness:
  "\<exists>srv k' so. server_create True (all_ok 3) DST_PORT 32 empty_kernel = Inr (Some srv, k') \<and>
     fds k' (server_fd srv) = Some so \<and> SO_REUSEADDR \<notin> set (sock_opts so)"
proof -
  obtain srv k' where "server_create True (all_ok 3) DST_PORT 32 empty_kernel = Inr (Some srv, k')"
    by (simp add: server_create_cases all_ok_def)
  with reuse_addr_not_set [OF this] show ?thesis by blast
qed

end
