(* ===== verification/Py_Buffers.thy ===== *)
theory Py_Buffers
  imports Prelude
begin

text \<open>
  The test data of \<^verbatim>\<open>wire-storm-reloaded-1.0.0/buffers.py\<close>: the functions \<open>aa\<close>, \<open>bb\<close>, \<open>gets\<close> and
  \<open>getb\<close> that recover it, and the short vectors. A \<open>bytes\<close> object is a list of bytes and a \<open>str\<close> the list
  of its code points; an exception is a left value. The standard library's \<open>base64.b64decode\<close> (which
  skips foreign characters and stops at the padding), \<open>bytes.decode\<close> (UTF-8) and
  \<open>bytearray.fromhex\<close> are modelled as documented.
\<close>

datatype py_error =
    ZeroDivisionError
  | Binascii_Error
  | UnicodeDecodeError
  | ValueError
  | OSError nat
  | RuntimeError
  | KeyError
  | AssertionError

section \<open>The standard library\<close>

definition bytes_lit :: "string \<Rightarrow> byte list" where
  "bytes_lit s = map of_char s"

text \<open>The value of a character of the base64 alphabet.\<close>

definition sextet :: "byte \<Rightarrow> nat option" where
  "sextet b =
     (let c = unat b in
      if 65 \<le> c \<and> c \<le> 90 then Some (c - 65)
      else if 97 \<le> c \<and> c \<le> 122 then Some (c - 71)
      else if 48 \<le> c \<and> c \<le> 57 then Some (c + 4)
      else if c = 43 then Some 62
      else if c = 47 then Some 63
      else None)"

text \<open>
  \<open>q\<close> is the position in the group of four characters, \<open>l\<close> the bits left over from the last one and
  \<open>p\<close> the number of padding characters in a row.
\<close>

fun a2b :: "nat \<Rightarrow> nat \<Rightarrow> nat \<Rightarrow> byte list \<Rightarrow> py_error + byte list" where
  "a2b q l p [] = (if q = 0 then Inr [] else Inl Binascii_Error)"
| "a2b q l p (c # cs) =
     (if c = 61
      then (if 2 \<le> q then (if 4 \<le> q + Suc p then Inr [] else a2b q l (Suc p) cs) else a2b q l p cs)
      else case sextet c of
        None \<Rightarrow> a2b q l p cs
      | Some v \<Rightarrow>
          if q = 0 then a2b 1 v 0 cs
          else if q = 1 then bindF (a2b 2 (v mod 16) 0 cs) (\<lambda>bs. Inr (of_nat (4 * l + v div 16) # bs))
          else if q = 2 then bindF (a2b 3 (v mod 4) 0 cs) (\<lambda>bs. Inr (of_nat (16 * l + v div 4) # bs))
          else bindF (a2b 0 0 0 cs) (\<lambda>bs. Inr (of_nat (64 * l + v) # bs)))"

definition b64decode :: "byte list \<Rightarrow> py_error + byte list" where
  "b64decode s = a2b 0 0 0 s"

text \<open>Strict UTF-8: no overlong forms, no surrogates, nothing above 0x10FFFF.\<close>

definition cont :: "byte \<Rightarrow> bool" where
  "cont b \<longleftrightarrow> 128 \<le> unat b \<and> unat b < 192"

fun utf8_decode :: "byte list \<Rightarrow> py_error + nat list" where
  "utf8_decode [] = Inr []"
| "utf8_decode (b1 # r) =
     (let c1 = unat b1 in
      if c1 < 128 then bindF (utf8_decode r) (\<lambda>s. Inr (c1 # s))
      else case r of
        [] \<Rightarrow> Inl UnicodeDecodeError
      | b2 # r2 \<Rightarrow>
          if \<not> cont b2 then Inl UnicodeDecodeError
          else if 194 \<le> c1 \<and> c1 < 224
          then bindF (utf8_decode r2) (\<lambda>s. Inr ((64 * (c1 - 192) + (unat b2 - 128)) # s))
          else (case r2 of
            [] \<Rightarrow> Inl UnicodeDecodeError
          | b3 # r3 \<Rightarrow>
              if \<not> cont b3 then Inl UnicodeDecodeError
              else (let u3 = 64 * (64 * (c1 - 224) + (unat b2 - 128)) + (unat b3 - 128) in
                if 224 \<le> c1 \<and> c1 < 240
                then if 2048 \<le> u3 \<and> \<not> (55296 \<le> u3 \<and> u3 < 57344)
                     then bindF (utf8_decode r3) (\<lambda>s. Inr (u3 # s)) else Inl UnicodeDecodeError
                else case r3 of
                  [] \<Rightarrow> Inl UnicodeDecodeError
                | b4 # r4 \<Rightarrow>
                    (let u4 = 64 * (64 * (64 * (c1 - 240) + (unat b2 - 128)) + (unat b3 - 128)) + (unat b4 - 128) in
                     if cont b4 \<and> 240 \<le> c1 \<and> c1 < 245 \<and> 65536 \<le> u4 \<and> u4 < 1114112
                     then bindF (utf8_decode r4) (\<lambda>s. Inr (u4 # s)) else Inl UnicodeDecodeError))))"

definition hexval :: "nat \<Rightarrow> nat option" where
  "hexval c =
     (if 48 \<le> c \<and> c \<le> 57 then Some (c - 48)
      else if 97 \<le> c \<and> c \<le> 102 then Some (c - 87)
      else if 65 \<le> c \<and> c \<le> 70 then Some (c - 55)
      else None)"

text \<open>White space is skipped between the pairs of digits.\<close>

fun fromhex :: "nat list \<Rightarrow> py_error + byte list" where
  "fromhex [] = Inr []"
| "fromhex (c # r) =
     (if c = 32 \<or> 9 \<le> c \<and> c \<le> 13 then fromhex r
      else case hexval c of
        None \<Rightarrow> Inl ValueError
      | Some t \<Rightarrow>
          (case r of
             [] \<Rightarrow> Inl ValueError
           | d # r' \<Rightarrow>
               (case hexval d of
                  None \<Rightarrow> Inl ValueError
                | Some u \<Rightarrow> bindF (fromhex r') (\<lambda>bs. Inr (of_nat (16 * t + u) # bs)))))"

section \<open>The code\<close>

definition aa :: "byte list \<Rightarrow> byte list \<Rightarrow> py_error + byte list" where
  "aa v k =
     (if v \<noteq> [] \<and> k = [] then Inl ZeroDivisionError
      else Inr (map (\<lambda>(i, d). d XOR k ! (i mod length k)) (zip [0..<length v] v)))"

definition bb :: "byte list \<Rightarrow> py_error + byte list" where
  "bb v = aa v (bytes_lit ''ctmp'')"

definition gets :: "byte list \<Rightarrow> py_error + nat list" where
  "gets s = bindF (b64decode (rev s)) (\<lambda>v. bindF (bb v) utf8_decode)"

definition getb :: "byte list \<Rightarrow> py_error + byte list" where
  "getb s = bindF (gets s) fromhex"

definition t_basic :: "byte list" where
  "t_basic = bytes_lit ''=E0WFVVQbVUVBtVRVF0WFVVQbVUVBtVRVF0WFVVQbVUVBtVRVF0WFVVQbVUVBtVRVF0WFVVQbVUVBtVRVF0WFVVQbVUVBtVRVF0WFVVQbVUVBtVRVF0WFVVQbVUVBtVRVF0WFVFQdR0UU4FQGIkXENFQZdBA''"

definition t_basic_no_checksum :: "byte list" where
  "t_basic_no_checksum = bytes_lit ''=E0WFVVQbVUVBtVRVF0WFVVQbVUVBtVRVF0WFVVQbVUVBtVRVF0WFVVQbVUVBtVRVF0WFVVQbVUVBtVRVF0WFVVQbVUVBtVRVF0WFVVQbVUVBtVRVF0WFVVQbVUVBtVRVF0WFVFQdR0UA1FRTJkXENFQddBA''"

definition t_invalid_checksum :: "byte list" where
  "t_invalid_checksum = bytes_lit ''=E0WFVVQbVUVBtVRVF0WFVVQbVUVBtVRVF0WFVVQbVUVBtVRVF0WFVVQbVUVBtVRVF0WFVVQbVUVBtVRVF0WFVVQbVUVBtVRVF0WFVVQbVUVBtVRVF0WFVVQbVUVBtVRVF0WFVFQdR0UA1FRTJkXENFQZdBA''"

definition t_invalid_header :: "byte list" where
  "t_invalid_header = bytes_lit ''=E0WFVVQbVUVBtVRVF0WFVVQbVUVBtVRVF0WFVVQbVUVBtVRVF0WFVVQbVUVBtVRVF0WFVVQbVUVBtVRVF0WFVVQbVUVBtVRVF0WFVVQbVUVBtVRVF0WFVVQbVUVBtVRVF0WFVFQdR0UU4FQGIkXENFQZJRB''"

definition t_small :: "byte list" where
  "t_small = bytes_lit ''==ARbFUVEpFQUl0WQU1QaFRVBtlRURkWEFVRbZUVA9lEVRkWEFVQbBEVBtFQVB0XBV1EbREVUsVRVhkWBVFQdR0UJx1QBUBXENFQZdBA''"

section \<open>Decoding by blocks\<close>

text \<open>
  Not part of the program: base64 (RFC 4648) and hexadecimal digits written forwards, in terms of which the
  result of \<open>getb\<close> on a long vector can be found block by block, without evaluating it.
\<close>

definition b64_char :: "nat \<Rightarrow> byte" where
  "b64_char n =
     of_nat (if n < 26 then 65 + n else if n < 52 then 71 + n else if n < 62 then n - 4
             else if n = 62 then 43 else 47)"

fun b64encode :: "byte list \<Rightarrow> byte list" where
  "b64encode [] = []"
| "b64encode [a] = [b64_char (unat a div 4), b64_char (16 * (unat a mod 4)), 61, 61]"
| "b64encode [a, b] =
     [b64_char (unat a div 4), b64_char (16 * (unat a mod 4) + unat b div 16),
      b64_char (4 * (unat b mod 16)), 61]"
| "b64encode (a # b # c # r) =
     b64_char (unat a div 4) # b64_char (16 * (unat a mod 4) + unat b div 16) #
     b64_char (4 * (unat b mod 16) + unat c div 64) # b64_char (unat c mod 64) # b64encode r"

definition hex_char :: "nat \<Rightarrow> nat" where
  "hex_char d = (if d < 10 then 48 + d else 87 + d)"

definition hexlify :: "byte list \<Rightarrow> byte list" where
  "hexlify bs = concat (map (\<lambda>b. [of_nat (hex_char (unat b div 16)), of_nat (hex_char (unat b mod 16))]) bs)"

lemma unat_of_nat_byte: "n < 256 \<Longrightarrow> unat (of_nat n :: byte) = n"
  by (simp add: take_bit_nat_eq_self unsigned_of_nat)

lemma unat_b64_char: "n < 64 \<Longrightarrow> unat (b64_char n) =
    (if n < 26 then 65 + n else if n < 52 then 71 + n else if n < 62 then n - 4
             else if n = 62 then 43 else 47)"
  unfolding b64_char_def by (rule unat_of_nat_byte) auto

lemma sextet_b64_char: "n < 64 \<Longrightarrow> sextet (b64_char n) = Some n"
  by (auto simp: sextet_def Let_def unat_b64_char)

lemma b64_char_not_pad: "n < 64 \<Longrightarrow> b64_char n \<noteq> 61"
proof
  assume n: "n < 64" and "b64_char n = 61"
  then have "unat (b64_char n) = 61" by simp
  then show False using n by (auto simp: unat_b64_char split: if_splits)
qed

text \<open>Splitting bytes into sextets and back.\<close>

lemma byte_div_bounds:
  "unat (b :: byte) div 4 < 64" "unat (b :: byte) div 16 < 16" "unat (b :: byte) div 64 < 4"
  using unat_lt_256 [of b] by (simp_all add: less_mult_imp_div_less)

lemma byte_div_simps [simp]:
  "unat (b :: byte) div 16 div 16 = 0" "unat (b :: byte) div 16 mod 16 = unat b div 16"
  "unat (b :: byte) div 64 div 4 = 0" "unat (b :: byte) div 64 mod 4 = unat b div 64"
  using byte_div_bounds [of b] by simp_all

lemma b64_bounds [simp]:
  "unat (a :: byte) div 4 < 64" "16 * (unat a mod 4) + unat (b :: byte) div 16 < 64"
  "4 * (unat b mod 16) + unat (c :: byte) div 64 < 64"
  "16 * (unat a mod 4) < 64" "4 * (unat b mod 16) < 64"
proof -
  have "unat a mod 4 < 4" "unat b mod 16 < 16" by simp_all
  then show "unat (a :: byte) div 4 < 64" "16 * (unat a mod 4) + unat (b :: byte) div 16 < 64"
    "4 * (unat b mod 16) + unat (c :: byte) div 64 < 64"
    "16 * (unat a mod 4) < 64" "4 * (unat b mod 16) < 64"
    using byte_div_bounds [of a] byte_div_bounds [of b] byte_div_bounds [of c] by linarith+
qed

lemma b64decode_b64encode: "b64decode (b64encode bs) = Inr bs"
  unfolding b64decode_def
proof (induction bs rule: b64encode.induct)
  case 1
  then show ?case by simp
next
  case (2 a)
  show ?case by (simp add: sextet_b64_char b64_char_not_pad del: of_nat_add of_nat_mult)
next
  case (3 a b)
  show ?case by (simp add: sextet_b64_char b64_char_not_pad del: of_nat_add of_nat_mult)
next
  case (4 a b c r)
  then show ?case by (simp add: sextet_b64_char b64_char_not_pad del: of_nat_add of_nat_mult)
qed

lemma length_aa: "aa v k = Inr w \<Longrightarrow> length w = length v"
  by (auto simp: aa_def split: if_splits)

lemma aa_involution:
  assumes "k \<noteq> []"
  shows "bindF (aa v k) (\<lambda>w. aa w k) = Inr v"
  using assms by (auto simp: aa_def intro!: nth_equalityI simp: xor.assoc)

lemma utf8_decode_ascii: "\<forall>b \<in> set v. unat b < 128 \<Longrightarrow> utf8_decode v = Inr (map unat v)"
  by (induction v) simp_all

lemma hex_char_ascii: "d < 16 \<Longrightarrow> hex_char d < 128"
  by (simp add: hex_char_def)

lemma hexval_hex_char: "d < 16 \<Longrightarrow> hexval (hex_char d) = Some d"
  by (auto simp: hexval_def hex_char_def)

lemma hex_char_not_space: "32 < hex_char d"
  by (simp add: hex_char_def)

lemma unat_hex_char: "d < 16 \<Longrightarrow> unat (of_nat (hex_char d) :: byte) = hex_char d"
  using hex_char_ascii [of d] by (simp add: unat_of_nat_byte)

lemma hexlify_ascii: "\<forall>b \<in> set (hexlify bs). unat b < 128"
  using byte_div_bounds(2) by (auto simp: hexlify_def unat_hex_char hex_char_ascii)

lemma fromhex_hexlify: "fromhex (map unat (hexlify bs)) = Inr bs"
proof (induction bs)
  case (Cons b bs)
  have "hex_char d \<noteq> 32 \<and> \<not> hex_char d \<le> 13" for d
    using hex_char_not_space [of d] by auto
  with Cons show ?case
    using byte_div_bounds(2) [of b]
    by (simp add: hexlify_def unat_hex_char hexval_hex_char del: of_nat_add of_nat_mult)
qed (simp add: hexlify_def)

lemma getb_blocks:
  assumes "bb (hexlify bs) = Inr v"
  shows "getb (rev (b64encode v)) = Inr bs"
proof -
  have k: "bytes_lit ''ctmp'' \<noteq> []" by (simp add: bytes_lit_def)
  have "bb v = Inr (hexlify bs)"
    using assms aa_involution [OF k, of "hexlify bs"] by (simp add: bb_def)
  then show ?thesis
    by (simp add: getb_def gets_def b64decode_b64encode utf8_decode_ascii hexlify_ascii fromhex_hexlify)
qed

section \<open>The vectors\<close>

definition v_body :: "byte list" where
  "v_body = replicate 50 0x61"

lemma getb_t_basic: "getb t_basic = Inr ([0xCC, 0x40, 0, 0x32, 0xE4, 0x3D, 0, 0] @ v_body)"
  by code_simp
lemma getb_t_basic_no_checksum: "getb t_basic_no_checksum = Inr ([0xCC, 0, 0, 0x32, 0, 0, 0, 0] @ v_body)"
  by code_simp
lemma getb_t_invalid_checksum: "getb t_invalid_checksum = Inr ([0xCC, 0x40, 0, 0x32, 0, 0, 0, 0] @ v_body)"
  by code_simp
lemma getb_t_invalid_header: "getb t_invalid_header = Inr ([0xFF, 0x40, 0, 0x32, 0xE4, 0x3D, 0, 0] @ v_body)"
  by code_simp
lemma getb_t_small: "getb t_small = Inr ([0xCC, 0x40, 0, 0x1E, 0xB7, 0x19, 0, 0] @
    bytes_lit ''example data to be transmitted'')"
  by code_simp

text \<open>
  What the short test vectors decode to: the messages of the base and the extended protocol with
  the headers the test suite needs, none of them an encoding error.
\<close>

lemma vectors_decode:
  "getb t_basic = Inr ([0xCC, 0x40, 0, 50, 0xE4, 0x3D, 0, 0] @ replicate 50 0x61) \<and>
   getb t_basic_no_checksum = Inr ([0xCC, 0, 0, 50, 0, 0, 0, 0] @ replicate 50 0x61) \<and>
   getb t_invalid_checksum = Inr ([0xCC, 0x40, 0, 50, 0, 0, 0, 0] @ replicate 50 0x61) \<and>
   getb t_invalid_header = Inr ([0xFF, 0x40, 0, 50, 0xE4, 0x3D, 0, 0] @ replicate 50 0x61) \<and>
   getb t_small = Inr ([0xCC, 0x40, 0, 30, 0xB7, 0x19, 0, 0] @
     bytes_lit ''example data to be transmitted'')"
  using getb_t_basic getb_t_basic_no_checksum getb_t_invalid_checksum getb_t_invalid_header getb_t_small
  by (simp add: v_body_def)

end
