(* ===== verification/Py_Client.thy ===== *)
theory Py_Client
  imports Complex_Main Socket_IO Py_Buffers
begin

text \<open>
  The clients of the test suite, \<^verbatim>\<open>wire-storm-reloaded-1.0.0/client.py\<close>. A socket object is its
  family, kind, timeout and peer. The answer of \<open>connect\<close> is an argument. \<open>recv\<close> follows the script of
  the connection, as \<open>os_read\<close> does; Python repeats a call that was interrupted, raises an exception
  for any other error, among them the timeout, and returns no bytes at the end of the stream.
\<close>

section \<open>Sockets\<close>

record py_socket =
  family :: string
  kind :: string
  timeout :: "rat option"
  peer :: "(string \<times> int) option"

definition HOST :: string where
  "HOST = ''127.0.0.1''"

definition SEND_PORT :: int where
  "SEND_PORT = 33333"

definition RECV_PORT :: int where
  "RECV_PORT = 44444"

definition create_sender ::
  "string \<Rightarrow> int \<Rightarrow> rat \<Rightarrow> errno option \<Rightarrow> py_error + py_socket" where
  "create_sender host port timeout_s answer =
     (let connection = \<lparr>family = ''AF_INET'', kind = ''SOCK_STREAM'', timeout = None, peer = None\<rparr>;
          connection = connection\<lparr>timeout := Some timeout_s\<rparr>
      in case answer of
           Some (Errno e) \<Rightarrow> Inl (OSError e)
         | None \<Rightarrow> Inr (connection\<lparr>peer := Some (host, port)\<rparr>))"

text \<open>\<open>create_receiver\<close> relies on the default of \<open>timeout_s\<close>.\<close>

definition create_receiver :: "string \<Rightarrow> int \<Rightarrow> errno option \<Rightarrow> py_error + py_socket" where
  "create_receiver host port answer = create_sender host port 5 answer"

lemma create_receiver_Inr:
  "create_receiver host port answer = Inr sk \<longleftrightarrow>
   answer = None \<and> sk = \<lparr>family = ''AF_INET'', kind = ''SOCK_STREAM'', timeout = Some 5, peer = Some (host, port)\<rparr>"
  by (auto simp: create_receiver_def create_sender_def Let_def split: option.splits errno.splits)

section \<open>Receiving\<close>

function py_recv :: "nat \<Rightarrow> rx_event list \<Rightarrow> (py_error + byte list) \<times> rx_event list" where
  "py_recv n evs =
     (case os_read n evs of
        (Ok_Bytes bs, evs') \<Rightarrow> (Inr bs, evs')
      | (Failed e, evs') \<Rightarrow> if e = EINTR then py_recv n evs' else (case e of Errno k \<Rightarrow> (Inl (OSError k), evs')))"
  by pat_completeness auto
termination
  by (relation "measure (\<lambda>(n, evs). evs_size evs)") (auto dest!: sym [THEN os_read_progress])

declare py_recv.simps [simp del]

lemma py_recv_Inr:
  "py_recv n evs = (Inr bs, evs') \<Longrightarrow>
   stream_bytes evs = bs @ stream_bytes evs' \<and> length bs \<le> n \<and> (clean evs \<longrightarrow> clean evs')"
proof (induction n evs rule: py_recv.induct)
  case (1 n evs)
  obtain r evs1 where r: "os_read n evs = (r, evs1)" by fastforce
  show ?case
  proof (cases r)
    case (Ok_Bytes b)
    with r "1.prems" os_read_Ok [of n evs] show ?thesis by (subst (asm) py_recv.simps) auto
  next
    case (Failed e)
    with r "1.prems" have e: "e = EINTR" "py_recv n evs1 = (Inr bs, evs')"
      by (subst (asm) py_recv.simps, auto split: if_splits errno.splits)+
    from "1.IH" [OF r [symmetric] Failed e] os_read_Failed [of n evs e evs1] r Failed show ?thesis
      by simp
  qed
qed

lemma py_recv_size: "py_recv n evs = (r, evs') \<Longrightarrow> evs_size evs' \<le> evs_size evs"
proof (induction n evs rule: py_recv.induct)
  case (1 n evs)
  obtain q evs1 where q: "os_read n evs = (q, evs1)" by fastforce
  then have "evs_size evs1 \<le> evs_size evs" by (rule os_read_size_le)
  with q "1.IH" [OF q [symmetric]] "1.prems" show ?case
    by (subst (asm) py_recv.simps) (force split: io_result.splits if_splits errno.splits)
qed

lemma py_recv_progress:
  "py_recv n evs = (Inr bs, evs') \<Longrightarrow> bs \<noteq> [] \<Longrightarrow> evs_size evs' < evs_size evs"
proof (induction n evs rule: py_recv.induct)
  case (1 n evs)
  obtain q evs1 where q: "os_read n evs = (q, evs1)" by fastforce
  show ?case
  proof (cases q)
    case (Ok_Bytes b)
    with q "1.prems" os_read_progress [OF q] show ?thesis by (subst (asm) py_recv.simps) auto
  next
    case (Failed e)
    then have "evs_size evs1 < evs_size evs" using os_read_progress [OF q] by simp
    moreover have "e = EINTR" "py_recv n evs1 = (Inr bs, evs')"
      using q Failed "1.prems" by (subst (asm) py_recv.simps, auto split: if_splits errno.splits)+
    ultimately show ?thesis using "1.IH" [OF q [symmetric] Failed] "1.prems"(2) by simp
  qed
qed

lemma py_recv_Chunk:
  "0 < n \<Longrightarrow> bs \<noteq> [] \<Longrightarrow> py_recv n (Chunk bs # evs) =
    (if length bs \<le> n then (Inr bs, evs) else (Inr (take n bs), Chunk (drop n bs) # evs))"
  by (subst py_recv.simps, cases n) simp_all

text \<open>On a clean stream a call delivers something as long as there is something.\<close>

lemma py_recv_clean:
  assumes "clean evs" "0 < n" "stream_bytes evs \<noteq> []"
  shows "\<exists>bs evs'. py_recv n evs = (Inr bs, evs') \<and> bs \<noteq> []"
  using assms
proof (induction n evs rule: py_recv.induct)
  case (1 n evs)
  obtain q evs1 where q: "os_read n evs = (q, evs1)" by fastforce
  show ?case
  proof (cases q)
    case (Ok_Bytes b)
    with q have "b \<noteq> []" using os_read_Ok_Nil [of n evs evs1] "1.prems" by auto
    with q Ok_Bytes show ?thesis by (subst py_recv.simps) simp
  next
    case (Failed e)
    then have e: "e = EINTR" "clean evs1" "stream_bytes evs1 \<noteq> []"
      using os_read_Failed [of n evs e evs1] q "1.prems" by auto
    from "1.IH" [OF q [symmetric] Failed e(1,2) "1.prems"(2) e(3)] q Failed e(1) show ?thesis
      by (subst py_recv.simps) simp
  qed
qed

end
