(* ===== verification/Py_Large.thy ===== *)
theory Py_Large
  imports Py_Buffers
begin

text \<open>
  The long vector of \<^verbatim>\<open>buffers.py\<close>, 173356 characters. Its literal is a repetition of 16 characters
  between two short pieces, and it is written here that way; what it decodes to follows from the way
  repetitions go through the decoding, without evaluating it.
\<close>

section \<open>The vector\<close>

definition t_large :: "byte list" where
  "t_large = bytes_lit (''=E'' @ concat (replicate 10833 ''0WFVVQbVUVBtVRVF'') @
     ''0WFVFQdR0URkVFCgECQUAQZdBA'')"

section \<open>Repeated blocks\<close>

text \<open>A repetition of \<open>xs @ ys\<close> is one of \<open>ys @ xs\<close> with the rest at the two ends.\<close>

lemma concat_replicate_rotate:
  "concat (replicate (Suc n) (xs @ ys)) = xs @ concat (replicate n (ys @ xs)) @ ys"
  by (induction n) simp_all

lemma rev_concat_replicate: "rev (concat (replicate n xs)) = concat (replicate n (rev xs))"
  by (simp add: rev_concat)

lemma concat_replicate_mult: "concat (replicate (n * k) xs) = concat (replicate n (concat (replicate k xs)))"
  by (induction n) (simp_all add: replicate_add)

lemma b64encode_append:
  "length xs mod 3 = 0 \<Longrightarrow> b64encode (xs @ ys) = b64encode xs @ b64encode ys"
  by (induction xs rule: b64encode.induct) simp_all

lemma b64encode_replicate:
  "length xs mod 3 = 0 \<Longrightarrow> b64encode (concat (replicate n xs)) = concat (replicate n (b64encode xs))"
  by (induction n) (simp_all add: b64encode_append)

text \<open>The exclusive or with the key, block by block.\<close>

definition xor_key :: "byte list \<Rightarrow> byte list \<Rightarrow> byte list" where
  "xor_key v k = map (\<lambda>(i, d). d XOR k ! (i mod length k)) (zip [0..<length v] v)"

lemma aa_xor_key: "k \<noteq> [] \<Longrightarrow> aa v k = Inr (xor_key v k)"
  by (simp add: aa_def xor_key_def)

lemma xor_key_append:
  assumes "length xs mod length k = 0"
  shows "xor_key (xs @ ys) k = xor_key xs k @ xor_key ys k"
proof (rule nth_equalityI)
  fix i assume "i < length (xor_key (xs @ ys) k)"
  moreover have "i mod length k = (i - length xs) mod length k" if "length xs \<le> i"
    using assms that by (metis (no_types) le_add_diff_inverse mod_add_left_eq add_0)
  ultimately show "xor_key (xs @ ys) k ! i = (xor_key xs k @ xor_key ys k) ! i"
    by (auto simp: xor_key_def nth_append)
qed (simp add: xor_key_def)

lemma xor_key_replicate:
  "length xs mod length k = 0 \<Longrightarrow> xor_key (concat (replicate n xs)) k = concat (replicate n (xor_key xs k))"
  by (induction n) (simp_all add: xor_key_append, simp add: xor_key_def)

lemma hexlify_append: "hexlify (xs @ ys) = hexlify xs @ hexlify ys"
  by (simp add: hexlify_def)

lemma hexlify_replicate: "hexlify (concat (replicate n xs)) = concat (replicate n (hexlify xs))"
  by (induction n) (simp_all add: hexlify_append, simp add: hexlify_def)

section \<open>The long vector\<close>

definition large_header :: "byte list" where
  "large_header = [0xCC, 0x40, 0xFD, 0xE8, 0xAA, 0x4A, 0, 0]"

definition block :: "byte list" where
  "block = xor_key (hexlify [0x61, 0x61]) (bytes_lit ''ctmp'')"

definition head_block :: "byte list" where
  "head_block = xor_key (hexlify large_header) (bytes_lit ''ctmp'') @ block @ block"

lemma length_block: "length block = 4"
  by (simp add: block_def xor_key_def hexlify_def)

lemma large_body: "replicate 65000 (0x61 :: byte) = concat (replicate 32500 [0x61, 0x61])"
  using concat_replicate_mult [of 32500 2 "[0x61 :: byte]"] by (simp add: numeral_2_eq_2)

lemma regroup: "concat (replicate 32500 b) = b @ b @ concat (replicate 10832 (b @ b @ b)) @ b @ b"
proof -
  have "replicate 32500 b = replicate 2 b @ replicate (10832 * 3) b @ replicate 2 b"
    by (simp flip: replicate_add)
  then have "concat (replicate 32500 b) =
      concat (replicate 2 b) @ concat (replicate (10832 * 3) b) @ concat (replicate 2 b)"
    by (metis concat_append)
  also have "concat (replicate (10832 * 3) b) = concat (replicate 10832 (concat (replicate 3 b)))"
    by (rule concat_replicate_mult)
  finally show ?thesis by (simp add: numeral_2_eq_2 numeral_3_eq_3)
qed

lemma bb_large:
  "bb (hexlify (large_header @ replicate 65000 0x61)) =
     Inr (head_block @ concat (replicate 10832 (block @ block @ block)) @ block @ block)"
proof -
  have k: "length (bytes_lit ''ctmp'') = 4" "bytes_lit ''ctmp'' \<noteq> []" by (simp_all add: bytes_lit_def)
  have l: "length (hexlify large_header) mod 4 = 0" "length (hexlify [0x61, 0x61]) mod 4 = 0"
    by (simp_all add: hexlify_def large_header_def)
  have "xor_key (hexlify (large_header @ replicate 65000 0x61)) (bytes_lit ''ctmp'') =
      xor_key (hexlify large_header) (bytes_lit ''ctmp'') @ concat (replicate 32500 block)"
    using l k by (simp add: large_body hexlify_append hexlify_replicate xor_key_append
        xor_key_replicate block_def)
  then show ?thesis
    using k(2) by (simp add: bb_def aa_xor_key regroup head_block_def)
qed

lemma b64_pieces:
  "b64encode head_block = bytes_lit ''ABdZQAUQCEgCFVkRU0RdQFVFW0FVRVtB''"
  "b64encode (block @ block @ block) = bytes_lit (''VUVbQVVFW0'' @ ''FVRVtB'')"
  "b64encode (block @ block) = bytes_lit ''VUVbQVVFW0E=''"
  by code_simp+

lemma bytes_lit_append: "bytes_lit (s @ t) = bytes_lit s @ bytes_lit t"
  by (simp add: bytes_lit_def)

lemma bytes_lit_replicate: "bytes_lit (concat (replicate n s)) = concat (replicate n (bytes_lit s))"
  by (simp add: bytes_lit_def map_concat)

lemma rev_bytes_lit: "rev (bytes_lit s) = bytes_lit (rev s)"
  by (simp add: bytes_lit_def rev_map)

lemma rev_t_large:
  "rev t_large = bytes_lit (''ABdZQAUQCEgCFVkRU0RdQFVFW0FVRVtB'' @
     concat (replicate 10832 (''VUVbQVVFW0'' @ ''FVRVtB'')) @ ''VUVbQVVFW0E='')"
proof -
  have "rev t_large = bytes_lit (''ABdZQAUQCEgCFVkRU0RdQFVFW0'' @
      concat (replicate (Suc 10832) (''FVRVtB'' @ ''VUVbQVVFW0'')) @ ''E='')"
    unfolding t_large_def rev_bytes_lit rev_append rev_concat_replicate by simp
  then show ?thesis unfolding concat_replicate_rotate by simp
qed

lemma large_blocks:
  "b64encode (head_block @ concat (replicate 10832 (block @ block @ block)) @ block @ block) = rev t_large"
proof -
  have l: "length head_block mod 3 = 0" "length (block @ block @ block) mod 3 = 0"
      "length (concat (replicate 10832 (block @ block @ block))) mod 3 = 0"
    by (simp_all add: head_block_def length_block xor_key_def hexlify_def large_header_def
        length_concat sum_list_replicate)
  have "b64encode (head_block @ concat (replicate 10832 (block @ block @ block)) @ block @ block) =
      b64encode head_block @ concat (replicate 10832 (b64encode (block @ block @ block))) @
      b64encode (block @ block)"
    by (simp only: b64encode_append [OF l(1)] b64encode_append [OF l(3)] b64encode_replicate [OF l(2)])
  also have "\<dots> = rev t_large"
    unfolding rev_t_large bytes_lit_append bytes_lit_replicate b64_pieces ..
  finally show ?thesis .
qed

lemma getb_t_large: "getb t_large = Inr (large_header @ replicate 65000 0x61)"
  using getb_blocks [OF bb_large] unfolding large_blocks rev_rev_ident .

end
