(* ===== verification/Py_Banners.thy ===== *)
theory Py_Banners
  imports Py_Buffers
begin

text \<open>The banners \<open>s1\<close> and \<open>s2\<close> of \<^verbatim>\<open>buffers.py\<close>, which the suite prints: box drawings in UTF-8.\<close>

definition s1 :: "byte list" where
  "s1 = bytes_lit (
    ''6d2W88iMrwELNR1QfJzK88iMb9DUNRFTvIzK88VMUNEUCtCTsI0KMxSTUN0XysCPvIzW/AVTUx0LysCP'' @
    ''vIEKDBVTbxzLysCPfFDVDBlQrwEUCtCTs0EVDBVTUNEUNR1QQdWW88iMr8DUxQ1QsIzK88iMoMELNRlT'' @
    ''vIzK8wSToMEUxsyPQFzK/AVMUNELysCPvIDKDxSTU9zLysCPvEDV/AVTowzLysCPs0EKDBVMr8DUxsyP'' @
    ''QFDVDBVTUNEUNR1QQdGKDxiQoMELNhyQQ1EK88STU9DUxQ1PQFzW/AVMU9DUNhyQvIDVDxSToMEUxQ1P'' @
    ''fFDV/AVMUN0LysCPs0EKDxSTUNELysyQQFDV/AVTU91LyQ1Qs0EKDBVTUNEUNR1QQdmWO9iMUNELCR1Q'' @
    ''QFzK88STU9zXNRVTdJzKDBVMbNEUNhyQvIDVDxiQUNEUxQFPv0EV/8VTUNEUNR1Qs0EKMBVTU9zLysyQ'' @
    ''QFzWDBVToMUTQR1QsIEVDBVTUNEUNR1Q6JzK88iMUNEUNRFPvIzK88STUNEUNtCPvIzKDBVTUN0LysCP'' @
    ''vIDVDBVTUxzLysCPv0EVDBVTUNEUNtCPQ1EVDBlMrwzLysyQQ1EVD9iMrwzLyQ1QQ1EVDBVTUNEUn5n/'' @
    ''l/I52L59hHIUNR1QQBf4BCO+Wmf5Pmu9S2f4BqO+WOEUwHeggjvl5X+jU5f5PSu9S2f4BCO+WOf5PSu9'' @
    ''Sef4BCVTUNU74b58l/o72LZTUNU74b58l/I52LZ/hHI44b58l/I52L59hHIUNR1QtjvlzX+jkbvk9Heg'' @
    ''gjvlzX+jkbvk3HegtjvlzX+jubvkNRl/l/I52L59hHY74b58l/o72LZTpbvk9Heggjvl5X+jpbvk9Heg'' @
    ''gjvl5X+jUNEUNR1QQ1EVDBVTUlW74b58l/o72LZTUNEU8Heg4vvlrb+jU5f5PSu9Sef4BCF/hHI+7b56'' @
    ''m/Y52LZ5iHI+7b5QQxf4Bi/+Wuu5Pmu9Smf4Bi/+Wuu5Pyf9SWu4Bi/+Wuu5P6u9S2EVDFO+Wuu5Pyf9'' @
    ''S2EVDFO+Wuu5Pyf9SWu4Bi/+Wuu5Pyf9SWu4BCVTUN054b56m/I/1LZ5iHI+7b56m/I/1LZ5iHY44b56'' @
    ''m/I/1LZTUJf5Pyf9SWu4BGO+Wuu5Pyf9SCf4BSO+Wuu5Pyf9SWu4BSO+Wuu5Pyf9SWu4BqO+WOEUNR1Q'' @
    ''Q1EVDBVTUl254b56m/I/1LZTUNEU8Heg4vvlrb+jpbvk5Heg4vvlrb+jubvk8Heg4vvlrb+jjbvklLeg'' @
    ''4vvlzX+jkbvk5Heg4vvlrb+jlbvklLeg4vvlDBVTlbvklLeg4vvlDBVTlbvklLeg4vvlDBVTlbvklLeg'' @
    ''4vvlzX+jkbvk9Heggjvl5X+jUNEUNR1QtjvlzX+jkbvk5Heg4vvlrb+jjbvklLeg4vvlzX+jkbvk5Heg'' @
    ''4vvlrb+jlbvklLeg4vvlyX+j8XvklLegnjvlrb+j8XvklLeghjvlrb+j8XvkNR1QQ1EVDBVTUNEUnlu9'' @
    ''S2f4BqO+WOEUNRl8l/I/1LZ5iHI54b56m/I/1LZ5iHI+7b59l/I/1LZ5iHY74b59l/I/1LZ5iHI+7b56'' @
    ''m/I/1LZ5iHY44b56m/I/1LZTUNU44b56m/I/1LZTUNU44b56m/I/1LZTUN054b56m/I/1LZ5iHI+7b56'' @
    ''m/I/1LZ5iHIUNR1QQ1042LZ5iHI+7b56m/I/1LZ5iHY74b59l/I/1LZ5iHI+7b56m/I/1LZ5iHY44b56'' @
    ''m/I/1LJ/hHI+7b56m/IV0X+j8XvkNVu9SWu4Bi/+WOEUNR1QQ1EVDBVTUl254b56m/I/1LZTUNEU8Heg'' @
    ''4vvlrb+j8XvklLegQpf4Bi/+Wuu5Pyf9SWu4BeO+Wuu5Pyf9S2f4BCO+Wef5Pyf9SWu4BeO+Wuu5Pyf9'' @
    ''S2f4BCO+WOf5PCu9SWu4Bi/+W6f5PSu9S2f4BSO+Wuu5Pyf9S2f4BCO+Wmf5Pmu9S2f4BCO+WOf5PSu9'' @
    ''Smf4Bi/+Wuu5PS1QQ1U62LZ/hHI44b58l/I52LZ+hHI+7b56m/442LZ5iHI+7b58l/I52LZ+hHI+7b56'' @
    ''m/Y52LZ5iHI+7bp8l/I/1LZ5iHIUNR1Qhjvlrb+j8XvkNR1QQ1EVDBVTUNEUnNu9SWu4Bi/+Wuu5PS1Q'' @
    ''Qpf4Bi/+Wuu5Pyf9S2042LZ5iHI+7b56m/I/1LZ5iHI+7b5Qnjvlrb+j8XvklLeg4vvlrb+j8XvkNNu9'' @
    ''SWu4Bi/+Wuu5Pyf9SWu4Bi/+Wuu5Pyf9Sqf4Bi/+Wuu5Pyf9SWu4Bi/+Wuu5Pyf9S2EVDBl+hHI+7b56'' @
    ''m/I/1LZ5iHI+7b56m/I/1LZTjbvklLeg4vvlrb+j8XvklLeg4vvl0X+j8XvklLegnjvlrb+j8XvkNR1Q'' @
    ''Qpf4Bi/+Wuu5PS1QQ1EVDBVTUNEUN5Xa'')"

definition s2 :: "byte list" where
  "s2 = bytes_lit (
    ''==genlu9S2f4BCO+WOf5PSu9S2f4BCO+Wmf5PS1QQBf4BCO+Wmf5PS1QQBf4BCO+WOf5PSu9S2f4BCO+'' @
    ''WOf5P6u9SCf4BCO+WOf5PSu9S2f4BCO+WOf5P6u9S2EVDBVTpbvk9Hegqjvl+X+jkbvk3HegQ1EVDBF8'' @
    ''hHI44bZ+l/IV+X+jkbvk9HeggjvlzX+jkbvk3HegQBf4BCO+WOf5PSu9S2f4BCO+Wmf5PS1QQ1EVDBVT'' @
    ''UNEUNR1QQ1EVpdO+Wuu5Pyf9SWu4Bi/+Wuu5Pyf9SWu4BCVTUJf5Pyf9SWu4BCVTURf5Pyf9SWu4Bi/+'' @
    ''Wuu5Pyf9SWu4Bi/+WSf5Pyf9SWu4Bi/+Wuu5Pyf9SWu4Bi/+WOEUNR1Qhjvlrb+j8Xvk8Heg4vvlrb+j'' @
    ''U5f5PSu9Sef4BCF/hHI+7b56m/Y62LZ+hHI+7b56m/I/1LZ5iHI+7b56m/o72Lp+hHI+7b56m/I/1LZ5'' @
    ''iHI+7b56m/o72LZTUNEUNR1QQ1EVDBVTUNEUnlu9S2f4BCO+Wef5Pyf9SWu4BCVTUJf5Pyf9SWu4BCVT'' @
    ''UNEUwHeggjvlzX+jgbvklLeg4vvlDBVTUNU44b56m/I/1LZTpbvk9HeggjvlzX+jgbvklLeg4vvlyX+j'' @
    ''8XvklLegtjvl3X+j8XvklLegqjvlyX+j8XvklLeghjvlrb+j8XvkNR1Qhjvlrb+j8XvkNR1QQ1U52LZ5'' @
    ''iHI+7b5QQ1EVDBVTUNEUNR1QQ1EVpdO+Wuu5Pyf9SWu4Bi/+Wuu5PS1QQxf4Bi/+Wuu5PS1QQ1EV0X+j'' @
    ''8XvklLeg4vvlrb+j8XvkNR1QQ1U52LZ5iHI+7bp/l/I42LZ5iHI+7b56m/I/1LZ5iHI+7bp8l/I/1LZ5'' @
    ''iHI54b56m/I/1LZ5iHI+7b59l/I/1LZ5iHY44b56m/I/1LZTUNU44b56m/I/1LZTUNEUNVu9SWu4Bi/+'' @
    ''WOEUNR1QQ1EVDBVTUNEUNRVatjvlzX+jkbvk9Heggjvl3X+j8XvklLegtjvlzX+jkbvk5Heg4vvlrb+j'' @
    ''kbvk9Hegqjvl+X+jkbvk9HeggjvlzX+jgbvklLeg4vvlDBVTUNU44b56m/I/1Lp+hHI+7b56m/I52LZ/'' @
    ''hHI54b56m/I/1LJ/hHI+7b56m/I/1LZ5iHIU6Heg4vvlrb+j8XvklLegnjvlrb+j8Xvk9HeggjvlzX+j'' @
    ''gbvklLeg4vvl+X+jkbvk9HeggjvlzX+jgbvklLeg4vvlDBVTUNEUNR1QQ1EVDBVTUl254b56m/I/1LZ5'' @
    ''iHI+7b56m/I/1LZ5iH454b56m/I/1LZ5iHI+7b56m/I/1LZ5iHI+7bJ9l/I/1LZ5iHI+7b56m/I/1LZ5'' @
    ''iHI+7b5QQ1EVDdO+Wuu5Pyf9S2042LZ5iHI+7b56m/I/1LZ5iHI+7bJ9l/I/1LZ5iHI+7b5QQ1042LZ5'' @
    ''iHI+7b56m/IV0X+j8XvklLeg4vvlrb+j8XvklLegQpf4Bi/+Wuu5Pyf9SWu4Bi/+Wuu5PS1QQ1EVDBVT'' @
    ''UNEUNR1QQ1EVppH8hHI44b58l/I52L59hHIUNlu9S2f4BqO+WOU74b58l/I52LZ/hHI44b58l/o72LZT'' @
    ''pbvk9Hegqjvl+X+jkbvk9HeggjvlzX+jkbvk9Hegqjvl+X+jkbvk9HeggjvlzX+jkbvk9Hegqjvl+X+j'' @
    ''kbvk3HegtjvlzX+jubvkNR1QQ1U62LZ/hHo64b5QQ1EVDBVTUNEUNR1QQ1EVDBVTUNEUNRVahjvlrb+j'' @
    ''8XvklLeg4vvl5X+jUJf5Pyf9SWu4B2O+Wef5Pyf9SWu4Bi/+Wuu5Pyf9SWu4BqO+WKf5Pyf9SWu4BGO+'' @
    ''Wuu5Pyf9SWu4Bi/+Wuu5Pyf9SWu4BGO+Wuu5Pyf9SWu4Bi/+Wuu5Pyf9SWu4BGO+Wuu5Pyf9Syf4Bi/+'' @
    ''Wuu5PSl/l/I52L59hHIU8Heg4vvlrb+jUNEUNR1QQ1EVDBVTUNEUNR1QQ1EVDBVT+Jf5Pyf9SWu4BeO+'' @
    ''Wuu5Pyf9Sef4BGO+Wuu5Pyf9Syf4Bi/+Wuu5PS1QQxf4Bi/+Wuu5PWu9SWu4Bi/+WKf5Pyf9SWu4BCO+'' @
    ''WOf5PSu9S2f4BqO+WKf5Pyf9SWu4BCO+WOf5PSu9S2f4BqO+WKf5Pyf9SWu4BGO+Wuu5Pyf9SCf4BSO+'' @
    ''Wuu5Pyf9Sef4BGO+Wuu5Pyf9S2EVDBVTUNEUNR1QQ1EVDBVTUNEUNR1QQdW52LZ5iHI+7b5Qnjvlrb+j'' @
    ''8Xvk5Heg4vvlrb+jlbvklLeg4vvlDBVTlbvklLeg4vvlyX+j8XvklLegnjvlrb+j8XvklLeg4vvlrb+j'' @
    ''8XvklLegnjvlrb+j8XvklLeg4vvlrb+j8XvklLeghjvlrb+j8Xvk8Heg4vvlrb+jgbvklLeg4vvlrb+j'' @
    ''8Xvk5Heg4vvlrb+jUNEUNR1QQ1EVDBVTUNEUNR1QQ1EVDBVT+Jf5Pyf9SWu4BCVTjbvklLeg4vvlrb+j'' @
    ''8Xvk6Heg4vvlrb+jkbvk9Heggjvl3X+j8XvklLeghjvlrb+j8XvkwHeggjvlzX+jkbvk9Hegkjvlrb+j'' @
    ''8XvkwHeggjvlzX+jkbvk9Hegkjvlrb+j8Xvk8Heg4vvlrb+jlbvklLeg4vvlrb+j8XvkNNu9SWu4Bi/+'' @
    ''Wuu5Pyf9S2EVDBVTUNEUNR1QQ1EVDBVTUNEUNR1QQd242LZ5iHI+7b5QQ1042LZ5iHI+7b56m/IV0X+j'' @
    ''8XvklLeg4vvlrb+j8XvklLegQpf4Bi/+Wuu5POu9SWu4Bi/+Wuu5Pyf9SWu4Bi/+Wuu5POu9SWu4Bi/+'' @
    ''Wuu5Pyf9SWu4Bi/+Wuu5POu9SWu4Bi/+WSf5Pyf9SWu4Bi/+WOEUNNu9SWu4Bi/+Wuu5PS1QQ1EVDBVT'' @
    ''UNEUNR1QQ1EVDBVTUNEUN5Xa'')"

end
