(* ===== verification/Py_Tests.thy ===== *)
theory Py_Tests
  imports Py_Client Py_Large Py_Banners Source_Server Dst_Worker
begin

text \<open>
  The test suite, \<^verbatim>\<open>wire-storm-reloaded-1.0.0/tests.py\<close>: what a receiver thread records of the bytes it
  is sent, the verdict of a test case, and the cases. Running it against the model of the server
  shows that what the suite expects is what the server does.
\<close>

section \<open>The code\<close>

definition HEADER_SIZE :: nat where
  "HEADER_SIZE = 8"

definition buffer_size :: nat where
  "buffer_size = 1024"

text \<open>\<open>int.from_bytes(bytearray(data)[2:4], byteorder="big")\<close>.\<close>

definition from_bytes_big :: "byte list \<Rightarrow> nat" where
  "from_bytes_big bs = foldl (\<lambda>v b. 256 * v + unat b) 0 bs"

definition stated_length :: "byte list \<Rightarrow> nat" where
  "stated_length bs = from_bytes_big (take 2 (drop 2 bs))"

text \<open>The \<open>while\<close> loop: \<open>got\<close> is \<open>bytes_received\<close>, \<open>acc\<close> the joined \<open>data_received\<close>.\<close>

function receive_loop ::
  "nat \<Rightarrow> nat \<Rightarrow> byte list \<Rightarrow> rx_event list \<Rightarrow> (py_error + byte list) \<times> rx_event list" where
  "receive_loop data_length got acc evs =
     (if got < data_length
      then (case py_recv (min (data_length - got) buffer_size) evs of
              (Inl e, evs') \<Rightarrow> (Inl e, evs')
            | (Inr bs, evs') \<Rightarrow>
                if bs = [] then (Inl RuntimeError, evs')
                else receive_loop data_length (got + length bs) (acc @ bs) evs')
      else (Inr acc, evs))"
  by pat_completeness auto
termination
  by (relation "measure (\<lambda>(n, got, acc, evs). evs_size evs)") (auto dest!: sym [THEN py_recv_progress])

declare receive_loop.simps [simp del]

text \<open>
  One receiver thread: its entry in \<open>data_received\<close> afterwards, and the exception that ends it, if any.
  An exception after the connection has been made is caught and printed.
\<close>

type_synonym received = "nat \<rightharpoonup> byte list"

definition receive_msg ::
  "nat \<Rightarrow> errno option \<Rightarrow> rx_event list \<Rightarrow> received \<Rightarrow> py_error option \<times> received" where
  "receive_msg thread_id answer evs D =
     (case create_receiver HOST RECV_PORT answer of
        Inl e \<Rightarrow> (Some e, D)
      | Inr receiver \<Rightarrow>
          (case py_recv HEADER_SIZE evs of
             (Inl e, _) \<Rightarrow> (None, D)
           | (Inr bs, evs1) \<Rightarrow>
               (case receive_loop (stated_length bs) 0 bs evs1 of
                  (Inl e, _) \<Rightarrow> (None, D)
                | (Inr all_bytes, _) \<Rightarrow> (None, D(thread_id \<mapsto> all_bytes)))))"

text \<open>
  The threads of a test case in the order of their ids; \<open>None\<close> is a thread that has not finished when
  \<open>join\<close> gives up on it.
\<close>

fun run_threads :: "(nat \<Rightarrow> (errno option \<times> rx_event list) option) \<Rightarrow> nat list \<Rightarrow> received \<Rightarrow> received" where
  "run_threads runs [] D = D"
| "run_threads runs (i # is) D =
     (case runs i of
        None \<Rightarrow> run_threads runs is D
      | Some (answer, evs) \<Rightarrow> run_threads runs is (snd (receive_msg i answer evs D)))"

text \<open>The assertions; \<open>None\<close> is a test that passes.\<close>

fun check_received :: "byte list \<Rightarrow> bool \<Rightarrow> received \<Rightarrow> nat list \<Rightarrow> py_error option" where
  "check_received bs expect_timeout D [] = None"
| "check_received bs expect_timeout D (i # is) =
     (if \<not> expect_timeout
      then (case D i of
              None \<Rightarrow> Some KeyError
            | Some r \<Rightarrow> if r \<noteq> bs then Some AssertionError else check_received bs expect_timeout D is)
      else (if D i \<noteq> None then Some AssertionError else check_received bs expect_timeout D is))"

text \<open>
  \<open>setUp\<close>, which clears \<open>data_received\<close> and connects the sender, and \<open>_test_case\<close>. \<open>sent\<close> is
  whether \<open>sendall\<close> succeeded.
\<close>

definition test_case ::
  "byte list \<Rightarrow> nat \<Rightarrow> bool \<Rightarrow> errno option \<Rightarrow> errno option \<Rightarrow>
   (nat \<Rightarrow> (errno option \<times> rx_event list) option) \<Rightarrow> py_error option" where
  "test_case bs thread_count expect_timeout sender_answer send_answer runs =
     (case create_sender HOST SEND_PORT 5 sender_answer of
        Inl e \<Rightarrow> Some e
      | Inr sender \<Rightarrow>
          (case send_answer of
             Some (Errno e) \<Rightarrow> Some (OSError e)
           | None \<Rightarrow> check_received bs expect_timeout
                (run_threads runs [0..<thread_count] Map.empty) [0..<thread_count]))"

text \<open>The cases: the vector, the number of receivers and whether a timeout is expected.\<close>

definition test_cases :: "(string \<times> byte list \<times> nat \<times> bool) list" where
  "test_cases =
     [(''test_small_packet'', t_small, 1, False),
      (''test_large_packet'', t_large, 1, False),
      (''test_invalid_magic'', t_invalid_header, 1, True),
      (''test_additional_receiver'', t_basic, 2, False),
      (''test_multiple_receivers'', t_basic, 20, False),
      (''test_invalid_checksum'', t_invalid_checksum, 1, True),
      (''test_transmitted_with_sensitive_disabled'', t_basic_no_checksum, 1, False)]"

text \<open>
  The run of the module: the first banner is printed, the tests are run, and the second banner is
  printed if none of them failed and there were at least seven.
\<close>

definition suite_main :: "py_error option list \<Rightarrow> py_error + nat list list" where
  "suite_main results =
     bindF (gets s1) (\<lambda>banner1.
       if list_all (\<lambda>r. r = None) results \<and> length results \<ge> 7
       then bindF (gets s2) (\<lambda>banner2. Inr [banner1, banner2])
       else Inr [banner1])"

section \<open>What a receiver records\<close>

lemma receive_loop_clean:
  assumes "clean evs" "got \<le> n" "n - got \<le> length (stream_bytes evs)"
  shows "\<exists>evs'. receive_loop n got acc evs = (Inr (acc @ take (n - got) (stream_bytes evs)), evs')"
  using assms
proof (induction n got acc evs rule: receive_loop.induct)
  case (1 n got acc evs)
  show ?case
  proof (cases "got < n")
    case False
    with "1.prems" show ?thesis by (subst receive_loop.simps) simp
  next
    case True
    let ?k = "min (n - got) buffer_size"
    have "0 < ?k" using True by (simp add: buffer_size_def)
    moreover have "stream_bytes evs \<noteq> []" using "1.prems"(3) True by auto
    ultimately obtain bs evs1 where r: "py_recv ?k evs = (Inr bs, evs1)" "bs \<noteq> []"
      using py_recv_clean [OF "1.prems"(1)] by blast
    from py_recv_Inr [OF r(1)] "1.prems"(1) have
      s: "stream_bytes evs = bs @ stream_bytes evs1" "length bs \<le> n - got" "clean evs1" by auto
    with "1.prems" True have "got + length bs \<le> n"
        "n - (got + length bs) \<le> length (stream_bytes evs1)" by simp_all
    with "1.IH" [OF True r(1) [symmetric] refl r(2) s(3)] s(1,2) r True show ?thesis
      by (subst receive_loop.simps) (simp add: diff_diff_left)
  qed
qed

lemma stated_length_header: "length h = 8 \<Longrightarrow> stated_length h = net_length h"
  by (auto simp: length_Suc_conv eval_nat_numeral stated_length_def from_bytes_big_def net_length_def)

lemma wf_stated_length: "wf_msg Little m \<Longrightarrow> stated_length (header m) = length (payload m)"
  using len_set_msg_length [of m]
  by (metis length_header_wf length_payload_wf stated_length_header wf_msg_def)

lemma receive_msg_records:
  assumes "wf_msg Little m" "clean evs" "stream_bytes evs = msg_bytes m @ rest"
    and "py_recv HEADER_SIZE evs = (Inr (header m), evs1)"
  shows "receive_msg i None evs D = (None, D(i \<mapsto> msg_bytes m))"
proof -
  from py_recv_Inr [OF assms(4)] assms(2,3) have "stream_bytes evs1 = payload m @ rest" "clean evs1"
    by (simp_all add: msg_bytes_def)
  then obtain evs2 where "receive_loop (stated_length (header m)) 0 (header m) evs1 =
      (Inr (msg_bytes m), evs2)"
    using receive_loop_clean [of evs1 0 "stated_length (header m)" "header m"]
      wf_stated_length [OF assms(1)] by (auto simp: msg_bytes_def)
  then show ?thesis
    using assms(4) by (simp add: receive_msg_def create_receiver_def create_sender_def)
qed

section \<open>The vectors as messages\<close>

definition v_msg :: "byte list \<Rightarrow> byte list \<Rightarrow> ctmp_msg" where
  "v_msg h bs = mk_msg Little h bs"

definition basic_msg :: ctmp_msg where
  "basic_msg = v_msg [0xCC, 0x40, 0, 50, 0xE4, 0x3D, 0, 0] (replicate 50 0x61)"

definition plain_msg :: ctmp_msg where
  "plain_msg = v_msg [0xCC, 0, 0, 50, 0, 0, 0, 0] (replicate 50 0x61)"

definition bad_checksum_msg :: ctmp_msg where
  "bad_checksum_msg = v_msg [0xCC, 0x40, 0, 50, 0, 0, 0, 0] (replicate 50 0x61)"

definition small_msg :: ctmp_msg where
  "small_msg = v_msg [0xCC, 0x40, 0, 30, 0xB7, 0x19, 0, 0] (bytes_lit ''example data to be transmitted'')"

lemma len_v_msg: "length h = 8 \<Longrightarrow> unat (len (v_msg h bs)) = net_length h"
  using len_set_msg_length [of "\<lparr>header = h, len = 0, data = Some (bs @ [0])\<rparr>"]
  by (simp add: v_msg_def mk_msg_def)

lemma wf_v_msg:
  assumes "length h = 8" "h ! 0 = MAGIC" "length bs = net_length h" "0 < net_length h"
  shows "wf_msg Little (v_msg h bs) \<and> len (v_msg h bs) \<noteq> 0 \<and> msg_bytes (v_msg h bs) = h @ bs"
proof -
  have l: "unat (len (v_msg h bs)) = length bs" using assms len_v_msg by simp
  then have "wf_msg Little (v_msg h bs)"
    using assms wf_msg_mk_msg [of h bs Little] by (simp add: v_msg_def)
  moreover have "len (v_msg h bs) \<noteq> 0" using l assms(3,4) by auto
  moreover have "msg_bytes (v_msg h bs) = h @ bs"
    using l by (simp add: msg_bytes_def payload_def v_msg_def)
  ultimately show ?thesis by simp
qed

lemma payload_v_msg: "length h = 8 \<Longrightarrow> length bs = net_length h \<Longrightarrow> payload (v_msg h bs) = bs"
  using len_v_msg [of h bs] by (simp add: payload_def v_msg_def)

lemma options_ok_v_msg:
  assumes "length h = 8" "h ! 0 = MAGIC" "length bs = net_length h" "0 < net_length h"
  shows "options_ok Little (v_msg h bs) \<longleftrightarrow> h ! 1 = 0 \<or>
    h ! 1 = 0x40 \<and> le_pair (h ! 5) (h ! 4) = rfc1071 (filled_header h @ bs)"
  using wf_v_msg [OF assms] checksum_ok_little [of Little "v_msg h bs"] payload_v_msg [OF assms(1,3)]
  by (auto simp: options_ok_def net_checksum_def const_defs) (simp_all add: v_msg_def)

lemma a50: "replicate 50 (0x61 :: byte) = [0x61,0x61,0x61,0x61,0x61,0x61,0x61,0x61,0x61,0x61,0x61,0x61,0x61,0x61,0x61,0x61,0x61,0x61,0x61,0x61,0x61,0x61,0x61,0x61,0x61,0x61,0x61,0x61,0x61,0x61,0x61,0x61,0x61,0x61,0x61,0x61,0x61,0x61,0x61,0x61,0x61,0x61,0x61,0x61,0x61,0x61,0x61,0x61,0x61,0x61]"
  by (simp add: eval_nat_numeral)


lemma basic_checksum:
  "rfc1071 (filled_header [0xCC, 0x40, 0, 50, 0xE4, 0x3D, 0, 0] @ replicate 50 0x61) = 0xE43D"
  by (simp add: rfc1071_rep filled_header_def const_defs a50 oc_rep_def)
lemma bad_checksum:
  "rfc1071 (filled_header [0xCC, 0x40, 0, 50, 0, 0, 0, 0] @ replicate 50 0x61) = 0xE43D"
  by (simp add: rfc1071_rep filled_header_def const_defs a50 oc_rep_def)
lemma small_bytes: "bytes_lit ''example data to be transmitted'' =
  [101, 120, 97, 109, 112, 108, 101, 32, 100, 97, 116, 97, 32, 116, 111, 32, 98, 101, 32, 116, 114, 97, 110, 115, 109, 105, 116, 116, 101, 100]"
  by code_simp
lemma small_checksum:
  "rfc1071 (filled_header [0xCC, 0x40, 0, 30, 0xB7, 0x19, 0, 0] @ bytes_lit ''example data to be transmitted'') = 0xB719"
  by (simp add: rfc1071_rep filled_header_def const_defs small_bytes oc_rep_def)

section \<open>What the server makes of the vectors\<close>

lemma deframe_noise:
  "\<forall>b \<in> set bs. b \<noteq> MAGIC \<Longrightarrow> deframe host accepts bs = []"
proof (induction "length bs" arbitrary: bs rule: less_induct)
  case less
  show ?case
  proof (cases "length bs < 8")
    case True
    then have "frame_step host accepts bs = (None, [])" by (simp add: frame_step_def HEADER_LENGTH_def)
    then show ?thesis by (cases "bs = []") (simp_all add: deframe.simps)
  next
    case False
    then have "bs ! 0 \<in> set bs" by (intro nth_mem) auto
    with False have "bs ! 0 \<noteq> MAGIC" "length (take 8 bs) = 8" "length (drop 8 bs) < length bs"
      using less.prems by auto
    moreover have "\<forall>b \<in> set (drop 8 bs). b \<noteq> MAGIC"
      using less.prems set_drop_subset [of 8 bs] by blast
    ultimately show ?thesis
      using less.hyps [of "drop 8 bs"] deframe_bad_magic [of "take 8 bs" host accepts "drop 8 bs"]
      by simp
  qed
qed

lemma deframe_one:
  assumes "wf_msg host m" "len m \<noteq> 0"
  shows "deframe host accepts (msg_bytes m) = (if accepts m then [m] else [])"
proof -
  have "frame_step host accepts (msg_bytes m) = (if accepts m then Some m else None, [])"
    using frame_step_msg [OF assms, of "\<lambda>_. True" "[]"]
    by (auto simp: frame_step_def Let_def split: if_splits)
  then show ?thesis
    using msg_bytes_not_Nil [OF assms(1)] by (subst deframe.simps) (simp add: deframe.simps [of _ _ "[]"])
qed

text \<open>
  The messages the server forwards of a vector, in the protocol that is selected: what its source loop, with
  enough memory, queues of the decoded vector.
\<close>

definition queued_bytes :: "queue \<Rightarrow> byte list list" where
  "queued_bytes q = map (\<lambda>e. case msg e of None \<Rightarrow> [] | Some m \<Rightarrow> msg_bytes m) q"

definition forwarded :: "bool \<Rightarrow> byte list \<Rightarrow> byte list list" where
  "forwarded extended v =
     (case getb v of
        Inl e \<Rightarrow> []
      | Inr bs \<Rightarrow>
          (case accept_loop (ctmp_parse_func Little extended) (\<lambda>_. epoch) [Inr [Chunk bs]]
              \<lparr>rx = [], diags = [], live = 0, budget = 4 * evs_size [Chunk bs]\<rparr> [] of
             Some (Inr (s, q)) \<Rightarrow> queued_bytes q
           | _ \<Rightarrow> []))"

lemma queued_bytes_new: "queued_bytes (new_entries clock k ms) = map msg_bytes ms"
  by (induction ms arbitrary: k) (simp_all add: queued_bytes_def new_entry_def)

lemma queued_of_stream:
  assumes "clean evs" "4 * evs_size evs \<le> budget s"
  shows "\<exists>s' q. accept_loop (ctmp_parse_func host extended) clock [Inr evs] s [] = Some (Inr (s', q)) \<and>
    queued_bytes q = map msg_bytes (deframe host (accepted host extended) (stream_bytes evs))"
  using selected.conn_loop_deframe [of "s\<lparr>rx := evs\<rparr>" host extended clock "[]"] assms
  by (auto simp: queued_bytes_new)

lemma forwarded_deframe:
  "getb v = Inr bs \<Longrightarrow> forwarded extended v = map msg_bytes (deframe Little (accepted Little extended) bs)"
  using queued_of_stream [of "[Chunk bs]" "\<lparr>rx = [], diags = [], live = 0, budget = 4 * evs_size [Chunk bs]\<rparr>"
      Little extended "\<lambda>_. epoch"]
  by (auto simp: forwarded_def simp del: accept_loop.simps)

lemma forwarded_v_msg:
  assumes "getb v = Inr (h @ bs)" "length h = 8" "h ! 0 = MAGIC" "length bs = net_length h" "0 < net_length h"
  shows "forwarded extended v =
    (if extended \<longrightarrow> h ! 1 = 0 \<or> h ! 1 = 0x40 \<and> le_pair (h ! 5) (h ! 4) = rfc1071 (filled_header h @ bs)
     then [h @ bs] else [])"
  using wf_v_msg [OF assms(2-5)] options_ok_v_msg [OF assms(2-5)] assms(1)
    deframe_one [of Little "v_msg h bs" "accepted Little extended"]
  by (auto simp: forwarded_deframe accepted_def)

lemma forwarded_small: "forwarded extended t_small = [[0xCC, 0x40, 0, 0x1E, 0xB7, 0x19, 0, 0] @
    bytes_lit ''example data to be transmitted'']"
  using forwarded_v_msg [OF getb_t_small, of extended] small_checksum small_bytes
  by (simp add: net_length_def const_defs le_pair_def)

text \<open>The checksum of a long run of equal bytes.\<close>

lemma net_words_replicate: "net_words (replicate (2 * n) b) = replicate n (256 * unat b + unat b)"
  by (induction n) simp_all

lemma net_words_append: "even (length xs) \<Longrightarrow> net_words (xs @ ys) = net_words xs @ net_words ys"
  by (induction xs rule: net_words.induct) simp_all

lemma large_checksum: "rfc1071 (filled_header large_header @ replicate 65000 0x61) = 0xAA4A"
proof -
  have "net_words (replicate 65000 (0x61 :: byte)) = replicate 32500 24929"
    using net_words_replicate [of 32500 "0x61"] by simp
  then show ?thesis
    by (simp add: rfc1071_rep net_words_append sum_list_replicate filled_header_def large_header_def
        const_defs oc_rep_def)
qed

lemma forwarded_large: "forwarded extended t_large = [large_header @ replicate 65000 0x61]"
  using forwarded_v_msg [OF getb_t_large, of extended] large_checksum
  by (simp add: large_header_def net_length_def const_defs le_pair_def)

lemma forwarded_basic: "forwarded extended t_basic = [[0xCC, 0x40, 0, 50, 0xE4, 0x3D, 0, 0] @ replicate 50 0x61]"
  using forwarded_v_msg [OF getb_t_basic, of extended] basic_checksum
  by (simp add: net_length_def const_defs le_pair_def v_body_def)

lemma forwarded_plain: "forwarded extended t_basic_no_checksum = [[0xCC, 0, 0, 50, 0, 0, 0, 0] @ replicate 50 0x61]"
  using forwarded_v_msg [OF getb_t_basic_no_checksum, of extended]
  by (simp add: net_length_def const_defs v_body_def)

lemma forwarded_bad_checksum: "forwarded extended t_invalid_checksum =
    (if extended then [] else [[0xCC, 0x40, 0, 50, 0, 0, 0, 0] @ replicate 50 0x61])"
  using forwarded_v_msg [OF getb_t_invalid_checksum, of extended] bad_checksum
  by (simp add: net_length_def const_defs le_pair_def v_body_def)

lemma forwarded_bad_header: "forwarded extended t_invalid_header = []"
  by (simp add: forwarded_deframe [OF getb_t_invalid_header] deframe_noise v_body_def const_defs)

lemma suite_forwards:
  "list_all (\<lambda>(name, v, n, expect_timeout). forwarded extended v =
      (if expect_timeout \<and> (extended \<or> name \<noteq> ''test_invalid_checksum'') then [] else [projr (getb v)])) test_cases"
  by (simp add: test_cases_def forwarded_small forwarded_large getb_t_large forwarded_basic forwarded_plain forwarded_bad_checksum
      forwarded_bad_header getb_t_small getb_t_basic getb_t_basic_no_checksum getb_t_invalid_checksum v_body_def)

section \<open>The verdict of a test case\<close>

text \<open>
  The script of a receiver that is sent \<open>w\<close>: nothing comes before its timeout, or the bytes of one
  message, of which the first call delivers the whole header.
\<close>

definition receiver_script :: "byte list \<Rightarrow> rx_event list \<Rightarrow> bool" where
  "receiver_script w evs \<longleftrightarrow>
     (if w = [] then \<exists>e evs'. py_recv HEADER_SIZE evs = (Inl e, evs')
      else clean evs \<and> stream_bytes evs = w \<and>
        (\<exists>evs'. py_recv HEADER_SIZE evs = (Inr (take 8 w), evs')))"

lemma run_threads_msg:
  assumes "wf_msg Little m" "\<forall>i \<in> set is. \<exists>evs. runs i = Some (None, evs) \<and> receiver_script (msg_bytes m) evs"
  shows "run_threads runs is D = (\<lambda>i. if i \<in> set is then Some (msg_bytes m) else D i)"
  using assms(2)
proof (induction "is" arbitrary: D)
  case (Cons i "is")
  then obtain evs where "runs i = Some (None, evs)" "receiver_script (msg_bytes m) evs" by auto
  moreover from this have "receive_msg i None evs D = (None, D(i \<mapsto> msg_bytes m))"
    using receive_msg_records [of m evs "[]"] assms(1) msg_bytes_not_Nil [OF assms(1)]
    by (auto simp: receiver_script_def msg_bytes_def)
  ultimately show ?case using Cons by (auto simp: fun_eq_iff)
qed simp

lemma run_threads_nothing:
  assumes "\<forall>i \<in> set is. \<exists>evs. runs i = Some (None, evs) \<and> receiver_script [] evs"
  shows "run_threads runs is D = D"
  using assms
proof (induction "is")
  case (Cons i "is")
  then obtain evs e evs' where "runs i = Some (None, evs)" "py_recv HEADER_SIZE evs = (Inl e, evs')"
    by (auto simp: receiver_script_def)
  with Cons show ?case by (simp add: receive_msg_def create_receiver_def create_sender_def)
qed simp

lemma check_received_pass:
  "\<forall>i \<in> set is. D i = (if expect_timeout then None else Some bs) \<Longrightarrow>
   check_received bs expect_timeout D is = None"
  by (induction "is") auto

section \<open>Properties\<close>

text \<open>
  Property C24. The server does what the suite expects of it, for every case, and for every way in which the bytes of the
  decoded vector can arrive, in any segments and with any interruptions. With the parser of the extended protocol
  the source loop queues nothing if the case expects a timeout, and otherwise exactly the vector. With the parser of the
  original protocol it does the same in all cases but \<open>test_invalid_checksum\<close>, whose vector it queues: that
  case needs the extended protocol.
\<close>

theorem suite_expectations:
  assumes "(name, v, n, expect_timeout) \<in> set test_cases" "getb v = Inr bs"
    and "clean evs" "stream_bytes evs = bs" "4 * evs_size evs \<le> budget s"
  shows "\<exists>s' q. accept_loop (ctmp_parse_func Little extended) clock [Inr evs] s [] = Some (Inr (s', q)) \<and>
    queued_bytes q =
      (if expect_timeout \<and> (extended \<or> name \<noteq> ''test_invalid_checksum'') then [] else [bs])"
proof -
  have "forwarded extended v =
      (if expect_timeout \<and> (extended \<or> name \<noteq> ''test_invalid_checksum'') then [] else [bs])"
    using suite_forwards [of extended] assms(1,2) by (force simp: list_all_iff)
  with queued_of_stream [OF assms(3,5), of Little extended clock] forwarded_deframe [OF assms(2), of extended] assms(4)
  show ?thesis by simp
qed

theorem suite_expectations_witness:
  "\<exists>s' q. accept_loop (ctmp_parse_func Little True) (\<lambda>_. epoch)
      [Inr [Chunk [0xCC, 0, 0], Err EINTR, Chunk ([50, 0, 0, 0, 0] @ replicate 7 0x61), Pending, Chunk (replicate 43 0x61)]]
      \<lparr>rx = [], diags = [], live = 0, budget = 999\<rparr> [] = Some (Inr (s', q)) \<and>
    queued_bytes q = [[0xCC, 0, 0, 50, 0, 0, 0, 0] @ replicate 50 0x61]"
proof -
  let ?evs = "[Chunk [0xCC, 0, 0], Err EINTR, Chunk ([50, 0, 0, 0, 0] @ replicate 7 0x61), Pending, Chunk (replicate 43 0x61)]"
  have "replicate 50 (0x61 :: byte) = replicate 7 0x61 @ replicate 43 0x61"
    by (simp flip: replicate_add)
  then have b: "stream_bytes ?evs = [0xCC, 0, 0, 50, 0, 0, 0, 0] @ v_body" by (simp add: v_body_def)
  have t: "(''test_transmitted_with_sensitive_disabled'', t_basic_no_checksum, 1, False) \<in> set test_cases"
    by (simp add: test_cases_def)
  have c: "clean ?evs" "4 * evs_size ?evs \<le> budget \<lparr>rx = [], diags = [], live = 0, budget = 999\<rparr>" by simp_all
  from suite_expectations [OF t getb_t_basic_no_checksum c(1) b c(2), of True "\<lambda>_. epoch"]
  show ?thesis unfolding v_body_def if_False simp_thms .
qed

text \<open>
  Property C23. A case of the suite passes whenever its receivers are sent what the server forwards of its
  vector in the extended protocol, in segments of any size after the header.
\<close>

theorem suite_passes:
  assumes "(name, v, n, expect_timeout) \<in> set test_cases" "getb v = Inr bs"
    and "\<forall>i < n. \<exists>evs. runs i = Some (None, evs) \<and> receiver_script (concat (forwarded True v)) evs"
  shows "test_case bs n expect_timeout None None runs = None"
proof -
  have f: "forwarded True v = (if expect_timeout then [] else [bs])"
    using suite_forwards [of True] assms(1,2) by (force simp: list_all_iff)
  let ?D = "run_threads runs [0..<n] Map.empty"
  have "\<forall>i \<in> set [0..<n]. ?D i = (if expect_timeout then None else Some bs)"
  proof (cases expect_timeout)
    case True
    with f assms(3) show ?thesis by (subst run_threads_nothing) auto
  next
    case False
    obtain ms where ms: "deframe Little (accepted Little True) bs = ms" "map msg_bytes ms = [bs]"
      using f False forwarded_deframe [OF assms(2)] by simp
    then obtain m where "ms = [m]" "msg_bytes m = bs" by auto
    moreover have "\<forall>m \<in> set ms. wf_msg Little m" using deframe_wf ms(1) by blast
    ultimately show ?thesis using f False assms(3) by (subst run_threads_msg [of m]) auto
  qed
  then show ?thesis
    using check_received_pass by (simp add: test_case_def create_sender_def)
qed

theorem suite_passes_witness:
  "test_case (projr (getb t_basic_no_checksum)) 1 False None None
     (\<lambda>_. Some (None, [Chunk ([0xCC, 0, 0, 50, 0, 0, 0, 0] @ replicate 7 0x61), Err EINTR, Pending,
        Chunk (replicate 43 0x61)])) = None"
proof (rule suite_passes [where v = t_basic_no_checksum and name = "''test_transmitted_with_sensitive_disabled''"])
  have "replicate 50 (0x61 :: byte) = replicate 7 0x61 @ replicate 43 0x61"
    by (simp flip: replicate_add)
  then show "\<forall>i<1. \<exists>evs. (\<lambda>_. Some (None, [Chunk ([0xCC, 0, 0, 50, 0, 0, 0, 0] @ replicate 7 0x61),
      Err EINTR, Pending, Chunk (replicate 43 0x61)])) i = Some (None, evs) \<and>
    receiver_script (concat (forwarded True t_basic_no_checksum)) evs"
    by (simp add: forwarded_plain receiver_script_def py_recv_Chunk HEADER_SIZE_def)
qed (simp_all add: test_cases_def getb_t_basic_no_checksum)

text \<open>The length that is read from the first \<open>k\<close> bytes of a message.\<close>

lemma stated_length_take:
  assumes "wf_msg Little m" "k < 8"
  shows "stated_length (take k (msg_bytes m)) =
    (if k \<le> 2 then 0 else if k = 3 then unat (header m ! 2) else length (payload m))"
proof -
  have l: "length (header m) = 8" by (rule length_header_wf [OF assms(1)])
  then have t: "take k (msg_bytes m) = take k (header m)" using assms(2) by (simp add: msg_bytes_def)
  obtain a b c d e f g h where "header m = [a, b, c, d, e, f, g, h]"
    using l by (auto simp: length_Suc_conv eval_nat_numeral)
  with wf_stated_length [OF assms(1)] assms(2) show ?thesis
    unfolding t by (auto simp: stated_length_def from_bytes_big_def eval_nat_numeral less_Suc_eq)
qed

text \<open>
  Property C38. The receiver of the suite fails on a message whose header comes in two segments, wherever it is cut:
  the first call of \<open>recv\<close> is not repeated, the rest of the header counts as payload, and the length is read
  from what has come of it (0 from one or two bytes, the high byte alone from three). What is recorded is a proper prefix of
  the message that was sent, and the test fails although the server has sent the right bytes.
\<close>

theorem short_first_read_truncates:
  assumes "wf_msg Little m" "0 < k" "k < 8" "clean evs" "stream_bytes evs = drop k (msg_bytes m) @ rest"
  shows "\<exists>r. receive_msg i None (Chunk (take k (msg_bytes m)) # evs) D = (None, D(i \<mapsto> take r (msg_bytes m))) \<and>
    r = k + (if k \<le> 2 then 0 else if k = 3 then unat (header m ! 2) else length (payload m)) \<and>
    r < length (msg_bytes m) \<and>
    test_case (msg_bytes m) 1 False None None (\<lambda>_. Some (None, Chunk (take k (msg_bytes m)) # evs)) = Some AssertionError"
proof -
  let ?bs = "take k (msg_bytes m)"
  let ?n = "if k \<le> 2 then 0 else if k = 3 then unat (header m ! 2) else length (payload m)"
  have l: "length (msg_bytes m) = 8 + length (payload m)" using length_header_wf [OF assms(1)] by (simp add: msg_bytes_def)
  have "length (header m) = 8" by (rule length_header_wf [OF assms(1)])
  then have "length (payload m) = 256 * unat (header m ! 2) + unat (header m ! 3)"
    using wf_stated_length [OF assms(1)] stated_length_header [of "header m"] by (simp add: net_length_def)
  then have r: "k + ?n < length (msg_bytes m)" using l assms(3) by auto
  then have n: "?n \<le> length (drop k (msg_bytes m))" by (simp only: length_drop)
  have bs: "?bs \<noteq> []" "length ?bs \<le> HEADER_SIZE" using l assms(2,3) by (auto simp: HEADER_SIZE_def)
  obtain evs' where loop: "receive_loop ?n 0 ?bs evs = (Inr (?bs @ take ?n (stream_bytes evs)), evs')"
    using receive_loop_clean [OF assms(4), of 0 ?n ?bs] n assms(5) by auto
  have "?bs @ take ?n (stream_bytes evs) = take (k + ?n) (msg_bytes m)"
    using n unfolding assms(5) by (simp add: take_add)
  with loop bs have rec: "receive_msg j None (Chunk ?bs # evs) E = (None, E(j \<mapsto> take (k + ?n) (msg_bytes m)))" for j E
    using stated_length_take [OF assms(1,3)]
    by (simp add: receive_msg_def create_receiver_def create_sender_def py_recv_Chunk HEADER_SIZE_def del: if_split)
  have "length (take (k + ?n) (msg_bytes m)) < length (msg_bytes m)" using r by simp
  then have "take (k + ?n) (msg_bytes m) \<noteq> msg_bytes m" by (metis less_irrefl)
  then have "test_case (msg_bytes m) 1 False None None (\<lambda>_. Some (None, Chunk ?bs # evs)) = Some AssertionError"
    by (simp add: test_case_def create_sender_def rec)
  with rec r show ?thesis by blast
qed

theorem short_first_read_truncates_witness:
  "receive_msg 0 None [Chunk [0xCC, 0, 0, 2], Chunk [0, 0, 0], Pending, Chunk [0, 7, 9]] Map.empty =
    (None, [0 \<mapsto> [0xCC, 0, 0, 2, 0, 0]])"
proof -
  have "payload sample_msg = [7, 9]" "header sample_msg = [0xCC, 0, 0, 2, 0, 0, 0, 0]"
    by (simp_all add: payload_def sample_msg_def)
  then show ?thesis
    using short_first_read_truncates [OF wf_sample_msg, of 4 "[Chunk [0, 0, 0], Pending, Chunk [0, 7, 9]]" "[]" 0 Map.empty]
    unfolding msg_bytes_sample by simp
qed

end
