(* ===== verification/Py_Suite.thy ===== *)
theory Py_Suite
  imports Py_Tests
begin

text \<open>
  The life of a test in \<^verbatim>\<open>wire-storm-reloaded-1.0.0/tests.py\<close>: \<open>setUp\<close>, the test case, \<open>tearDown\<close>, as \<open>unittest\<close>
  runs them, with the sockets they open and close; and the whole suite. The dictionary \<open>data_received\<close> belongs to
  the class, so all tests share it.
\<close>

section \<open>The code\<close>

datatype sock_event = Opened py_socket | Closed py_socket

record suite_state =
  recorded :: received
  socks :: "sock_event list"
  slept :: rat

text \<open>A socket whose \<open>connect\<close> fails is never handed out; it is gone with the exception.\<close>

definition open_socket :: "py_socket \<Rightarrow> suite_state \<Rightarrow> suite_state" where
  "open_socket sk S = S\<lparr>socks := socks S @ [Opened sk]\<rparr>"

definition close_socket :: "py_socket \<Rightarrow> suite_state \<Rightarrow> suite_state" where
  "close_socket sk S = S\<lparr>socks := socks S @ [Closed sk]\<rparr>"

definition setUp :: "errno option \<Rightarrow> suite_state \<Rightarrow> (py_error + py_socket) \<times> suite_state" where
  "setUp answer S =
     (let S1 = S\<lparr>recorded := Map.empty\<rparr> in
      case create_sender HOST SEND_PORT 5 answer of
        Inl e \<Rightarrow> (Inl e, S1)
      | Inr sender \<Rightarrow> (Inr sender, open_socket sender S1))"

definition tearDown :: "py_socket \<Rightarrow> suite_state \<Rightarrow> suite_state" where
  "tearDown sender S = (close_socket sender S)\<lparr>slept := slept S + 1 / 2\<rparr>"

text \<open>
  A receiver thread with its socket: \<open>finally\<close> closes it whatever has happened in the \<open>try\<close> block.
\<close>

definition receiver_thread :: "nat \<Rightarrow> errno option \<Rightarrow> rx_event list \<Rightarrow> suite_state \<Rightarrow> suite_state" where
  "receiver_thread i answer evs S =
     (case create_receiver HOST RECV_PORT answer of
        Inl e \<Rightarrow> S
      | Inr receiver \<Rightarrow>
          close_socket receiver
            ((open_socket receiver S)\<lparr>recorded := snd (receive_msg i answer evs (recorded S))\<rparr>))"

text \<open>
  The threads of a test; \<open>None\<close> is a thread that has connected and is still inside its \<open>try\<close> block when \<open>join\<close> gives up on
  it, so that its socket is open.
\<close>

fun receiver_threads ::
  "(nat \<Rightarrow> (errno option \<times> rx_event list) option) \<Rightarrow> nat list \<Rightarrow> suite_state \<Rightarrow> suite_state" where
  "receiver_threads runs [] S = S"
| "receiver_threads runs (i # is) S =
     (case runs i of
        None \<Rightarrow>
          (case create_receiver HOST RECV_PORT None of
             Inl e \<Rightarrow> receiver_threads runs is S
           | Inr receiver \<Rightarrow> receiver_threads runs is (open_socket receiver S))
      | Some (answer, evs) \<Rightarrow> receiver_threads runs is (receiver_thread i answer evs S))"

text \<open>
  The receiver threads of earlier tests that outlived \<open>join\<close> and end while this test runs: what they record, if they
  record something, and the close of their socket.
\<close>

definition receiver_socket :: py_socket where
  "receiver_socket =
     \<lparr>family = ''AF_INET'', kind = ''SOCK_STREAM'', timeout = Some 5, peer = Some (HOST, RECV_PORT)\<rparr>"

fun late_threads :: "(nat \<times> byte list option) list \<Rightarrow> suite_state \<Rightarrow> suite_state" where
  "late_threads [] S = S"
| "late_threads ((i, r) # late) S =
     late_threads late (close_socket receiver_socket
       (case r of None \<Rightarrow> S | Some bs \<Rightarrow> S\<lparr>recorded := (recorded S)(i \<mapsto> bs)\<rparr>))"

record test_run =
  tr_bytes :: "byte list"
  tr_threads :: nat
  tr_timeout :: bool
  tr_connect :: "errno option"
  tr_sendall :: "errno option"
  tr_runs :: "nat \<Rightarrow> (errno option \<times> rx_event list) option"
  tr_late :: "(nat \<times> byte list option) list"

text \<open>
  One test: when \<open>setUp\<close> fails neither the test nor \<open>tearDown\<close> is run; otherwise \<open>tearDown\<close> is run whatever the
  verdict. Before the data is sent the test sleeps for half a second; when \<open>sendall\<close> fails its threads are left
  alone.
\<close>

definition run_test :: "test_run \<Rightarrow> suite_state \<Rightarrow> py_error option \<times> suite_state" where
  "run_test t S =
     (case setUp (tr_connect t) S of
        (Inl e, S1) \<Rightarrow> (Some e, late_threads (tr_late t) S1)
      | (Inr sender, S1) \<Rightarrow>
          (let S2 = (late_threads (tr_late t) S1)\<lparr>slept := slept S1 + 1 / 2\<rparr>;
               S3 = receiver_threads (tr_runs t) [0..<tr_threads t] S2;
               verdict = (case tr_sendall t of
                   Some (Errno e) \<Rightarrow> Some (OSError e)
                 | None \<Rightarrow> check_received (tr_bytes t) (tr_timeout t) (recorded S3) [0..<tr_threads t])
           in (verdict, tearDown sender S3)))"

fun run_suite :: "test_run list \<Rightarrow> suite_state \<Rightarrow> py_error option list \<times> suite_state" where
  "run_suite [] S = ([], S)"
| "run_suite (t # ts) S =
     (case run_test t S of (v, S1) \<Rightarrow> (case run_suite ts S1 of (vs, S2) \<Rightarrow> (v # vs, S2)))"

section \<open>Sockets\<close>

definition all_closed :: "suite_state \<Rightarrow> bool" where
  "all_closed S \<longleftrightarrow> (\<forall>sk. count_list (socks S) (Opened sk) = count_list (socks S) (Closed sk))"

text \<open>How many threads a test leaves behind, and how many of those of earlier tests end during it.\<close>

definition left_behind :: "test_run \<Rightarrow> nat" where
  "left_behind t = (if tr_connect t = None then length (filter (\<lambda>i. tr_runs t i = None) [0..<tr_threads t]) else 0)"

text \<open>
  \<open>xs\<close> opens \<open>a\<close> receiver sockets that it does not close, and closes \<open>b\<close> that it has not opened; all other
  sockets it closes as often as it opens them.
\<close>

definition balance :: "nat \<Rightarrow> nat \<Rightarrow> sock_event list \<Rightarrow> bool" where
  "balance a b xs \<longleftrightarrow>
     count_list xs (Opened receiver_socket) + b = count_list xs (Closed receiver_socket) + a \<and>
     (\<forall>sk. sk \<noteq> receiver_socket \<longrightarrow> count_list xs (Opened sk) = count_list xs (Closed sk))"

lemma balance_append: "balance a b xs \<Longrightarrow> balance c d ys \<Longrightarrow> balance (a + c) (b + d) (xs @ ys)"
  by (simp add: balance_def)

lemma balance_Nil: "balance 0 0 []"
  by (simp add: balance_def)

lemma create_receiver_socket: "create_receiver HOST RECV_PORT None = Inr receiver_socket"
  by (simp add: create_receiver_Inr receiver_socket_def)

lemma receiver_thread_recorded:
  "recorded (receiver_thread i answer evs S) = snd (receive_msg i answer evs (recorded S))"
  by (simp add: receiver_thread_def receive_msg_def open_socket_def close_socket_def split: sum.splits)

lemma receiver_threads_recorded:
  "recorded (receiver_threads runs is S) = run_threads runs is (recorded S)"
  by (induction "is" arbitrary: S)
    (auto simp: receiver_thread_recorded create_receiver_socket open_socket_def split: option.splits)

lemma receiver_thread_socks:
  "\<exists>xs. socks (receiver_thread i answer evs S) = socks S @ xs \<and> balance 0 0 xs"
  by (auto simp: receiver_thread_def open_socket_def close_socket_def balance_def split: sum.splits)

lemma receiver_threads_socks:
  "\<exists>xs. socks (receiver_threads runs is S) = socks S @ xs \<and> balance (length (filter (\<lambda>i. runs i = None) is)) 0 xs"
proof (induction "is" arbitrary: S)
  case (Cons i "is")
  show ?case
  proof (cases "runs i")
    case None
    from Cons.IH [of "open_socket receiver_socket S"] obtain xs where
      xs: "socks (receiver_threads runs is (open_socket receiver_socket S)) = socks S @ [Opened receiver_socket] @ xs"
        "balance (length (filter (\<lambda>i. runs i = None) is)) 0 xs"
      by (auto simp: open_socket_def)
    have "balance 1 0 [Opened receiver_socket]" by (simp add: balance_def)
    from balance_append [OF this xs(2)] xs(1) None show ?thesis
      by (intro exI [of _ "[Opened receiver_socket] @ xs"]) (simp add: create_receiver_socket)
  next
    case (Some p)
    obtain answer evs where p: "p = (answer, evs)" by (cases p)
    obtain xs where xs: "socks (receiver_thread i answer evs S) = socks S @ xs" "balance 0 0 xs"
      using receiver_thread_socks by blast
    from Cons.IH [of "receiver_thread i answer evs S"] obtain ys where
      ys: "socks (receiver_threads runs is (receiver_thread i answer evs S)) = socks S @ xs @ ys"
        "balance (length (filter (\<lambda>i. runs i = None) is)) 0 ys"
      using xs(1) by auto
    from balance_append [OF xs(2) ys(2)] ys(1) Some p show ?thesis by auto
  qed
qed (simp add: balance_Nil)

lemma late_threads_socks:
  "\<exists>xs. socks (late_threads late S) = socks S @ xs \<and> balance 0 (length late) xs"
proof (induction late S rule: late_threads.induct)
  case (2 i r late S)
  then obtain xs where xs: "socks (late_threads ((i, r) # late) S) = socks S @ [Closed receiver_socket] @ xs"
      "balance 0 (length late) xs"
    by (auto simp: close_socket_def split: option.splits)
  have "balance 0 1 [Closed receiver_socket]" by (simp add: balance_def)
  from balance_append [OF this xs(2)] xs(1) show ?case by auto
qed (simp add: balance_Nil)

lemma run_test_socks:
  "\<exists>xs. socks (snd (run_test t S)) = socks S @ xs \<and> balance (left_behind t) (length (tr_late t)) xs"
proof (cases "create_sender HOST SEND_PORT 5 (tr_connect t)")
  case (Inl e)
  then have "tr_connect t \<noteq> None" by (auto simp: create_sender_def split: option.splits)
  with Inl late_threads_socks [of "tr_late t" "S\<lparr>recorded := Map.empty\<rparr>"] show ?thesis
    by (auto simp: run_test_def setUp_def left_behind_def)
next
  case (Inr sender)
  then have t: "tr_connect t = None" by (auto simp: create_sender_def Let_def split: option.splits errno.splits)
  let ?S1 = "open_socket sender (S\<lparr>recorded := Map.empty\<rparr>)"
  let ?S2 = "(late_threads (tr_late t) ?S1)\<lparr>slept := slept S + 1 / 2\<rparr>"
  let ?S3 = "receiver_threads (tr_runs t) [0..<tr_threads t] ?S2"
  obtain xs where xs: "socks ?S2 = socks ?S1 @ xs" "balance 0 (length (tr_late t)) xs"
    using late_threads_socks [of "tr_late t" ?S1] by auto
  obtain ys where ys: "socks ?S3 = socks ?S2 @ ys" "balance (left_behind t) 0 ys"
    using receiver_threads_socks [of "tr_runs t" "[0..<tr_threads t]" ?S2] t by (auto simp: left_behind_def)
  have "snd (run_test t S) = tearDown sender ?S3"
    using Inr by (simp add: run_test_def setUp_def Let_def open_socket_def)
  then have "socks (snd (run_test t S)) = socks S @ [Opened sender] @ (xs @ ys) @ [Closed sender]"
    using xs(1) ys(1) by (simp add: tearDown_def close_socket_def open_socket_def)
  moreover have "balance (left_behind t) (length (tr_late t)) (xs @ ys)"
    using balance_append [OF xs(2) ys(2)] by simp
  then have "balance (left_behind t) (length (tr_late t)) ([Opened sender] @ (xs @ ys) @ [Closed sender])"
    by (auto simp: balance_def)
  ultimately show ?thesis by blast
qed

lemma run_suite_socks:
  "run_suite ts S = (vs, S') \<Longrightarrow> \<exists>xs. socks S' = socks S @ xs \<and>
    balance (sum_list (map left_behind ts)) (sum_list (map (\<lambda>t. length (tr_late t)) ts)) xs"
proof (induction ts arbitrary: S vs)
  case (Cons t ts)
  obtain v S1 where 1: "run_test t S = (v, S1)" by fastforce
  obtain ws S2 where 2: "run_suite ts S1 = (ws, S2)" by fastforce
  obtain xs where xs: "socks S1 = socks S @ xs" "balance (left_behind t) (length (tr_late t)) xs"
    using run_test_socks [of t S] 1 by auto
  from 1 2 Cons.prems have S': "S2 = S'" by simp
  obtain ys where ys: "socks S' = socks S1 @ ys"
      "balance (sum_list (map left_behind ts)) (sum_list (map (\<lambda>t. length (tr_late t)) ts)) ys"
    using Cons.IH [of S1 ws] 2 S' by auto
  from balance_append [OF xs(2) ys(2)] xs(1) ys(1) show ?case by auto
qed (simp add: balance_Nil)

lemma balanced_closed:
  assumes "all_closed S" "socks S' = socks S @ xs" "balance a b xs"
  shows "balance a b (socks S') \<and> (all_closed S' \<longleftrightarrow> a = b)"
proof -
  have b: "balance a b (socks S')" using assms by (simp add: all_closed_def balance_def)
  moreover have "all_closed S' \<longleftrightarrow> count_list (socks S') (Opened receiver_socket) = count_list (socks S') (Closed receiver_socket)"
    using b unfolding all_closed_def balance_def by metis
  moreover have "\<dots> \<longleftrightarrow> a = b" using b unfolding balance_def by linarith
  ultimately show ?thesis by blast
qed

section \<open>Isolation\<close>

text \<open>The verdict of a test in which no earlier thread records anything is that of the test case alone.\<close>

lemma late_threads_silent:
  "\<forall>p \<in> set late. snd p = None \<Longrightarrow> recorded (late_threads late S) = recorded S"
  by (induction late S rule: late_threads.induct) (auto simp: close_socket_def)

lemma run_test_alone:
  assumes "\<forall>p \<in> set (tr_late t). snd p = None"
  shows "fst (run_test t S) =
    test_case (tr_bytes t) (tr_threads t) (tr_timeout t) (tr_connect t) (tr_sendall t) (tr_runs t)"
  using late_threads_silent [OF assms]
  by (auto simp: run_test_def setUp_def test_case_def receiver_threads_recorded open_socket_def
      split: sum.splits option.splits)

lemma run_suite_alone:
  assumes "\<forall>t \<in> set ts. \<forall>p \<in> set (tr_late t). snd p = None"
  shows "fst (run_suite ts S) = map (\<lambda>t. test_case (tr_bytes t) (tr_threads t) (tr_timeout t) (tr_connect t)
    (tr_sendall t) (tr_runs t)) ts"
  using assms
proof (induction ts arbitrary: S)
  case (Cons t ts)
  obtain v S1 where 1: "run_test t S = (v, S1)" by fastforce
  obtain vs S2 where 2: "run_suite ts S1 = (vs, S2)" by fastforce
  from Cons.IH [of S1] Cons.prems 1 2 run_test_alone [of t S] show ?case by simp
qed simp

section \<open>Properties\<close>

text \<open>
  Property C37. The tests of the suite are isolated: as long as no receiver thread that outlives its test records
  anything later, the verdict of every test is that of the test on its own, whatever ran before it. And they clean up, on
  every path: every socket is closed as often as it is opened, except that a receiver thread that outlives its test
  leaves its socket open until it ends. So at the end of the suite all sockets are closed exactly if as many such threads have
  ended as were left behind, in particular if none was.
\<close>

theorem suite_isolated_and_clean:
  assumes "\<forall>t \<in> set ts. \<forall>p \<in> set (tr_late t). snd p = None" and "all_closed S" and "run_suite ts S = (vs, S')"
  defines "left \<equiv> sum_list (map left_behind ts)" and "ended \<equiv> sum_list (map (\<lambda>t. length (tr_late t)) ts)"
  shows "vs = map (\<lambda>t. test_case (tr_bytes t) (tr_threads t) (tr_timeout t) (tr_connect t) (tr_sendall t)
      (tr_runs t)) ts \<and>
    count_list (socks S') (Opened receiver_socket) + ended = count_list (socks S') (Closed receiver_socket) + left \<and>
    (\<forall>sk. sk \<noteq> receiver_socket \<longrightarrow> count_list (socks S') (Opened sk) = count_list (socks S') (Closed sk)) \<and>
    (all_closed S' \<longleftrightarrow> left = ended)"
proof -
  obtain xs where "socks S' = socks S @ xs" "balance left ended xs"
    using run_suite_socks [OF assms(3)] by (auto simp: left_def ended_def)
  from balanced_closed [OF assms(2) this] run_suite_alone [OF assms(1), of S] assms(3) show ?thesis
    by (simp add: balance_def)
qed

definition refused_test :: test_run where
  "refused_test = \<lparr>tr_bytes = [1], tr_threads = 1, tr_timeout = False, tr_connect = Some (Errno 111),
     tr_sendall = None, tr_runs = (\<lambda>_. None), tr_late = []\<rparr>"

definition silent_test :: "(nat \<times> byte list option) list \<Rightarrow> test_run" where
  "silent_test late = \<lparr>tr_bytes = [1], tr_threads = 1, tr_timeout = True, tr_connect = None,
     tr_sendall = None, tr_runs = (\<lambda>_. None), tr_late = late\<rparr>"

definition fresh_suite :: suite_state where
  "fresh_suite = \<lparr>recorded = [0 \<mapsto> [7]], socks = [], slept = 0\<rparr>"

theorem suite_isolated_and_clean_witness:
  "\<exists>S1 S2. run_suite [refused_test, silent_test []] fresh_suite = ([Some (OSError 111), None], S1) \<and> \<not> all_closed S1 \<and>
    run_suite [silent_test [], refused_test\<lparr>tr_late := [(0, None)]\<rparr>] fresh_suite = ([None, Some (OSError 111)], S2) \<and>
    all_closed S2"
proof -
  let ?a = "[refused_test, silent_test []]" and ?b = "[silent_test [], refused_test\<lparr>tr_late := [(0, None)]\<rparr>]"
  obtain vs S1 where 1: "run_suite ?a fresh_suite = (vs, S1)" by fastforce
  obtain ws S2 where 2: "run_suite ?b fresh_suite = (ws, S2)" by fastforce
  have late: "\<forall>t \<in> set ?a. \<forall>p \<in> set (tr_late t). snd p = None" "\<forall>t \<in> set ?b. \<forall>p \<in> set (tr_late t). snd p = None"
      and fresh: "all_closed fresh_suite"
    by (simp_all add: refused_test_def silent_test_def all_closed_def fresh_suite_def)
  from suite_isolated_and_clean [OF late(1) fresh 1] suite_isolated_and_clean [OF late(2) fresh 2] 1 2 show ?thesis
    by (simp add: refused_test_def silent_test_def test_case_def create_sender_def left_behind_def)
qed

text \<open>
  A receiver thread that outlives \<open>join\<close> is not stopped, and it records into the dictionary of the class: a
  later test that expects nothing fails although its own receivers are sent nothing.
\<close>

lemma late_thread_fails_next_test:
  assumes "i < tr_threads t" "tr_late t = [(i, Some bs)]" "tr_timeout t" "tr_connect t = None" "tr_sendall t = None"
    and "\<forall>j. tr_runs t j = None"
  shows "fst (run_test t S) = Some AssertionError"
proof -
  have no_runs: "run_threads (tr_runs t) is D = D" for "is" D using assms(6) by (induction "is") simp_all
  have fails: "check_received b True [i \<mapsto> bs] is = Some AssertionError" if "i \<in> set is" for "is" b
    using that by (induction "is") auto
  show ?thesis
    using assms fails [of "[0..<tr_threads t]"] no_runs
    by (simp add: run_test_def setUp_def create_sender_def receiver_threads_recorded open_socket_def close_socket_def)
qed

end
