(* ===== verification/Spec2Isabelle.thy ===== *)
theory Spec2Isabelle
  imports Proxy_Live Startup Cli_Output Socket_Server Py_Suite
begin

text \<open>
  This development models the CTMP proxy server: a C program that accepts one source connection at a time on
  port 33333, splits its byte stream into CTMP messages and forwards each of them to every receiver that
  is connected on port 44444; and the Python test suite that exercises it. The theorems say what a
  receiver is sent, which messages are rejected, how the threads hand work to each other, and where the
  program does not do what it is meant to.

  \<^bold>\<open>How the program works.\<close> \<^verbatim>\<open>main\<close> (\<^verbatim>\<open>ws_server.c\<close>) parses the command line (\<^verbatim>\<open>lib/args.c\<close>), sets up the
  worker pool (\<^verbatim>\<open>lib/thread.c\<close>) and starts the destination server and the cleanup worker; the main thread
  becomes the source server. The source server reads messages with one of two parsers
  (\<^verbatim>\<open>lib/ctmp.c\<close>: the base and the extended protocol) and appends an entry for each to a tail queue
  (\<^verbatim>\<open>lib/msg_queue.c\<close>), with a time stamp and a bit mask of the workers that have sent it. The
  destination server accepts receivers (\<^verbatim>\<open>lib/socket.c\<close>) and assigns each to an idle worker. A worker
  walks the queue and sends its receiver the entries that arrived after the receiver. The cleanup worker
  walks the queue too and frees the data of entries that are past their time to live.

  \<^bold>\<open>Theories.\<close>
  \<^item> \<open>Prelude\<close>: machine types, the ways a C function can fail (\<open>fault\<close>), the error monad.
  \<^item> \<open>Bitmask\<close> (\<^verbatim>\<open>lib/bitmask.c\<close>): \<open>is_set\<close>, \<open>set_bit_mask\<close>; the locale \<open>flag_mask\<close> is the contract of a set of
    flags, which the masks meet for the positions 0 to 31.
  \<^item> \<open>Timestamp\<close> (\<^verbatim>\<open>lib/timestamp.c\<close>): \<open>compare_times\<close>; the locale \<open>strict_time\<close> is what the queue relies on.
  \<^item> \<open>Socket_IO\<close> (\<^verbatim>\<open>lib/ctmp.c\<close>, \<^verbatim>\<open>lib/socket.c\<close>): \<open>read_msg\<close>, \<open>send_msg\<close>, \<open>is_alive\<close> over scripts of what the
    kernel reports on a connection.
  \<^item> \<open>Ctmp\<close> (\<^verbatim>\<open>lib/ctmp.c\<close>): the header checks, \<open>parse_ctmp_msg\<close>, \<open>send_ctmp_msg\<close>; \<open>frame_step\<close> and \<open>deframe\<close> are the
    specification of a parser on a byte stream, the locale \<open>ctmp_parser\<close> the contract of the function
    pointer \<open>ctmp_parse_func\<close>.
  \<^item> \<open>Checksum\<close>: \<open>calc_checksum\<close>, with RFC 1071 (\<open>rfc1071\<close>) as its specification.
  \<^item> \<open>Ctmp_Extended\<close>: \<open>parse_ctmp_msg_extended\<close>, which meets \<open>ctmp_parser\<close> as well.
  \<^item> \<open>Msg_Queue\<close> (\<^verbatim>\<open>lib/msg_queue.c\<close>): entries and the queue; pointers into the queue are positions. The locale
    \<open>queue_cursor\<close> is what a thread that walks the queue relies on.
  \<^item> \<open>Thread_Pool\<close> (\<^verbatim>\<open>lib/thread.c\<close>): the pool and its operations, and their invariant \<open>pool_ok\<close>.
  \<^item> \<open>Source_Server\<close>, \<open>Dst_Server\<close>, \<open>Dst_Worker\<close>, \<open>Cleanup\<close>, \<open>Startup\<close> (\<^verbatim>\<open>ws_server.c\<close>): the threads and \<^verbatim>\<open>main\<close>.
  \<^item> \<open>Worker_Phases\<close>, \<open>Cleanup_Phases\<close> (\<^verbatim>\<open>ws_server.c\<close>): the loops of a worker and of the cleanup worker cut at their
    accesses to shared data (\<open>wstep\<close>, \<open>cstep\<close>), which uninterrupted are \<open>worker_iter\<close> and \<open>cleanup_iter\<close>.
  \<^item> \<open>Relay_System\<close>: source server, all workers with their successive receivers, and cleanup worker over one
    queue; an \<open>action\<close> is a step of one of them, \<open>sys_reachable\<close> the states of all interleavings. \<open>Relay_Safety\<close> is
    its invariant \<open>sys_inv\<close>, \<open>Relay_Spec\<close> the abstract relay it refines (locale \<open>simulation\<close>), the catching up
    of a worker and the reasons for faults, \<open>Relay_Results\<close> the properties.
  \<^item> \<open>Handoff\<close>: the destination server and all workers as a step relation, one step for each shared access;
    \<open>handoff_inv\<close> is its invariant. The delay between two searches for an idle worker is \<open>backoff\<close>; doubling it beyond
    \<open>2 ^ 30\<close> leads to the stage \<open>Delay_Overflow\<close>, from which there is no step (\<open>delay_can_overflow\<close> in \<open>Handoff_Live\<close>).
  \<^item> \<open>Source_Phases\<close> (\<^verbatim>\<open>ws_server.c\<close>): the loops of the source server cut at their accesses to shared data (\<open>sstep\<close>),
    which uninterrupted are \<open>accept_loop\<close>.
  \<^item> \<open>Proxy\<close>: the whole program, \<open>Handoff\<close>, \<open>Relay_System\<close> and \<open>Source_Phases\<close> as one step relation \<open>proxy_step\<close>; the
    locale \<open>simulation\<close>, interpreted twice, says that it refines both. \<open>Proxy_Receivers\<close> follows the receivers from
    \<open>accept\<close> to their workers, \<open>Proxy_Published\<close> the messages from the sources' connections to the queue;
    \<open>Proxy_Results\<close> and the present theory hold the properties.
  \<^item> \<open>Fair_Run\<close>: runs of processes under a scheduler that is strongly fair, and the rules for what they lead to (locales
    \<open>fair_processes\<close> and \<open>fair_part\<close>); \<open>Handoff_Live\<close> and \<open>Relay_Live\<close> apply them to the hand-off and to the workers, which
    compete with the cleanup worker for \<open>msg_lock\<close>, and
    \<open>Proxy_Live\<close> carries the results over to the whole program, whose fair runs are fair runs of its parts.
  \<^item> \<open>Args\<close> (\<^verbatim>\<open>lib/args.c\<close>), \<open>Socket_Server\<close> (\<^verbatim>\<open>lib/socket.c\<close>), \<open>Log\<close> (\<^verbatim>\<open>lib/log.c\<close>), \<open>Cli_Output\<close> (the texts of both).
  \<^item> \<open>Py_Buffers\<close>, \<open>Py_Large\<close>, \<open>Py_Banners\<close>, \<open>Py_Client\<close>, \<open>Py_Tests\<close>, \<open>Py_Suite\<close> (\<^verbatim>\<open>wire-storm-reloaded-1.0.0\<close>): the
    test data, of which \<open>Py_Large\<close> is the vector of 65008 bytes, evaluated by its period; the clients, the test cases,
    and the life of a test and of the suite.

  \<^bold>\<open>What is shown.\<close> The parsers return exactly the messages of the stream, for every segmentation, and leak
  nothing; the extended parser accepts a sensitive message exactly when its RFC 1071 checksum is right,
  and detects every change of one byte of its payload; what the sender puts on a wire is parsed back to the same message
  (\<open>sent_message_parses_back\<close>); the source server's queue is the list of the messages. In every
  interleaving of the threads that share the queue each receiver has been sent its messages in order, without
  gaps, from the place where it joined (\<open>receivers_stream\<close>), the system refines an abstract relay
  (\<open>system_refines_relay\<close>), a worker that waits is up to date, the state stays well-formed, and a worker faults on
  freed data only. In every interleaving of the hand-off no receiver is dropped, no assertion fails, no wake-up
  is missed, and the arguments of a worker change only while it does not use them. In the whole program these fit
  together (\<open>proxy_refines_parts\<close>): no receiver is lost or served twice between \<open>accept\<close> and its worker
  (\<open>receivers_conserved\<close>), a receiver is sent what the sources' connections carry, in their order (\<open>proxy_streams\<close>),
  and one that is up to date has got exactly that (\<open>proxy_delivers\<close>). Under a fair scheduler an accepted receiver is
  served once a worker is free, unless the server's delay overflows (\<open>receivers_get_workers\<close>), and a receiver that stays alive
  and accepts data is sent in the end the messages published by then that are newer than it and not before the place of its
  worker, if no entry is freed while the worker is on it and no earlier error is pending (\<open>messages_reach_receivers\<close>). The
  source loop queues what each case of the suite expects (\<open>suite_expectations\<close>), the suite passes when the receivers are sent
  what the model forwards, and its tests are independent of each other unless a thread that outlives its test records
  something. Other theorems state what goes wrong: the
  masks and pools beyond 32 workers, the padding check that accepts everything, stale errors and lost positions
  of a worker, messages freed while they are sent, receivers that are served from another receiver's place, the
  payload of a rejected message that is parsed.

  \<^bold>\<open>Conventions.\<close> \<open>Inl\<close> of a \<open>fault\<close> is a run that stops: undefined behaviour, \<open>exit\<close>, a failed assertion; waiting on
  a condition that does not hold is \<open>Would_Block\<close>. Clock readings, the answers of system calls and the
  results of \<open>pthread_create\<close> are arguments. \<open>source\<close> counts the heap blocks in use (\<open>live\<close>) and those
  that can still be allocated (\<open>budget\<close>). Recursions are total functions whose measures are the length of
  what is left (\<open>evs_size\<close> for scripts); the loop over a connection, \<open>conn_loop\<close>, is a partial function
  that is shown to return (\<open>source_server_returns\<close>), so no fuel is used anywhere. The byte order of the
  machine is the argument \<open>host\<close>; properties that hold on little-endian machines only say \<open>Little\<close>.

  \<^bold>\<open>What is not modelled.\<close> The arguments of debug output, the C
  library, the kernel and Python's standard library beyond the documented behaviour of the calls the
  program makes; the data races of the C memory model (the steps of \<open>Handoff\<close> and \<open>Relay_System\<close> are sequentially
  consistent, and freeing a block and clearing its pointer is one step); the schedule of Python's threads, of which
  only what they record is modelled; the build files. In \<open>Proxy\<close> a parse is one step, because it touches only the
  source server's own data, and a worker that resumes gives its lock back before it resets the mark of its entry,
  not after, which no other thread can notice, as the server takes the lock of idle workers only. The
  program's exits end its runs: an \<open>accept\<close> that fails, memory that is used up, the overflow of the delay and faults of
  a worker are states without a further step of that thread. The time the server sleeps between two searches is not
  part of the model: a fair run may retry at once or much later.

  \<^bold>\<open>Plan.\<close> The heap blocks of the queue, which the cleanup worker frees, in the account of the source server; the
  debug lines of the threads.
\<close>

section \<open>The whole program\<close>

text \<open>
  Property C2. What a receiver is sent, in every interleaving of the whole program: the client of a worker that
  serves is a receiver that was accepted, its time stamp is the one taken then, and it has been sent, in order and
  without gaps, the messages newer than that stamp from where its worker stood, and a first part of one more; these
  messages are, in order, the first of those that the sources' connections carry.
\<close>

theorem proxy_streams:
  assumes "proxy_reachable host extended ttl n clock src p" "n \<le> 32" "benign (budget src) (uplinks p)"
    and "i < n" "pcs (ho p) i = Serving"
  shows "\<exists>l k u. wl (sy p) i = Some l \<and> receiver_of (worker_at (ho p) i) \<in> set (arrivals p) \<and>
    wts l = client_ts (worker_at (ho p) i) \<and> jpos (sy p) i \<le> k \<and> k \<le> length (hist (sy p)) \<and>
    prefix u (entitled (hist (sy p)) (wts l) k (Suc k)) \<and>
    wire (wcl l) = entitled (hist (sy p)) (wts l) (jpos (sy p) i) k @ u \<and>
    prefix (map snd (hist (sy p))) (concat (map (carried host extended) (uplinks p)))"
proof -
  note f = proxy_facts [OF assms(1,2)]
  have "coupled Serving (client_ts (worker_at (ho p) i)) (wl (sy p) i)"
    using f assms(4,5) by (metis proxy_inv_def couple_def)
  then obtain l where l: "wl (sy p) i = Some l" "wts l = client_ts (worker_at (ho p) i)" by auto
  have "receiver_of (worker_at (ho p) i) \<in># mset (arrivals p)"
    using f assms(4,5) by (simp add: served_by_def conserved_def)
  moreover have "prefix (map snd (hist (sy p))) (concat (map (carried host extended) (uplinks p)))"
    using f assms(3) by (simp add: published_inv_def source_inv_def)
  moreover obtain k u where "jpos (sy p) i \<le> k \<and> k \<le> length (hist (sy p)) \<and>
      prefix u (entitled (hist (sy p)) (wts l) k (Suc k)) \<and>
      wire (wcl l) = entitled (hist (sy p)) (wts l) (jpos (sy p) i) k @ u"
    using slot_stream [OF reachable_sys_inv [OF proxy_threads [OF assms(1,2)] assms(2)] l(1)] f by auto
  ultimately show ?thesis using l by auto
qed

theorem proxy_streams_witness:
  "\<exists>k u. k \<le> 1 \<and> prefix u (entitled [(t_sec 5, sample_msg)] demo_ts k (Suc k)) \<and>
    [0xCC, 0, 0, 2, 0, 0, 0, 0, 7, 9] = entitled [(t_sec 5, sample_msg)] demo_ts 0 k @ u \<and>
    prefix [sample_msg] (carried Little False demo_bytes)"
proof -
  have "benign (budget demo_memory) [demo_bytes]"
    by (simp add: benign_def script_size_def demo_bytes_def demo_memory_def)
  then show ?thesis
    using proxy_streams [OF demo_proxy_reachable, of 0] by (simp add: demo_proxy_def demo_end_def demo_def)
qed


text \<open>
  Property C1. Fidelity of the whole program: whatever the interleaving, when all sources' connections have been
  read and a worker waits for the next message, its receiver, if it was the worker's first and connected before the
  messages arrived, has been sent exactly the messages that the connections carry, in order.
\<close>

theorem proxy_delivers:
  assumes "proxy_reachable host extended ttl n clock src p" "n \<le> 32" "benign (budget src) (uplinks p)"
    and "sph (so p) = S_Accept" "wl (sy p) i = Some l" "jpos (sy p) i = 0" "\<forall>h \<in> set (hist (sy p)). wts l < fst h"
    and "ph l = P_Get" "wstep (int i) (sq (sy p)) l = Inl Would_Block"
  shows "wire (wcl l) = concat (map msg_bytes (concat (map (carried host extended) (uplinks p))))"
proof -
  note f = proxy_facts [OF assms(1,2)] and w = reachable_slot [OF proxy_threads [OF assms(1,2)] assms(2,5)]
  have "gpos l = length (sq (sy p))"
    using wstep_fault [OF w(3,2,5) assms(9)] assms(8) by simp
  then have "wire (wcl l) = entitled (hist (sy p)) (wts l) 0 (length (hist (sy p)))"
    using w(4,5) f assms(6,8) by (simp add: stands_def)
  moreover have "map snd (hist (sy p)) = concat (map (carried host extended) (uplinks p))"
    using f assms(3,4) by (simp add: published_inv_def source_inv_def in_source_def to_read_def)
  ultimately show ?thesis using entitled_all [OF assms(7)] by (metis map_map)
qed

theorem proxy_delivers_witness:
  "\<exists>l. wl demo_end 0 = Some l \<and> wire (wcl l) = concat (map msg_bytes (carried Little False demo_bytes))"
proof -
  have "benign (budget demo_memory) [demo_bytes]"
    by (simp add: benign_def script_size_def demo_bytes_def demo_memory_def)
  moreover have "demo_ts < t_sec 5"
    by (simp add: compare_times_iff_less [symmetric] compare_times_def t_sec_def demo_ts_def)
  ultimately show ?thesis
    using proxy_delivers [OF demo_proxy_reachable, of 0]
    by (simp add: demo_proxy_def demo_end_def wstep_def get_msg_entry_def wait_until_def TAILQ_NEXT_def)
qed

section \<open>The loops of the program, uninterrupted, and one schedule\<close>

lemma fresh_new_entries:
  "\<forall>m \<in> set ms. wf_msg host m \<Longrightarrow> \<forall>e \<in> set (new_entries clock k ms). fresh_entry host i e"
  by (induction ms arbitrary: k) (auto simp: fresh_entry_def new_entry_def)

lemma entitled_new_entries:
  "\<forall>j. k \<le> j \<longrightarrow> ts < clock j \<Longrightarrow>
   entitled_bytes ts (new_entries clock k ms) = concat (map msg_bytes ms)"
proof (induction ms arbitrary: k)
  case (Cons m ms)
  then have "ts < clock k" "entitled_bytes ts (new_entries clock (Suc k) ms) = concat (map msg_bytes ms)"
    by simp_all
  then show ?case by (simp add: entitled_bytes_def new_entry_def entry_bytes_def)
qed (simp add: entitled_bytes_def)

text \<open>
  Fidelity of the relay, end to end: a source connection that carries well-formed,
  acceptable messages, in segments of any size and with interruptions, leads to a queue from which the
  worker of a receiver that connected before can bring the receiver to exactly the bytes the source sent,
  in order, and nothing else.
\<close>

lemma relay_fidelity:
  assumes "\<forall>m \<in> set ms. wf_msg host m \<and> len m \<noteq> 0 \<and> accepted host extended m"
    and "clean evs" "stream_bytes evs = concat (map msg_bytes ms)" "4 * evs_size evs \<le> budget s"
    and "\<forall>j. ts < clock j" "healthy c" "0 \<le> i" "i < 32"
  shows "\<exists>s' q st. accept_loop (ctmp_parse_func host extended) clock [Inr evs] s [] = Some (Inr (s', q)) \<and>
    (deliver_step host i)\<^sup>*\<^sup>* (init_dst q c ts) st \<and>
    wire (d_client st) = wire c @ stream_bytes evs"
proof -
  let ?q = "new_entries clock 0 ms"
  have d: "deframe host (accepted host extended) (stream_bytes evs) = ms"
    using deframe_msgs [of ms host "accepted host extended"] assms(1,3) by simp
  obtain s' where s': "accept_loop (ctmp_parse_func host extended) clock [Inr evs] s [] =
      Some (Inr (s', ?q))"
    using selected.conn_loop_deframe [of "s\<lparr>rx := evs\<rparr>" host extended clock "[]"] assms(2,4)
    by (auto simp: d)
  have f: "\<forall>e \<in> set ?q. fresh_entry host i e"
    using fresh_new_entries assms(1) by blast
  have ok: "flag_pos i" using assms(7,8) by (simp add: flag_pos_def)
  obtain st where st: "(deliver_step host i)\<^sup>*\<^sup>* (init_dst ?q c ts) st"
      "delivered_upto host i (wire c) ts (length ?q) st" "map entry_core (d_queue st) = map entry_core ?q"
    using delivered_upto_drain [OF ok delivered_upto_init [OF f assms(6), of ts]]
    by (auto simp: init_dst_def)
  then have "length (d_queue st) = length ?q" by (metis length_map)
  then have "wire (d_client st) = wire c @ entitled_bytes ts ?q"
    using st entitled_bytes_core [OF st(3)] by (simp add: delivered_upto_def)
  then show ?thesis
    using s' st(1) entitled_new_entries [of 0 ts clock ms] assms(3,5) by auto
qed

lemma relay_fidelity_witness:
  "\<exists>s' q st. accept_loop (ctmp_parse_func Little False) (\<lambda>_. t_sec 5)
      [Inr [Chunk [0xCC], Err EINTR, Chunk [0, 0, 2, 0, 0, 0, 0, 7], Pending, Chunk [9]]]
      \<lparr>rx = [], diags = [], live = 0, budget = 99\<rparr> [] = Some (Inr (s', q)) \<and>
    (deliver_step Little 31)\<^sup>*\<^sup>* (init_dst q live_client (t_sec 3)) st \<and>
    wire (d_client st) = wire live_client @ [0xCC, 0, 0, 2, 0, 0, 0, 0, 7, 9]"
  using relay_fidelity [of "[sample_msg]" Little False
      "[Chunk [0xCC], Err EINTR, Chunk [0, 0, 2, 0, 0, 0, 0, 7], Pending, Chunk [9]]"
      "\<lparr>rx = [], diags = [], live = 0, budget = 99\<rparr>" "t_sec 3" "\<lambda>_. t_sec 5" live_client 31]
    wf_sample_msg healthy_live_client msg_bytes_sample
  by (simp add: sample_msg_def compare_times_iff_less [symmetric] compare_times_def t_sec_def)

text \<open>
  A receiver that is slower than the time to live takes the whole program down: after a pass
  of the cleanup worker that finds the entry at the worker's position expired, the worker of a client that
  is entitled to the entry follows a null pointer.
\<close>

lemma cleanup_crashes_slow_worker:
  assumes "pass_at 0 cs" "c < length (c_queue cs)" "msg (c_queue cs ! c) \<noteq> None"
    and "add_secs (timestamp (c_queue cs ! c)) ttl < clock c"
    and "ts < timestamp (c_queue cs ! c)" "is_alive (crx cl)"
    and "get_msg_entry (c_queue cs) cr pr False = Inr c"
  shows "\<exists>cs'. cleanup_iters ttl clock (length (c_queue cs)) cs = Inr cs' \<and>
    worker_iter i \<lparr>d_queue = c_queue cs', d_current = cr, d_prev = pr, d_next = nx, d_bytes_sent = bs,
      d_client = cl, d_ts = ts, d_open = True\<rparr> = Inl Null_Deref"
proof -
  let ?n = "length (c_queue cs)" and ?e = "c_queue cs ! c"
  obtain cs' where cs': "cleanup_iters ttl clock ?n cs = Inr cs'"
      "c_queue cs' = map2 (\<lambda>j e. cleanup_entry ttl (clock j) e) [0..<?n] (c_queue cs)"
    using cleanup_iters_pass [OF assms(1), of ?n] assms(2) by (cases ?n) auto
  then have l: "length (c_queue cs') = ?n" by simp
  have e: "c_queue cs' ! c = free_msg_data ?e"
    using cs'(2) assms(2-4) by (simp add: cleanup_entry_def expired_def compare_times_iff_less)
  have "get_msg_entry (c_queue cs') cr pr False = Inr c"
    using assms(7) l by (auto simp: get_msg_entry_def TAILQ_FIRST_def TAILQ_NEXT_def split: if_splits)
  then have "worker_iter i \<lparr>d_queue = c_queue cs', d_current = cr, d_prev = pr, d_next = nx,
      d_bytes_sent = bs, d_client = cl, d_ts = ts, d_open = True\<rparr> = Inl Null_Deref"
    using e assms(5,6)
    by (simp add: worker_iter_def can_forward_def is_sent_def free_msg_data_def compare_times_iff_less)
  with cs'(1) show ?thesis by blast
qed

lemma cleanup_crashes_slow_worker_witness:
  "\<exists>cs'. cleanup_iters 5 (\<lambda>_. t_sec 8) (length (c_queue two_entries)) two_entries = Inr cs' \<and>
    worker_iter 3 \<lparr>d_queue = c_queue cs', d_current = None, d_prev = None, d_next = None,
      d_bytes_sent = 0, d_client = live_client, d_ts = t_sec 0, d_open = True\<rparr> = Inl Null_Deref"
  using cleanup_crashes_slow_worker [of two_entries 0 5 "\<lambda>_. t_sec 8" "t_sec 0" live_client None None
      3 None 0]
  by (simp add: two_entries_def pass_at_def sample_entry_def live_client_def get_msg_entry_def
      wait_until_def TAILQ_FIRST_def compare_times_iff_less [symmetric] compare_times_def add_secs_def
      t_sec_def)

text \<open>The messages a schedule publishes, in order.\<close>

fun published :: "action list \<Rightarrow> (timespec \<times> ctmp_msg) list" where
  "published [] = []"
| "published (Publish ts m # as) = (ts, m) # published as"
| "published (a # as) = published as"

lemma perform_hist:
  "allowed host n a s \<Longrightarrow> perform ttl a s = Inr t \<Longrightarrow> hist t = hist s @ published [a]"
  by (cases a) (auto simp: set_worker_def join_def fault_simps split: option.splits)

lemma published_Cons: "published (a # as) = published [a] @ published as"
  by (cases a) simp_all

lemma run_hist: "run_schedule host ttl n as s = Some (Inr t) \<Longrightarrow> hist t = hist s @ published as"
proof (induction as arbitrary: s)
  case (Cons a as)
  then obtain u where "allowed host n a s" "perform ttl a s = Inr u" "run_schedule host ttl n as u = Some (Inr t)"
    by (auto split: if_splits sum.splits)
  with Cons.IH perform_hist published_Cons [of a as] show ?case by fastforce
qed simp

text \<open>An entry of the source server's queue, as a step of the system.\<close>

definition entry_core_of :: "msg_entry \<Rightarrow> timespec \<times> ctmp_msg" where
  "entry_core_of e = (timestamp e, the (msg e))"

lemma cores_new_entries:
  "map entry_core_of (new_entries clock k ms) = zip (map clock [k..<k + length ms]) ms"
  by (induction ms arbitrary: k)
    (simp_all add: entry_core_of_def new_entry_def upt_conv_Cons del: upt_Suc)

lemma demo_done_run: "run_schedule Little 5 1 (demo_run @ replicate 4 (Work 0)) init_system =
    Some (Inr (demo_after (demo_run @ replicate 4 (Work 0))))"
  by (simp add: demo_simps fun_upd_idem sample_msg_def wf_sample_msg [unfolded sample_msg_def])

text \<open>
  Fidelity of the relay in every interleaving: whatever the order in which the messages of
  a source's connection are appended, receivers come and go, all workers step and the cleanup worker frees
  entries, a worker whose receiver joined at the start of the queue, before the messages arrived, and who
  waits for the next message, has sent that receiver exactly the bytes of the source.
\<close>

lemma relay_all_interleavings:
  assumes "\<forall>m \<in> set ms. wf_msg host m \<and> len m \<noteq> 0 \<and> accepted host extended m"
    and "clean evs" "stream_bytes evs = concat (map msg_bytes ms)" "4 * evs_size evs \<le> budget src"
    and "run_schedule host ttl n as init_system = Some (Inr t)" "n \<le> 32"
    and "accept_loop (ctmp_parse_func host extended) clock [Inr evs] src [] = Some (Inr (src', q))"
    and "published as = map entry_core_of q"
    and "wl t i = Some l" "jpos t i = 0" "\<forall>j. wts l < clock j"
    and "ph l = P_Get" "wstep (int i) (sq t) l = Inl Would_Block"
  shows "wire (wcl l) = jbase t i @ stream_bytes evs"
proof -
  have d: "deframe host (accepted host extended) (stream_bytes evs) = ms"
    using deframe_msgs [of ms host "accepted host extended"] assms(1,3) by simp
  have "q = new_entries clock 0 ms"
    using selected.conn_loop_deframe [of "src\<lparr>rx := evs\<rparr>" host extended clock "[]"] assms(2,4,7)
    by (auto simp: d)
  then have H: "hist t = zip (map clock [0..<length ms]) ms"
    using run_hist [OF assms(5)] assms(8) cores_new_entries [of clock 0 ms] by (simp add: init_system_def)
  then have "map snd (hist t) = ms" "\<forall>h \<in> set (hist t). wts l < fst h"
    using assms(11) by (auto simp: set_zip)
  then have e: "entitled (hist t) (wts l) 0 (length (hist t)) = concat (map msg_bytes ms)"
    using entitled_all [of "hist t" "wts l"] by (metis map_map)
  have r: "sys_reachable host ttl n t" by (rule run_schedule_steps [OF assms(5)])
  note w = reachable_slot [OF r assms(6,9)]
  have "gpos l = length (sq t)"
    using wstep_fault [OF w(3,2,5) assms(13)] assms(12) by simp
  with w(4,5) assms(3,10,12) e show ?thesis by (simp add: stands_def)
qed

lemma relay_all_interleavings_witness:
  "\<exists>src' q. accept_loop (ctmp_parse_func Little False) (\<lambda>_. t_sec 5)
      [Inr [Chunk [0xCC], Err EINTR, Chunk [0, 0, 2, 0, 0, 0, 0, 7], Pending, Chunk [9]]]
      \<lparr>rx = [], diags = [], live = 0, budget = 99\<rparr> [] = Some (Inr (src', q)) \<and>
    published (demo_run @ replicate 4 (Work 0)) = map entry_core_of q \<and>
    (\<exists>l. wl (demo_after (demo_run @ replicate 4 (Work 0))) 0 = Some l \<and>
      wire (wcl l) = [0xCC, 0, 0, 2, 0, 0, 0, 0, 7, 9])"
proof -
  let ?evs = "[Chunk [0xCC], Err EINTR, Chunk [0, 0, 2, 0, 0, 0, 0, 7], Pending, Chunk [9 :: byte]]"
  let ?src = "\<lparr>rx = [], diags = [], live = 0, budget = 99\<rparr>" and ?as = "demo_run @ replicate 4 (Work 0)"
  have bs: "stream_bytes ?evs = concat (map msg_bytes [sample_msg])" using msg_bytes_sample by simp
  have ok: "\<forall>m \<in> set [sample_msg]. wf_msg Little m \<and> len m \<noteq> 0 \<and> accepted Little False m"
    using wf_sample_msg by (simp add: sample_msg_def accepted_def)
  have d: "deframe Little (accepted Little False) (stream_bytes ?evs) = [sample_msg]"
    using deframe_msgs [of "[sample_msg]" Little "accepted Little False"] ok bs by simp
  obtain src' where a: "accept_loop (ctmp_parse_func Little False) (\<lambda>_. t_sec 5) [Inr ?evs] ?src [] =
      Some (Inr (src', [new_entry (t_sec 5) sample_msg]))"
    using selected.conn_loop_deframe [of "?src\<lparr>rx := ?evs\<rparr>" Little False "\<lambda>_. t_sec 5" "[]"] d by auto
  have p: "published ?as = map entry_core_of [new_entry (t_sec 5) sample_msg]"
    by (simp add: demo_run_def replicate_4_5 entry_core_of_def new_entry_def)
  have r: "run_schedule Little 5 1 ?as init_system = Some (Inr (demo_after ?as))" by (rule demo_done_run)
  have "t_sec 3 < t_sec 5" by (simp add: compare_times_iff_less [symmetric] compare_times_def t_sec_def)
  then have "wire (quiet_client\<lparr>wire := [0xCC, 0, 0, 2, 0, 0, 0, 0, 7, 9]\<rparr>) = [] @ stream_bytes ?evs"
    using relay_all_interleavings [OF ok _ bs _ r _ a p, of 0] bs
    by (simp add: demo_done wstep_def get_msg_entry_def wait_until_def TAILQ_NEXT_def)
  with a p demo_done bs show ?thesis by simp
qed

end
